(* ===== verification/Hydr_Prelude.thy ===== *)
theory Hydr_Prelude
  imports Main "HOL-Library.Word"
begin

section \<open>Prelude: machine types, errors, panics, byte strings\<close>

text \<open>
  What every component shares: the widths of the Rust integer types, the crate's error type
  (\<open>src/crates/hydr-core/src/error.rs\<close>), the result type of a fallible operation, and the
  few operations of the Rust standard library the code leans on (checked slicing and indexing,
  big-endian conversion, decimal formatting).

  A fallible operation returns \<open>failure + 'a\<close>. \<open>Inl (Err e)\<close> is an \<open>Err(e)\<close> the code
  returns; \<open>Inl Panic\<close> is a panic (an index or slice out of range, or an addition of
  \<open>usize\<close> values that overflows). Panics are values here so that the absence of panics is a
  theorem about the decoders rather than an assumption.

  \<open>usize\<close> is 64 bits wide. Lengths and positions are \<open>nat\<close>; where the code adds two of them,
  \<open>usize_add\<close> keeps the overflow visible. A Rust slice is never longer than \<open>isize::MAX\<close>
  bytes, which is the bound \<open>isize_max\<close> some theorems ask of their buffers.
\<close>

unbundle bit_operations_syntax

text \<open>
  The collection of the constants' definitions (message codes, sizes, limits), so that a proof
  that needs their values says \<open>simp add: code_consts\<close>.
\<close>

named_theorems code_consts

subsection \<open>Machine integers and byte strings\<close>

type_synonym u8 = "8 word"
type_synonym u16 = "16 word"
type_synonym u32 = "32 word"
type_synonym u64 = "64 word"
type_synonym u128 = "128 word"

type_synonym bytes = "u8 list"

text \<open>A Rust string is its UTF-8 bytes; a literal of the source is written \<open>lit ''...''\<close>.\<close>

type_synonym rstring = bytes

definition lit :: "string \<Rightarrow> rstring" where
  "lit s = map of_char s"

lemma length_lit [simp]: "length (lit s) = length s"
  by (simp add: lit_def)

definition isize_max :: nat where
  "isize_max = 2 ^ 63 - 1"

definition usize_max :: nat where
  "usize_max = 2 ^ 64 - 1"

subsection \<open>Errors, panics, results\<close>

text \<open>
  \<open>Error\<close> of \<open>error.rs\<close>. The payload of \<open>Io\<close> is the rendered \<open>std::io::Error\<close>; the
  code never inspects it further than that it is an \<open>Io\<close>.
\<close>

datatype hydr_error =
    Io rstring
  | UnexpectedEof
  | InvalidData rstring
  | Message rstring
  | AuthFailed
  | StreamClosed
  | Unsupported

text \<open>The \<open>Display\<close> implementation, hence \<open>e.to_string()\<close>.\<close>

fun error_to_string :: "hydr_error \<Rightarrow> rstring" where
  "error_to_string (Io e) = lit ''io error: '' @ e"
| "error_to_string UnexpectedEof = lit ''unexpected end of buffer''"
| "error_to_string (InvalidData m) = lit ''invalid data: '' @ m"
| "error_to_string (Message m) = m"
| "error_to_string AuthFailed = lit ''authentication failed''"
| "error_to_string StreamClosed = lit ''stream closed''"
| "error_to_string Unsupported = lit ''unsupported''"

datatype failure = Err hydr_error | Panic

type_synonym 'a result = "failure + 'a"

abbreviation Ok :: "'a \<Rightarrow> 'a result" where
  "Ok \<equiv> Inr"

abbreviation Fail :: "hydr_error \<Rightarrow> 'a result" where
  "Fail e \<equiv> Inl (Err e)"

abbreviation Crash :: "'a result" where
  "Crash \<equiv> Inl Panic"

text \<open>The \<open>?\<close> operator: go on with the value, return the failure as it is.\<close>

definition and_then :: "'a result \<Rightarrow> ('a \<Rightarrow> 'b result) \<Rightarrow> 'b result" where
  "and_then r f = (case r of Inl e \<Rightarrow> Inl e | Inr x \<Rightarrow> f x)"

lemma and_then_simps [simp]:
  "and_then (Ok x) f = f x"
  "and_then (Inl e) f = Inl e"
  by (simp_all add: and_then_def)

lemma and_then_eq_Ok [simp]:
  "and_then r f = Ok y \<longleftrightarrow> (\<exists>x. r = Ok x \<and> f x = Ok y)"
  by (cases r) auto

lemma and_then_eq_Inl:
  "and_then r f = Inl e \<longleftrightarrow> r = Inl e \<or> (\<exists>x. r = Ok x \<and> f x = Inl e)"
  by (cases r) auto

lemma and_then_cong [fundef_cong]:
  "r = s \<Longrightarrow> (\<And>x. s = Ok x \<Longrightarrow> f x = g x) \<Longrightarrow> and_then r f = and_then s g"
  by (cases s) auto

lemma and_then_assoc: "and_then (and_then r f) g = and_then r (\<lambda>x. and_then (f x) g)"
  by (cases r) auto

subsection \<open>Checked access\<close>

text \<open>\<open>buf.get(i)\<close> with \<open>ok_or(UnexpectedEof)\<close>, \<open>buf[i]\<close> and \<open>buf[a..b]\<close>.\<close>

definition get_or_eof :: "bytes \<Rightarrow> nat \<Rightarrow> u8 result" where
  "get_or_eof buf i = (if i < length buf then Ok (buf ! i) else Fail UnexpectedEof)"

definition index :: "'a list \<Rightarrow> nat \<Rightarrow> 'a result" where
  "index buf i = (if i < length buf then Ok (buf ! i) else Crash)"

definition slice_range :: "'a list \<Rightarrow> nat \<Rightarrow> nat \<Rightarrow> 'a list result" where
  "slice_range buf a b = (if a \<le> b \<and> b \<le> length buf then Ok (take (b - a) (drop a buf)) else Crash)"

definition slice_from :: "'a list \<Rightarrow> nat \<Rightarrow> 'a list result" where
  "slice_from buf a = (if a \<le> length buf then Ok (drop a buf) else Crash)"

definition usize_add :: "nat \<Rightarrow> nat \<Rightarrow> nat result" where
  "usize_add a b = (if a + b \<le> usize_max then Ok (a + b) else Crash)"

text \<open>\<open>checked_add\<close>.\<close>

definition usize_checked_add :: "nat \<Rightarrow> nat \<Rightarrow> nat option" where
  "usize_checked_add a b = (if a + b \<le> usize_max then Some (a + b) else None)"

lemma usize_add_Ok: "a + b \<le> usize_max \<Longrightarrow> usize_add a b = Ok (a + b)"
  by (simp add: usize_add_def)

lemma slice_range_Ok: "a \<le> b \<Longrightarrow> b \<le> length buf \<Longrightarrow> slice_range buf a b = Ok (take (b - a) (drop a buf))"
  by (simp add: slice_range_def)

lemma slice_from_Ok: "a \<le> length buf \<Longrightarrow> slice_from buf a = Ok (drop a buf)"
  by (simp add: slice_from_def)

lemma index_Ok: "i < length buf \<Longrightarrow> index buf i = Ok (buf ! i)"
  by (simp add: index_def)

lemmas access_defs = get_or_eof_def index_def slice_range_def slice_from_def usize_add_def

lemma isize_max_le_usize_max: "isize_max \<le> usize_max"
  by (simp add: isize_max_def usize_max_def)

lemma small_le_usize_max: "m \<le> isize_max \<Longrightarrow> n \<le> 2 ^ 63 \<Longrightarrow> m + n \<le> usize_max"
  by (simp add: isize_max_def usize_max_def)

lemma small_isize: "n \<le> 100 \<Longrightarrow> n \<le> isize_max"
  by (simp add: isize_max_def)

lemma replicate_numeral: "replicate (numeral k) x = x # replicate (pred_numeral k) x"
  by (simp add: numeral_eq_Suc)

subsection \<open>Big-endian conversion\<close>

text \<open>
  \<open>be_bytes n w\<close> are the low \<open>n\<close> bytes of \<open>w\<close>, most significant first:
  \<open>w.to_be_bytes()\<close> for a width of \<open>n\<close> bytes, and its tail \<open>[1..]\<close> for one byte less.
  \<open>from_be\<close> is \<open>from_be_bytes\<close>.
\<close>

fun be_bytes :: "nat \<Rightarrow> 'a::len word \<Rightarrow> bytes" where
  "be_bytes 0 w = []"
| "be_bytes (Suc n) w = ucast (drop_bit (8 * n) w) # be_bytes n w"

definition shift_in :: "'a::len word \<Rightarrow> u8 \<Rightarrow> 'a word" where
  "shift_in v b = push_bit 8 v OR ucast b"

definition from_be :: "bytes \<Rightarrow> 'a::len word" where
  "from_be bs = foldl shift_in 0 bs"

lemma length_be_bytes [simp]: "length (be_bytes n w) = n"
  by (induction n) auto

lemma foldl_be_bytes:
  "foldl shift_in x (be_bytes n w) = push_bit (8 * n) x OR take_bit (8 * n) (w :: 'a::len word)"
proof (induction n arbitrary: x)
  case 0
  then show ?case by simp
next
  case (Suc n)
  have "push_bit (8 * n) (shift_in x (ucast (drop_bit (8 * n) w))) OR take_bit (8 * n) w
     = push_bit (8 * Suc n) x OR take_bit (8 * Suc n) w"
    by (rule bit_eqI) (auto simp: shift_in_def bit_simps add.commute [of 8])
  with Suc show ?case by simp
qed

lemma from_be_bytes:
  "LENGTH('a) \<le> 8 * n \<Longrightarrow> from_be (be_bytes n w) = (w :: 'a::len word)"
  by (simp add: from_be_def foldl_be_bytes take_bit_word_eq_self)

text \<open>Bytes beyond the first eight of a 64-bit value fall out at the top.\<close>

lemma be_bytes_ucast:
  "8 * n \<le> LENGTH('b) \<Longrightarrow> be_bytes n (ucast (w :: 'a::len word) :: 'b::len word) = be_bytes n w"
proof (induction n)
  case 0
  then show ?case by simp
next
  case (Suc n)
  have "ucast (drop_bit (8 * n) (ucast w :: 'b word)) = (ucast (drop_bit (8 * n) w) :: u8)"
    using Suc.prems by (intro bit_eqI) (auto simp: bit_simps)
  with Suc show ?case by simp
qed

lemma unat_bound: "unat (w :: 'a::len word) < 2 ^ LENGTH('a)"
  by (rule unsigned_less)

lemma unat_ucast_mod: "unat (ucast (w :: 'a::len word) :: 'b::len word) = unat w mod 2 ^ LENGTH('b)"
  by (simp add: unsigned_ucast_eq unsigned_take_bit_eq take_bit_eq_mod)

text \<open>A bound by a power of two, read bitwise.\<close>

lemma word_less_exp_iff:
  fixes v :: "'a::len word"
  assumes "k < LENGTH('a)"
  shows "v < 2 ^ k \<longleftrightarrow> take_bit k v = v"
  using assms less_mask_eq [of v k] and_mask_less_size [of k v]
  by (auto simp: take_bit_eq_mask word_size)

lemma word_less_exp_bit:
  fixes v :: "'a::len word"
  assumes "v < 2 ^ k" "k < LENGTH('a)" "k \<le> i"
  shows "\<not> bit v i"
  using assms by (metis word_less_exp_iff bit_take_bit_iff not_le)

subsection \<open>Decimal formatting\<close>

text \<open>\<open>to_string\<close> of an unsigned integer.\<close>

fun show_nat :: "nat \<Rightarrow> rstring" where
  "show_nat n = (if n < 10 then [48 + of_nat n] else show_nat (n div 10) @ [48 + of_nat (n mod 10)])"

declare show_nat.simps [simp del]

definition show_word :: "'a::len word \<Rightarrow> rstring" where
  "show_word w = show_nat (unat w)"

end
