(* ===== verification/Codec.thy ===== *)
theory Codec
  imports Hydr_Prelude
begin

section \<open>The contract of a wire codec\<close>

text \<open>
  Every wire format of the crate comes as an \<open>encode\<close>/\<open>decode\<close> pair, where \<open>decode\<close>
  returns the value and the number of bytes it used. \<open>whole_codec\<close> is what all of them
  promise; \<open>prefix_codec\<close> adds what holds for the self-delimiting ones (all but
  \<open>Datagram\<close>, whose payload runs to the end of the buffer). The transports rest on these
  contracts only.
\<close>

locale whole_codec =
  fixes encode :: "'a \<Rightarrow> bytes"
    and decode :: "bytes \<Rightarrow> ('a \<times> nat) result"
    and wf :: "'a \<Rightarrow> bool"
  assumes decode_encode:
      "wf x \<Longrightarrow> length (encode x) \<le> isize_max \<Longrightarrow> decode (encode x) = Ok (x, length (encode x))"
    and decode_bound:
      "length b \<le> isize_max \<Longrightarrow> decode b = Ok (x, n) \<Longrightarrow> n \<le> length b"
    and decode_no_panic:
      "length b \<le> isize_max \<Longrightarrow> decode b \<noteq> Crash"
begin

text \<open>Two well-formed values with the same bytes are the same value.\<close>

lemma encode_inject:
  assumes "wf x" "wf y" "length (encode x) \<le> isize_max" "encode x = encode y"
  shows "x = y"
  using decode_encode [of x] decode_encode [of y] assms by simp

end

locale prefix_codec = whole_codec +
  assumes decode_extend:
      "length (b @ c) \<le> isize_max \<Longrightarrow> decode b \<noteq> Fail UnexpectedEof \<Longrightarrow> decode (b @ c) = decode b"
begin

text \<open>Whatever follows the encoding stays untouched.\<close>

lemma decode_encode_rest:
  assumes "wf x" "length (encode x @ rest) \<le> isize_max"
  shows "decode (encode x @ rest) = Ok (x, length (encode x))"
  using assms decode_encode [of x] decode_extend [of "encode x" rest] by simp

text \<open>No encoding is a proper prefix of another one, so a stream of messages splits uniquely.\<close>

lemma encode_prefix_free:
  assumes "wf x" "wf y" "encode x @ xs = encode y @ ys" "length (encode x @ xs) \<le> isize_max"
  shows "x = y \<and> xs = ys"
proof -
  have "Ok (x, length (encode x)) = Ok (y, length (encode y))"
    using decode_encode_rest [of x xs] decode_encode_rest [of y ys] assms by simp
  with assms(3) show ?thesis by simp
qed

text \<open>A message cut short anywhere is reported as \<open>UnexpectedEof\<close> and nothing else.\<close>

lemma decode_truncated:
  assumes "wf x" "encode x = b @ c" "c \<noteq> []" "length (encode x) \<le> isize_max"
  shows "decode b = Fail UnexpectedEof"
proof (rule ccontr)
  assume *: "decode b \<noteq> Fail UnexpectedEof"
  have "decode b = Ok (x, length (encode x))"
    using decode_extend [OF _ *, of c] decode_encode [OF assms(1)] assms by simp
  with decode_bound [of b] assms show False by simp
qed

text \<open>Reading past the first message of a stream leaves exactly the rest.\<close>

lemma decode_consumes:
  assumes "wf x" "length (encode x @ rest) \<le> isize_max" "decode (encode x @ rest) = Ok (y, n)"
  shows "y = x \<and> drop n (encode x @ rest) = rest"
  using decode_encode_rest [OF assms(1,2)] assms(3) by simp

end

end
