(* ===== verification/Varint.thy ===== *)
theory Varint
  imports Codec
begin

section \<open>QUIC variable-length integers\<close>

text \<open>
  \<open>src/crates/hydr-core/src/varint.rs\<close>. The two top bits of the first byte give the length
  (1, 2, 4 or 8 bytes), the remaining bits are the value, big-endian. The encoder appends to the
  buffer it is given; values of \<open>2 ^ 62\<close> and more lose their two top bits, because the tag is
  OR-ed over them.
\<close>

definition MAX_VARINT :: nat where [code_consts]:
  "MAX_VARINT = 8"

definition encode_varint :: "bytes \<Rightarrow> u64 \<Rightarrow> bytes" where
  "encode_varint buf v =
     (if v < push_bit 6 1 then buf @ [ucast v]
      else if v < push_bit 14 1 then buf @ [ucast (drop_bit 8 v) OR 0x40] @ [ucast v]
      else if v < push_bit 30 1 then
        buf @ [ucast (drop_bit 24 v) OR 0x80] @ drop 1 (be_bytes 4 (ucast v :: u32))
      else buf @ [ucast (drop_bit 56 v) OR 0xC0] @ drop 1 (be_bytes 8 v))"

definition encode_varint_len :: "u64 \<Rightarrow> nat" where
  "encode_varint_len v =
     (if v < push_bit 6 1 then 1
      else if v < push_bit 14 1 then 2
      else if v < push_bit 30 1 then 4
      else 8)"

definition decode_varint :: "bytes \<Rightarrow> (u64 \<times> nat) result" where
  "decode_varint buf =
     and_then (get_or_eof buf 0) (\<lambda>first.
       let tag = drop_bit 6 first;
           len = push_bit (unat tag) 1
       in if length buf < len then Fail UnexpectedEof
          else and_then (slice_range buf 1 len) (\<lambda>tail.
            Ok (foldl shift_in (ucast (first AND 0x3F)) tail, len)))"

subsection \<open>What the encoder writes\<close>

lemma encode_varint_append: "encode_varint buf v = buf @ encode_varint [] v"
  by (simp add: encode_varint_def)

text \<open>All four branches write a tagged top byte and the low bytes below it.\<close>

definition tagged :: "nat \<Rightarrow> u8 \<Rightarrow> u64 \<Rightarrow> bytes" where
  "tagged n t v = (ucast (drop_bit (8 * n) v) OR t) # be_bytes n v"

lemma drop_be_bytes_32: "drop 1 (be_bytes 4 (ucast (v :: u64) :: u32)) = be_bytes 3 v"
proof -
  have "drop 1 (be_bytes 4 w) = be_bytes 3 w" for w :: u32
    using be_bytes.simps(2) [of 3 w] by simp
  moreover have "be_bytes 3 (ucast v :: u32) = be_bytes 3 v"
    by (rule be_bytes_ucast) simp
  ultimately show ?thesis by simp
qed

lemma drop_be_bytes_64: "drop 1 (be_bytes 8 (v :: u64)) = be_bytes 7 v"
  using be_bytes.simps(2) [of 7 v] by simp

lemma encode_varint_tagged:
  "encode_varint [] v =
     (if v < 2 ^ 6 then tagged 0 0 v
      else if v < 2 ^ 14 then tagged 1 0x40 v
      else if v < 2 ^ 30 then tagged 3 0x80 v
      else tagged 7 0xC0 v)"
  unfolding encode_varint_def drop_be_bytes_32 drop_be_bytes_64
  by (simp add: tagged_def)

lemma length_tagged [simp]: "length (tagged n t v) = Suc n"
  by (simp add: tagged_def)

lemma encode_varint_len_eq: "encode_varint_len v = length (encode_varint [] v)"
  by (simp add: encode_varint_len_def encode_varint_tagged)

subsection \<open>What the decoder reads\<close>

text \<open>The decoder on a tagged byte, for a tag \<open>t = k << 6\<close> announcing \<open>n + 1\<close> bytes.\<close>

lemma tag_bits:
  fixes x :: u8
  shows "drop_bit 6 (push_bit 6 x) = x AND 3"
    and "drop_bit 6 x OR 3 = 3"
    and "(x OR push_bit 6 y) AND 0x3F = x AND 0x3F"
proof -
  have m: "(0x3F :: u8) = mask 6" "(3 :: u8) = mask 2" by (simp_all add: mask_eq_exp_minus_1)
  show "drop_bit 6 (push_bit 6 x) = x AND 3"
    unfolding m by (rule bit_eqI) (auto simp: bit_simps)
  show "drop_bit 6 x OR 3 = 3"
    unfolding m by (rule bit_eqI) (auto simp: bit_simps dest: bit_imp_le_length)
  show "(x OR push_bit 6 y) AND 0x3F = x AND 0x3F"
    unfolding m by (rule bit_eqI) (auto simp: bit_simps)
qed

lemma low_bits_value:
  "foldl shift_in (ucast ((ucast (drop_bit (8 * n) v) :: u8) AND 0x3F)) (be_bytes n v)
     = (take_bit (8 * n + 6) v :: u64)"
proof -
  have m: "(0x3F :: u8) = mask 6" by (simp add: mask_eq_exp_minus_1)
  show ?thesis
    unfolding foldl_be_bytes m by (rule bit_eqI) (auto simp: bit_simps)
qed

lemma decode_tagged:
  assumes k: "k AND 3 = k" and len: "push_bit (unat (drop_bit 6 (ucast (drop_bit (8 * n) v) :: u8) OR k)) 1 = Suc n"
  shows "decode_varint (tagged n (push_bit 6 k) v @ rest) = Ok (take_bit (8 * n + 6) v, Suc n)"
proof -
  let ?b = "(ucast (drop_bit (8 * n) v) :: u8) OR push_bit 6 k"
  have "take n (be_bytes n v @ rest) = be_bytes n v" by simp
  moreover have "push_bit (unat (drop_bit 6 ?b)) 1 = Suc n"
    using len k by (simp add: tag_bits)
  ultimately show ?thesis
    using low_bits_value [of n v]
    by (simp add: decode_varint_def tagged_def get_or_eof_def slice_range_def Let_def tag_bits)
qed

text \<open>The byte above the low ones is below 64 unless the value has more than 62 bits.\<close>

lemma high_byte:
  fixes v :: u64
  assumes "v < 2 ^ (8 * n + 6)" "8 * n + 6 < 64"
  shows "drop_bit 6 (ucast (drop_bit (8 * n) v) :: u8) = 0"
  using word_less_exp_bit [OF assms(1)] assms(2)
  by (intro bit_eqI) (auto simp: bit_simps)

lemma take_bit_small: "(v :: u64) < 2 ^ k \<Longrightarrow> k < 64 \<Longrightarrow> take_bit k v = v"
  by (simp add: word_less_exp_iff)

text \<open>
  The decoder undoes the encoder up to the two top bits, whatever follows in the buffer. The
  statement has no condition on \<open>v\<close>: a value of 63 or 64 bits is silently cut to 62.
\<close>

lemma decode_encode_varint:
  "decode_varint (encode_varint [] v @ rest) = Ok (take_bit 62 v, encode_varint_len v)"
proof -
  consider (one) "v < 2 ^ 6" | (two) "\<not> v < 2 ^ 6" "v < 2 ^ 14"
    | (four) "\<not> v < 2 ^ 6" "\<not> v < 2 ^ 14" "v < 2 ^ 30"
    | (eight) "\<not> v < 2 ^ 6" "\<not> v < 2 ^ 14" "\<not> v < 2 ^ 30"
    by blast
  then show ?thesis
  proof cases
    case one
    then have "v < 2 ^ 62" by unat_arith
    with one show ?thesis
      using decode_tagged [of 0 0 v rest] high_byte [of v 0] take_bit_small [of v 6] take_bit_small [of v 62]
      by (simp add: encode_varint_tagged encode_varint_len_def)
  next
    case two
    then have "v < 2 ^ 62" by unat_arith
    with two show ?thesis
      using decode_tagged [of 1 1 v rest] high_byte [of v 1] take_bit_small [of v 14] take_bit_small [of v 62]
      by (simp add: encode_varint_tagged encode_varint_len_def)
  next
    case four
    then have "v < 2 ^ 62" by unat_arith
    with four show ?thesis
      using decode_tagged [of 2 3 v rest] high_byte [of v 3] take_bit_small [of v 30] take_bit_small [of v 62]
      by (simp add: encode_varint_tagged encode_varint_len_def)
  next
    case eight
    then show ?thesis
      using decode_tagged [of 3 7 v rest]
      by (simp add: tag_bits encode_varint_tagged encode_varint_len_def)
  qed
qed

corollary decode_encode_varint_62:
  "v < 2 ^ 62 \<Longrightarrow> decode_varint (encode_varint [] v @ rest) = Ok (v, encode_varint_len v)"
  by (simp add: decode_encode_varint take_bit_small)

lemma encode_varint_len_bounds: "1 \<le> encode_varint_len v" "encode_varint_len v \<le> MAX_VARINT"
  by (simp_all add: encode_varint_len_def MAX_VARINT_def)

subsection \<open>The decoder on arbitrary bytes\<close>

text \<open>What a successful decode says about the buffer.\<close>

lemma decode_varint_cases:
  obtains (eof) "decode_varint buf = Fail UnexpectedEof"
    | (ok) first tail n where "decode_varint buf = Ok (foldl shift_in (ucast (first AND 0x3F)) tail, n)"
        "n = push_bit (unat (drop_bit 6 first)) 1" "n \<le> length buf" "buf ! 0 = first"
        "tail = take (n - 1) (drop 1 buf)" "n \<in> {1, 2, 4, 8}"
proof (cases buf)
  case Nil
  then show ?thesis using eof by (simp add: decode_varint_def get_or_eof_def)
next
  case (Cons first rest)
  define n :: nat where "n = push_bit (unat (drop_bit 6 first)) 1"
  have "drop_bit 6 first \<le> 3"
    using le_word_or2 [of "drop_bit 6 first" 3] tag_bits(2) [of first] by simp
  then have "unat (drop_bit 6 first) \<le> 3" by unat_arith
  then have n: "n \<in> {1, 2, 4, 8}"
    by (auto simp: n_def le_Suc_eq numeral_eq_Suc)
  show ?thesis
  proof (cases "length buf < n")
    case True
    with Cons show ?thesis
      using eof by (simp add: decode_varint_def get_or_eof_def Let_def n_def)
  next
    case False
    have "2 ^ unat (drop_bit 6 first) = n" by (simp add: n_def)
    with Cons False n have "decode_varint buf =
        Ok (foldl shift_in (ucast (first AND 0x3F)) (take (n - 1) (drop 1 buf)), n)"
      by (auto simp: decode_varint_def get_or_eof_def slice_range_def Let_def)
    from ok [OF this n_def] Cons False n show ?thesis by simp
  qed
qed

lemma foldl_shift_in_bits:
  "(\<And>i. k \<le> i \<Longrightarrow> \<not> bit x i) \<Longrightarrow> k + 8 * length bs \<le> i \<Longrightarrow> \<not> bit (foldl shift_in x bs) i"
proof (induction bs arbitrary: x k)
  case Nil
  then show ?case by simp
next
  case (Cons b bs)
  have "\<not> bit (shift_in x b) j" if "k + 8 \<le> j" for j
    using that Cons.prems(1) [of "j - 8"]
    by (auto simp: shift_in_def bit_simps dest: bit_imp_le_length)
  from Cons.IH [of "k + 8", OF this] Cons.prems(2) show ?case by simp
qed

lemma decode_varint_value:
  assumes "decode_varint buf = Ok (v, n)"
  shows "n \<in> {1, 2, 4, 8} \<and> n \<le> length buf \<and> v < 2 ^ (8 * n - 2)"
proof (cases buf rule: decode_varint_cases)
  case eof
  with assms show ?thesis by simp
next
  case (ok first tail m)
  from ok(1) assms have v: "v = foldl shift_in (ucast (first AND 0x3F)) tail" and m: "m = n"
    by simp_all
  have "\<not> bit (ucast (first AND 0x3F) :: u64) i" if "6 \<le> i" for i
  proof -
    have m: "(0x3F :: u8) = mask 6" by (simp add: mask_eq_exp_minus_1)
    from that show ?thesis unfolding m by (simp add: bit_simps)
  qed
  then have "\<not> bit v i" if "6 + 8 * length tail \<le> i" for i
    using foldl_shift_in_bits [of 6 _ tail i] that v by blast
  moreover have "6 + 8 * length tail = 8 * n - 2" using ok m by auto
  ultimately have "take_bit (8 * n - 2) v = v"
    by (intro bit_eqI) (auto simp: bit_simps not_less [symmetric])
  moreover have "8 * n - 2 < 64" using ok m by auto
  ultimately show ?thesis using ok m by (auto simp: word_less_exp_iff)
qed

lemma decode_varint_no_panic: "decode_varint buf \<noteq> Crash"
  by (cases buf rule: decode_varint_cases) auto

lemma decode_varint_extend:
  assumes "decode_varint b \<noteq> Fail UnexpectedEof"
  shows "decode_varint (b @ c) = decode_varint b"
proof (cases b rule: decode_varint_cases)
  case eof
  with assms show ?thesis by simp
next
  case (ok first tail n)
  then obtain bs where b: "b = first # bs" by (cases b) auto
  with ok have "tail = take (n - 1) bs" "n \<le> Suc (length bs)" by simp_all
  with b ok show ?thesis
    by (auto simp: decode_varint_def get_or_eof_def slice_range_def Let_def)
qed

text \<open>The encoder picks the shortest of the encodings the decoder accepts for a value.\<close>

lemma decode_varint_len_minimal:
  assumes "decode_varint buf = Ok (v, n)"
  shows "encode_varint_len v \<le> n"
proof -
  from decode_varint_value [OF assms]
  have n: "n \<in> {1, 2, 4, 8}" and v: "v < 2 ^ (8 * n - 2)" by simp_all
  from n consider "n = 1" | "n = 2" | "n = 4" | "n = 8" by blast
  then show ?thesis
    using v by cases (simp_all add: encode_varint_len_def)
qed

interpretation varint_codec: prefix_codec "encode_varint []" decode_varint "\<lambda>v. v < 2 ^ 62"
proof unfold_locales
  fix v :: u64
  assume "v < 2 ^ 62"
  then show "decode_varint (encode_varint [] v) = Ok (v, length (encode_varint [] v))"
    using decode_encode_varint_62 [of v "[]"] by (simp add: encode_varint_len_eq)
next
  fix b v n
  assume "decode_varint b = Ok (v, n)"
  then show "n \<le> length b" by (simp add: decode_varint_value)
next
  fix b
  show "decode_varint b \<noteq> Crash" by (rule decode_varint_no_panic)
next
  fix b c
  assume "decode_varint b \<noteq> Fail UnexpectedEof"
  then show "decode_varint (b @ c) = decode_varint b" by (rule decode_varint_extend)
qed

end
