(* ===== verification/Utf8.thy ===== *)
theory Utf8
  imports Hydr_Prelude
begin

section \<open>UTF-8: \<open>String::from_utf8_lossy\<close>\<close>

text \<open>
  The decoders turn wire bytes into a \<open>String\<close> with \<open>String::from_utf8_lossy\<close>, which copies
  valid sequences and replaces every maximal ill-formed prefix by U+FFFD. This theory models
  that function of the standard library byte by byte: \<open>utf8_step\<close> looks at the front of the
  input and returns whether a valid scalar value stands there and how many bytes to consume.
  A byte past the end reads as 0, which is no continuation byte.
\<close>

definition byte_at :: "bytes \<Rightarrow> nat \<Rightarrow> u8" where
  "byte_at bs i = (if i < length bs then bs ! i else 0)"

definition is_cont :: "u8 \<Rightarrow> bool" where
  "is_cont b \<longleftrightarrow> b AND 192 = 128"

definition in_range :: "u8 \<Rightarrow> u8 \<Rightarrow> u8 \<Rightarrow> bool" where
  "in_range lo hi b \<longleftrightarrow> lo \<le> b \<and> b \<le> hi"

text \<open>The first continuation byte of a three- or four-byte sequence has a narrower range.\<close>

definition second_ok :: "u8 \<Rightarrow> u8 \<Rightarrow> bool" where
  "second_ok b c =
     (if b = 0xE0 then in_range 0xA0 0xBF c
      else if b = 0xED then in_range 0x80 0x9F c
      else if b = 0xF0 then in_range 0x90 0xBF c
      else if b = 0xF4 then in_range 0x80 0x8F c
      else in_range 0x80 0xBF c)"

definition utf8_step :: "bytes \<Rightarrow> bool \<times> nat" where
  "utf8_step bs =
     (let b = byte_at bs 0 in
      if b < 0x80 then (True, 1)
      else if in_range 0xC2 0xDF b then
        (if is_cont (byte_at bs 1) then (True, 2) else (False, 1))
      else if in_range 0xE0 0xEF b then
        (if \<not> second_ok b (byte_at bs 1) then (False, 1)
         else if is_cont (byte_at bs 2) then (True, 3) else (False, 2))
      else if in_range 0xF0 0xF4 b then
        (if \<not> second_ok b (byte_at bs 1) then (False, 1)
         else if \<not> is_cont (byte_at bs 2) then (False, 2)
         else if is_cont (byte_at bs 3) then (True, 4) else (False, 3))
      else (False, 1))"

lemma utf8_step_pos: "0 < snd (utf8_step bs)"
  by (simp add: utf8_step_def Let_def)

definition replacement_char :: bytes where
  "replacement_char = [0xEF, 0xBF, 0xBD]"

function from_utf8_lossy :: "bytes \<Rightarrow> rstring" where
  "from_utf8_lossy bs =
     (if bs = [] then []
      else let (ok, n) = utf8_step bs
           in (if ok then take n bs else replacement_char) @ from_utf8_lossy (drop n bs))"
  by pat_completeness auto
termination
proof (relation "measure length")
  fix bs p and ok :: bool and n
  assume "bs \<noteq> []" "p = utf8_step bs" "(ok, n) = p"
  then show "(drop n bs, bs) \<in> measure length"
    using utf8_step_pos [of bs] by (cases "utf8_step bs") auto
qed simp

declare from_utf8_lossy.simps [simp del]

lemma from_utf8_lossy_Nil [simp]: "from_utf8_lossy [] = []"
  by (subst from_utf8_lossy.simps) simp

lemma from_utf8_lossy_step:
  "bs \<noteq> [] \<Longrightarrow> utf8_step bs = (ok, n) \<Longrightarrow>
     from_utf8_lossy bs = (if ok then take n bs else replacement_char) @ from_utf8_lossy (drop n bs)"
  by (subst from_utf8_lossy.simps) simp

text \<open>Well-formed UTF-8: every step succeeds. A Rust \<open>String\<close> always satisfies it.\<close>

function valid_utf8 :: "bytes \<Rightarrow> bool" where
  "valid_utf8 bs \<longleftrightarrow>
     (if bs = [] then True
      else fst (utf8_step bs) \<and> valid_utf8 (drop (snd (utf8_step bs)) bs))"
  by pat_completeness auto
termination
  by (relation "measure length") (auto simp: utf8_step_pos)

declare valid_utf8.simps [simp del]

lemma valid_utf8_Nil [simp]: "valid_utf8 []"
  by (subst valid_utf8.simps) simp

lemma valid_utf8_step:
  "bs \<noteq> [] \<Longrightarrow> utf8_step bs = (ok, n) \<Longrightarrow> valid_utf8 bs \<longleftrightarrow> ok \<and> valid_utf8 (drop n bs)"
  by (subst valid_utf8.simps) simp

lemma from_utf8_lossy_valid: "valid_utf8 bs \<Longrightarrow> from_utf8_lossy bs = bs"
proof (induction bs rule: length_induct)
  case (1 bs)
  obtain ok n where s: "utf8_step bs = (ok, n)" by fastforce
  show ?case
  proof (cases "bs = []")
    case False
    from s have "0 < n" using utf8_step_pos [of bs] by simp
    with False 1 s show ?thesis
      by (auto simp: valid_utf8_step from_utf8_lossy_step)
  qed simp
qed

text \<open>A valid step reads only the bytes it consumes.\<close>

lemma not_cont_zero [simp]: "\<not> is_cont 0"
  by (simp add: is_cont_def)

lemma not_second_zero [simp]: "\<not> second_ok b 0"
  by (simp add: second_ok_def in_range_def)

lemma is_cont_byte_at: "is_cont (byte_at bs i) \<Longrightarrow> i < length bs"
  by (auto simp: byte_at_def split: if_splits)

lemma second_ok_byte_at: "second_ok b (byte_at bs i) \<Longrightarrow> i < length bs"
  by (auto simp: byte_at_def split: if_splits)

lemma utf8_step_valid_iff:
  "utf8_step bs = (True, n) \<longleftrightarrow>
     (let b = byte_at bs 0 in
        n = 1 \<and> b < 0x80 \<or>
        n = 2 \<and> in_range 0xC2 0xDF b \<and> is_cont (byte_at bs 1) \<or>
        n = 3 \<and> in_range 0xE0 0xEF b \<and> second_ok b (byte_at bs 1) \<and> is_cont (byte_at bs 2) \<or>
        n = 4 \<and> in_range 0xF0 0xF4 b \<and> second_ok b (byte_at bs 1) \<and> is_cont (byte_at bs 2)
          \<and> is_cont (byte_at bs 3))"
proof -
  have disj: "\<not> b < 0x80" if "in_range 0xC2 0xDF b" for b
    using that unfolding in_range_def by unat_arith
  have disj2: "\<not> in_range 0xC2 0xDF b \<and> \<not> b < 0x80" if "in_range 0xE0 0xEF b" for b
    using that unfolding in_range_def by unat_arith
  have disj3: "\<not> in_range 0xC2 0xDF b \<and> \<not> in_range 0xE0 0xEF b \<and> \<not> b < 0x80"
    if "in_range 0xF0 0xF4 b" for b
    using that unfolding in_range_def by unat_arith
  show ?thesis
    unfolding utf8_step_def Let_def
    using disj [of "byte_at bs 0"] disj2 [of "byte_at bs 0"] disj3 [of "byte_at bs 0"]
    by (simp split: if_split) blast
qed

lemma utf8_step_valid_le:
  assumes "bs \<noteq> []" "utf8_step bs = (True, n)"
  shows "n \<le> length bs"
  using assms by (auto simp: utf8_step_valid_iff Let_def neq_Nil_conv Suc_le_eq
      dest!: is_cont_byte_at)

lemma byte_at_take_append:
  "i < n \<Longrightarrow> n \<le> length bs \<Longrightarrow> byte_at (take n bs @ cs) i = byte_at bs i"
  by (simp add: byte_at_def nth_append)

lemma utf8_step_prefix:
  assumes "bs \<noteq> []" "utf8_step bs = (True, n)"
  shows "utf8_step (take n bs @ cs) = (True, n)"
proof -
  have le: "n \<le> length bs" using assms by (rule utf8_step_valid_le)
  from assms(2) le show ?thesis
    unfolding utf8_step_valid_iff Let_def by (elim disjE) (simp_all add: byte_at_take_append)
qed

lemma utf8_step_replacement: "utf8_step (replacement_char @ cs) = (True, 3)"
  by (simp add: utf8_step_def replacement_char_def byte_at_def in_range_def second_ok_def is_cont_def)

lemma valid_utf8_chunk:
  assumes "bs \<noteq> []" "utf8_step bs = (True, n)"
  shows "valid_utf8 (take n bs @ cs) \<longleftrightarrow> valid_utf8 cs"
proof -
  have le: "n \<le> length bs" using assms by (rule utf8_step_valid_le)
  have "0 < n" using utf8_step_pos [of bs] assms(2) by simp
  with assms(1) have ne: "take n bs @ cs \<noteq> []" by simp
  show ?thesis
    using valid_utf8_step [OF ne utf8_step_prefix [OF assms, of cs]] le by simp
qed

lemma valid_utf8_replacement: "valid_utf8 (replacement_char @ cs) \<longleftrightarrow> valid_utf8 cs"
proof -
  have "replacement_char @ cs \<noteq> []" by (simp add: replacement_char_def)
  from valid_utf8_step [OF this utf8_step_replacement] show ?thesis
    by (simp add: replacement_char_def)
qed

lemma valid_utf8_lossy: "valid_utf8 (from_utf8_lossy bs)"
proof (induction bs rule: length_induct)
  case (1 bs)
  obtain ok n where s: "utf8_step bs = (ok, n)" by fastforce
  show ?case
  proof (cases "bs = []")
    case False
    from s have n: "0 < n" using utf8_step_pos [of bs] by simp
    with False 1 have IH: "valid_utf8 (from_utf8_lossy (drop n bs))" by simp
    show ?thesis
      using from_utf8_lossy_step [OF False s] valid_utf8_chunk [OF False] s IH
      by (cases ok) (simp_all add: valid_utf8_replacement)
  qed simp
qed

lemma from_utf8_lossy_idem: "from_utf8_lossy (from_utf8_lossy bs) = from_utf8_lossy bs"
  by (rule from_utf8_lossy_valid) (rule valid_utf8_lossy)

lemma valid_utf8_ascii: "list_all (\<lambda>b. b < 0x80) bs \<Longrightarrow> valid_utf8 bs"
proof (induction bs)
  case (Cons b bs)
  then have "utf8_step (b # bs) = (True, 1)"
    by (simp add: utf8_step_def byte_at_def)
  with Cons show ?case by (simp add: valid_utf8_step)
qed simp

end
