(* ===== verification/Address.thy ===== *)
theory Address
  imports Codec Varint Utf8
begin

section \<open>Target addresses\<close>

text \<open>
  \<open>src/crates/hydr-core/src/address.rs\<close>. An IPv4 or IPv6 address is kept as the word its octets
  spell in network order (\<open>octets()\<close> are its big-endian bytes), a domain as a Rust string.
\<close>

datatype ip_addr = V4 u32 | V6 u128

type_synonym socket_addr = "ip_addr \<times> u16"

datatype address = Ip ip_addr u16 | Domain rstring u16

definition address_port :: "address \<Rightarrow> u16" where
  "address_port a = (case a of Ip _ p \<Rightarrow> p | Domain _ p \<Rightarrow> p)"

definition encode_address :: "bytes \<Rightarrow> address \<Rightarrow> bytes" where
  "encode_address buf a =
     (case a of
        Ip (V4 ip) port \<Rightarrow> buf @ [0x01] @ be_bytes 4 ip @ be_bytes 2 port
      | Ip (V6 ip) port \<Rightarrow> buf @ [0x02] @ be_bytes 16 ip @ be_bytes 2 port
      | Domain d port \<Rightarrow>
          encode_varint (buf @ [0x03]) (of_nat (length d)) @ d @ be_bytes 2 port)"

definition decode_address :: "bytes \<Rightarrow> (address \<times> nat) result" where
  "decode_address buf =
     and_then (get_or_eof buf 0) (\<lambda>ty.
       if ty = 0x01 then
         (if length buf < 7 then Fail UnexpectedEof
          else and_then (slice_range buf 1 5) (\<lambda>octets.
               and_then (index buf 5) (\<lambda>p0. and_then (index buf 6) (\<lambda>p1.
                 Ok (Ip (V4 (from_be octets)) (from_be [p0, p1]), 7)))))
       else if ty = 0x02 then
         (if length buf < 19 then Fail UnexpectedEof
          else and_then (slice_range buf 1 17) (\<lambda>octets.
               and_then (index buf 17) (\<lambda>p0. and_then (index buf 18) (\<lambda>p1.
                 Ok (Ip (V6 (from_be octets)) (from_be [p0, p1]), 19)))))
       else if ty = 0x03 then
         and_then (slice_from buf 1) (\<lambda>tail.
         and_then (decode_varint tail) (\<lambda>(v, used).
           let len = unat v in
           and_then (usize_add 1 used) (\<lambda>start.
           and_then (usize_add start len) (\<lambda>stop.
           and_then (usize_add stop 2) (\<lambda>need.
             if length buf < need then Fail UnexpectedEof
             else and_then (slice_range buf start stop) (\<lambda>name.
                  and_then (index buf stop) (\<lambda>p0. and_then (index buf (stop + 1)) (\<lambda>p1.
                    Ok (Domain (from_utf8_lossy name) (from_be [p0, p1]), need)))))))))
       else Fail (InvalidData (lit ''bad address type'')))"

text \<open>
  A value the Rust type can hold: a \<open>String\<close> is well-formed UTF-8, and its length fits the
  62 bits of a varint (a Rust allocation is far smaller).
\<close>

definition wf_address :: "address \<Rightarrow> bool" where
  "wf_address a = (case a of Ip _ _ \<Rightarrow> True | Domain d _ \<Rightarrow> valid_utf8 d \<and> length d < 2 ^ 62)"

lemma wf_address_simps [simp]:
  "wf_address (Ip ip p)"
  "wf_address (Domain d p) \<longleftrightarrow> valid_utf8 d \<and> length d < 2 ^ 62"
  by (simp_all add: wf_address_def)

lemma encode_address_append: "encode_address buf a = buf @ encode_address [] a"
  by (auto simp: encode_address_def encode_varint_append [of "buf @ _"] encode_varint_append [of "[_]"]
      split: address.splits ip_addr.splits)

subsection \<open>The decoder reads what the encoder wrote\<close>

lemma be_bytes_2: "be_bytes 2 p = [be_bytes 2 p ! 0, be_bytes 2 p ! 1]"
  by (simp add: numeral_eq_Suc)

lemma from_be_port: "from_be [be_bytes 2 p ! 0, be_bytes 2 p ! 1] = (p :: u16)"
  using from_be_bytes [of 2 p] be_bytes_2 [of p] by simp

lemma from_be_octets:
  "from_be (be_bytes 4 ip) = (ip :: u32)"
  "from_be (be_bytes 16 ip6) = (ip6 :: u128)"
  by (simp_all add: from_be_bytes)

lemma decode_encode_ip:
  "decode_address (encode_address [] (Ip ip p) @ rest) = Ok (Ip ip p, length (encode_address [] (Ip ip p)))"
  by (cases ip) (simp_all add: encode_address_def decode_address_def access_defs nth_append
      from_be_octets from_be_port from_be_port [unfolded One_nat_def])

lemma decode_encode_domain:
  assumes "valid_utf8 d" "length d < 2 ^ 62"
  shows "decode_address (encode_address [] (Domain d p) @ rest)
    = Ok (Domain d p, length (encode_address [] (Domain d p)))"
proof -
  let ?v = "of_nat (length d) :: u64"
  let ?h = "encode_varint [] ?v"
  have v: "unat ?v = length d" "?v < 2 ^ 62"
    using assms(2) by (simp_all add: unat_of_nat word_less_nat_alt)
  have h: "decode_varint (?h @ t) = Ok (?v, length ?h)" for t
    using decode_encode_varint_62 [OF v(2)] by (simp add: encode_varint_len_eq)
  have hl: "length ?h \<le> 8"
    using encode_varint_len_bounds(2) [of ?v] by (simp add: encode_varint_len_eq MAX_VARINT_def)
  have enc: "encode_address [] (Domain d p) = 0x03 # ?h @ d @ be_bytes 2 p"
    by (simp add: encode_address_def encode_varint_append [of "[3]"])
  show ?thesis
    using hl assms(2)
    by (simp add: enc decode_address_def h v Let_def access_defs nth_append usize_max_def
        from_utf8_lossy_valid [OF assms(1)] from_be_port from_be_port [unfolded One_nat_def])
qed

lemma decode_encode_address:
  "wf_address a \<Longrightarrow> decode_address (encode_address [] a @ rest) = Ok (a, length (encode_address [] a))"
  by (cases a) (auto simp: decode_encode_ip decode_encode_domain)

subsection \<open>The decoder on arbitrary bytes\<close>

text \<open>
  On a buffer of at most \<open>isize::MAX\<close> bytes the three additions of the domain branch stay
  below \<open>2 ^ 64\<close>, and every index the code computes is inside the buffer.
\<close>

lemma decode_domain_adds:
  assumes "decode_varint t = Ok (v, used)"
  shows "usize_add 1 used = Ok (1 + used)" "usize_add (1 + used) (unat v) = Ok (1 + used + unat v)"
    "usize_add (1 + used + unat v) 2 = Ok (1 + used + unat v + 2)"
proof -
  from decode_varint_value [OF assms] have "used \<le> 8" "v < 2 ^ 62" by auto unat_arith+
  moreover from this have "unat v < 2 ^ 62" by unat_arith
  ultimately show "usize_add 1 used = Ok (1 + used)"
    "usize_add (1 + used) (unat v) = Ok (1 + used + unat v)"
    "usize_add (1 + used + unat v) 2 = Ok (1 + used + unat v + 2)"
    by (simp_all add: usize_add_def usize_max_def)
qed

lemma decode_address_eq:
  "decode_address buf =
    (case buf of [] \<Rightarrow> Fail UnexpectedEof
     | ty # tail \<Rightarrow>
       if ty = 1 then
         (if length buf < 7 then Fail UnexpectedEof
          else Ok (Ip (V4 (from_be (take 4 tail))) (from_be [tail ! 4, tail ! 5]), 7))
       else if ty = 2 then
         (if length buf < 19 then Fail UnexpectedEof
          else Ok (Ip (V6 (from_be (take 16 tail))) (from_be [tail ! 16, tail ! 17]), 19))
       else if ty = 3 then
         and_then (decode_varint tail) (\<lambda>(v, used).
           let len = unat v in
           if length tail < used + len + 2 then Fail UnexpectedEof
           else Ok (Domain (from_utf8_lossy (take len (drop used tail)))
             (from_be [tail ! (used + len), tail ! (used + len + 1)]), used + len + 3))
       else Fail (InvalidData (lit ''bad address type'')))"
proof (cases buf)
  case Nil
  then show ?thesis by (simp add: decode_address_def get_or_eof_def)
next
  case (Cons ty tail)
  show ?thesis
  proof (cases "decode_varint tail")
    case (Inl e)
    with Cons show ?thesis by (auto simp: decode_address_def access_defs)
  next
    case (Inr p)
    then obtain v used where p: "decode_varint tail = Ok (v, used)" by (cases p) simp
    note add = decode_domain_adds [OF p]
    show ?thesis
      using Cons p add [simplified]
      by (auto simp: decode_address_def get_or_eof_def slice_from_def slice_range_def index_def Let_def)
  qed
qed

lemma decode_address_no_panic: "decode_address buf \<noteq> Crash"
  by (auto simp: decode_address_eq and_then_eq_Inl Let_def decode_varint_no_panic
      split: list.splits if_splits)

lemma decode_address_bound: "decode_address buf = Ok (a, n) \<Longrightarrow> n \<le> length buf"
  by (auto simp: decode_address_eq Let_def split: list.splits if_splits)

lemma decode_address_extend:
  assumes "decode_address b \<noteq> Fail UnexpectedEof"
  shows "decode_address (b @ c) = decode_address b"
proof (cases b)
  case Nil
  with assms show ?thesis by (simp add: decode_address_eq)
next
  case (Cons ty tail)
  show ?thesis
  proof (cases "decode_varint tail")
    case (Inl e)
    with assms Cons decode_varint_extend [of tail c] show ?thesis
      by (auto simp: decode_address_eq nth_append split: if_splits)
  next
    case (Inr p)
    then obtain v used where p: "decode_varint tail = Ok (v, used)" by (cases p) simp
    with assms Cons decode_varint_extend [of tail c] show ?thesis
      by (auto simp: decode_address_eq nth_append Let_def split: if_splits)
  qed
qed

interpretation address_codec: prefix_codec "encode_address []" decode_address wf_address
  using decode_encode_address [of _ "[]"] decode_address_no_panic decode_address_bound
    decode_address_extend
  by unfold_locales auto

text \<open>Whatever bytes arrive, a decoded domain is a well-formed Rust string.\<close>

lemma decode_address_valid_utf8: "decode_address buf = Ok (Domain d p, n) \<Longrightarrow> valid_utf8 d"
  by (auto simp: decode_address_eq Let_def valid_utf8_lossy split: list.splits if_splits)

end
