(* ===== verification/Metrics.thy ===== *)
theory Metrics
  imports Hydr_Prelude
begin

section \<open>Metrics\<close>

text \<open>
  \<open>src/crates/hydr-core/src/metrics.rs\<close>: the process-wide counters and their Prometheus text.
  The static \<open>Metrics\<close> of atomics is one record that the operations of the other components
  take and return; a relaxed \<open>fetch_add\<close> is an update of its field, which wraps at 64 bits.
\<close>

subsection \<open>Counters\<close>

record metrics =
  mt_auth_ok :: u64
  mt_auth_bad_credentials :: u64
  mt_auth_replay :: u64
  mt_auth_unsupported :: u64
  mt_auth_rate_limited :: u64
  mt_streams_opened :: u64
  mt_datagrams_rx :: u64
  mt_datagrams_tx :: u64
  mt_udp_sessions_current :: u64
  mt_udp_sessions_created :: u64
  mt_udp_sessions_rejected :: u64
  mt_ws_datagrams_dropped :: u64
  mt_obfus_replay_dropped :: u64
  mt_obfus_invalid :: u64
  mt_ws_credit_waits :: u64
  mt_cc_window_bytes :: u64

definition metrics_new :: metrics where
  "metrics_new =
     \<lparr>mt_auth_ok = 0,
      mt_auth_bad_credentials = 0,
      mt_auth_replay = 0,
      mt_auth_unsupported = 0,
      mt_auth_rate_limited = 0,
      mt_streams_opened = 0,
      mt_datagrams_rx = 0,
      mt_datagrams_tx = 0,
      mt_udp_sessions_current = 0,
      mt_udp_sessions_created = 0,
      mt_udp_sessions_rejected = 0,
      mt_ws_datagrams_dropped = 0,
      mt_obfus_replay_dropped = 0,
      mt_obfus_invalid = 0,
      mt_ws_credit_waits = 0,
      mt_cc_window_bytes = 0\<rparr>"

record metrics_snapshot =
  ms_auth_ok :: u64
  ms_auth_bad_credentials :: u64
  ms_auth_replay :: u64
  ms_auth_unsupported :: u64
  ms_auth_rate_limited :: u64
  ms_streams_opened :: u64
  ms_datagrams_rx :: u64
  ms_datagrams_tx :: u64
  ms_udp_sessions_current :: u64
  ms_udp_sessions_created :: u64
  ms_udp_sessions_rejected :: u64
  ms_ws_datagrams_dropped :: u64
  ms_obfus_replay_dropped :: u64
  ms_obfus_invalid :: u64
  ms_ws_credit_waits :: u64
  ms_cc_window_bytes :: u64

definition snapshot :: "metrics \<Rightarrow> metrics_snapshot" where
  "snapshot self =
     \<lparr>ms_auth_ok = mt_auth_ok self,
      ms_auth_bad_credentials = mt_auth_bad_credentials self,
      ms_auth_replay = mt_auth_replay self,
      ms_auth_unsupported = mt_auth_unsupported self,
      ms_auth_rate_limited = mt_auth_rate_limited self,
      ms_streams_opened = mt_streams_opened self,
      ms_datagrams_rx = mt_datagrams_rx self,
      ms_datagrams_tx = mt_datagrams_tx self,
      ms_udp_sessions_current = mt_udp_sessions_current self,
      ms_udp_sessions_created = mt_udp_sessions_created self,
      ms_udp_sessions_rejected = mt_udp_sessions_rejected self,
      ms_ws_datagrams_dropped = mt_ws_datagrams_dropped self,
      ms_obfus_replay_dropped = mt_obfus_replay_dropped self,
      ms_obfus_invalid = mt_obfus_invalid self,
      ms_ws_credit_waits = mt_ws_credit_waits self,
      ms_cc_window_bytes = mt_cc_window_bytes self\<rparr>"

subsection \<open>Prometheus text\<close>

text \<open>A line feed is the byte 10. The closures \<open>counter\<close> and \<open>gauge\<close> of the renderer.\<close>

definition counter :: "rstring \<Rightarrow> rstring \<Rightarrow> rstring \<Rightarrow> u64 \<Rightarrow> rstring" where
  "counter out name help v =
     out @ lit ''# HELP '' @ name @ lit '' '' @ help @ [10] @
     lit ''# TYPE '' @ name @ lit '' counter'' @ [10] @
     name @ lit '' '' @ show_word v @ [10]"

definition gauge :: "rstring \<Rightarrow> rstring \<Rightarrow> rstring \<Rightarrow> u64 \<Rightarrow> rstring" where
  "gauge out name help v =
     out @ lit ''# HELP '' @ name @ lit '' '' @ help @ [10] @
     lit ''# TYPE '' @ name @ lit '' gauge'' @ [10] @
     name @ lit '' '' @ show_word v @ [10]"

definition render_prometheus :: "metrics \<Rightarrow> rstring" where
  "render_prometheus self =
     (let s = snapshot self;
          out = [];
          out = counter out (lit ''hydr_auth_ok_total'')
            (lit ''Successful tunnel authentications.'') (ms_auth_ok s);
          out = counter out (lit ''hydr_auth_bad_credentials_total'')
            (lit ''Auth rejections: bad credentials.'') (ms_auth_bad_credentials s);
          out = counter out (lit ''hydr_auth_replay_total'')
            (lit ''Auth rejections: nonce replay.'') (ms_auth_replay s);
          out = counter out (lit ''hydr_auth_unsupported_total'')
            (lit ''Auth rejections: unsupported version.'') (ms_auth_unsupported s);
          out = counter out (lit ''hydr_auth_rate_limited_total'')
            (lit ''Connections rejected by auth rate limiter.'') (ms_auth_rate_limited s);
          out = counter out (lit ''hydr_streams_opened_total'')
            (lit ''Proxy streams accepted.'') (ms_streams_opened s);
          out = counter out (lit ''hydr_datagrams_rx_total'')
            (lit ''Datagrams received from tunnels.'') (ms_datagrams_rx s);
          out = counter out (lit ''hydr_datagrams_tx_total'')
            (lit ''Datagrams sent into tunnels.'') (ms_datagrams_tx s);
          out = gauge out (lit ''hydr_udp_sessions_current'')
            (lit ''Currently tracked UDP sessions.'') (ms_udp_sessions_current s);
          out = counter out (lit ''hydr_udp_sessions_created_total'')
            (lit ''UDP sessions created.'') (ms_udp_sessions_created s);
          out = counter out (lit ''hydr_udp_sessions_rejected_total'')
            (lit ''UDP sessions rejected by caps (rate limited).'') (ms_udp_sessions_rejected s);
          out = counter out (lit ''hydr_ws_datagrams_dropped_total'')
            (lit ''UDP datagrams dropped on WS outbound queue overflow.'') (ms_ws_datagrams_dropped s);
          out = counter out (lit ''hydr_obfus_replay_dropped_total'')
            (lit ''WS frames silently dropped by anti-replay filter.'') (ms_obfus_replay_dropped s);
          out = counter out (lit ''hydr_obfus_invalid_total'')
            (lit ''WS frames failed MAC/length check (connection torn down).'') (ms_obfus_invalid s);
          out = counter out (lit ''hydr_ws_credit_waits_total'')
            (lit ''Times a WS stream paused on flow-control window exhaustion.'') (ms_ws_credit_waits s);
          out = gauge out (lit ''hydr_cc_window_bytes'')
            (lit ''Last brutal congestion window in bytes.'') (ms_cc_window_bytes s)
      in out)"

subsection \<open>What a scraper reads\<close>

text \<open>
  The exposition format, read line by line: a line that starts with a hash sign is a comment,
  any other one is a name, a blank and a decimal number.
\<close>

fun text_lines :: "bytes \<Rightarrow> bytes list" where
  "text_lines [] = []"
| "text_lines (c # cs) =
     (if c = 10 then [] # text_lines cs
      else (case text_lines cs of [] \<Rightarrow> [[c]] | l # ls \<Rightarrow> (c # l) # ls))"

definition decimal :: "bytes \<Rightarrow> nat" where
  "decimal ds = foldl (\<lambda>n d. 10 * n + unat (d - 48)) 0 ds"

definition sample :: "bytes \<Rightarrow> (rstring \<times> nat) option" where
  "sample l =
     (if l = [] \<or> hd l = 35 then None
      else Some (takeWhile (\<lambda>c. c \<noteq> 32) l, decimal (tl (dropWhile (\<lambda>c. c \<noteq> 32) l))))"

definition scrape :: "bytes \<Rightarrow> (rstring \<times> nat) list" where
  "scrape t = List.map_filter sample (text_lines t)"

lemma text_lines_line: "10 \<notin> set l \<Longrightarrow> text_lines (l @ 10 # rest) = l # text_lines rest"
  by (induction l) auto

lemma scrape_line:
  "10 \<notin> set l \<Longrightarrow>
     scrape (l @ 10 # rest) = (case sample l of None \<Rightarrow> scrape rest | Some x \<Rightarrow> x # scrape rest)"
  by (simp add: scrape_def text_lines_line map_filter_simps split: option.split)

lemma show_nat_digits: "d \<in> set (show_nat n) \<Longrightarrow> d - 48 < 10"
proof (induction n rule: show_nat.induct)
  case (1 n)
  have "(of_nat m :: u8) < 10" if "m < 10" for m
    using that by (simp add: word_less_nat_alt unat_of_nat)
  with 1 show ?case by (subst (asm) show_nat.simps) (auto split: if_splits)
qed

lemma show_nat_no:
  "10 \<notin> set (show_nat n)" "32 \<notin> set (show_nat n)"
  using show_nat_digits [of 10 n] show_nat_digits [of 32 n] by auto

lemma decimal_show_nat: "decimal (show_nat n) = n"
proof (induction n rule: show_nat.induct)
  case (1 n)
  then show ?case by (subst show_nat.simps) (auto simp: decimal_def unat_of_nat)
qed

definition one_line :: "rstring \<Rightarrow> bool" where
  "one_line s \<longleftrightarrow> 10 \<notin> set s"

definition metric_name :: "rstring \<Rightarrow> bool" where
  "metric_name s \<longleftrightarrow> s \<noteq> [] \<and> hd s \<noteq> 35 \<and> 10 \<notin> set s \<and> 32 \<notin> set s"

lemma takeWhile_name: "metric_name s \<Longrightarrow> takeWhile (\<lambda>c. c \<noteq> 32) (s @ 32 # r) = s"
  unfolding metric_name_def by (subst takeWhile_append2) auto

lemma dropWhile_name: "metric_name s \<Longrightarrow> dropWhile (\<lambda>c. c \<noteq> 32) (s @ 32 # r) = 32 # r"
  unfolding metric_name_def by (subst dropWhile_append2) auto

lemma scrape_sample:
  assumes "metric_name name"
  shows "scrape (name @ lit '' '' @ show_word v @ [10] @ rest) = (name, unat v) # scrape rest"
proof -
  have s: "lit '' '' = [32]" by (simp add: lit_def)
  have "scrape ((name @ [32] @ show_word v) @ 10 # rest) = (name, unat v) # scrape rest"
    using assms
    by (subst scrape_line)
      (auto simp: sample_def takeWhile_name dropWhile_name show_word_def decimal_show_nat
        show_nat_no metric_name_def)
  then show ?thesis by (simp add: s)
qed

lemma scrape_comment:
  assumes "one_line c"
  shows "scrape (lit ''# '' @ c @ [10] @ rest) = scrape rest"
proof -
  have "scrape ((lit ''# '' @ c) @ 10 # rest) = scrape rest"
    using assms by (subst scrape_line) (auto simp: lit_def one_line_def sample_def)
  then show ?thesis by simp
qed

lemma counter_append: "counter out name help v = out @ counter [] name help v"
  by (simp add: counter_def)

lemma gauge_append: "gauge out name help v = out @ gauge [] name help v"
  by (simp add: gauge_def)

lemma lit_append: "lit (s @ t) = lit s @ lit t"
  by (simp add: lit_def)

lemma one_line_append: "one_line (s @ t) \<longleftrightarrow> one_line s \<and> one_line t"
  by (auto simp: one_line_def)

lemma metric_name_one_line: "metric_name s \<Longrightarrow> one_line s"
  by (simp add: metric_name_def one_line_def)

lemma scrape_entry:
  assumes "metric_name name" "one_line help"
    and kind: "one_line kind"
  shows "scrape (lit ''# HELP '' @ name @ lit '' '' @ help @ [10] @
     lit ''# TYPE '' @ name @ kind @ [10] @ name @ lit '' '' @ show_word v @ [10] @ rest)
     = (name, unat v) # scrape rest"
proof -
  have HELP: "lit ''# HELP '' = lit ''# '' @ lit ''HELP ''"
    and TYPE: "lit ''# TYPE '' = lit ''# '' @ lit ''TYPE ''"
    by (simp_all add: lit_def)
  have "one_line (lit ''HELP '')" "one_line (lit '' '')" "one_line (lit ''TYPE '')"
    by (simp_all add: one_line_def lit_def)
  then have "one_line (lit ''HELP '' @ name @ lit '' '' @ help)" "one_line (lit ''TYPE '' @ name @ kind)"
    using assms metric_name_one_line by (simp_all add: one_line_append)
  note comments = this [THEN scrape_comment, unfolded append_assoc]
  show ?thesis
    unfolding HELP TYPE append_assoc by (simp only: comments scrape_sample [OF assms(1)])
qed

lemma scrape_counter:
  assumes "metric_name name" "one_line help"
  shows "scrape (counter [] name help v @ rest) = (name, unat v) # scrape rest"
  using scrape_entry [OF assms, of "lit '' counter''" v rest]
  by (simp add: counter_def) (simp add: one_line_def lit_def)

lemma scrape_gauge:
  assumes "metric_name name" "one_line help"
  shows "scrape (gauge [] name help v @ rest) = (name, unat v) # scrape rest"
  using scrape_entry [OF assms, of "lit '' gauge''" v rest]
  by (simp add: gauge_def) (simp add: one_line_def lit_def)

lemma scrape_Nil: "scrape [] = []"
  by (simp add: scrape_def map_filter_simps)

lemma metric_names:
  "metric_name (lit ''hydr_auth_ok_total'')"
  "metric_name (lit ''hydr_auth_bad_credentials_total'')"
  "metric_name (lit ''hydr_auth_replay_total'')"
  "metric_name (lit ''hydr_auth_unsupported_total'')"
  "metric_name (lit ''hydr_auth_rate_limited_total'')"
  "metric_name (lit ''hydr_streams_opened_total'')"
  "metric_name (lit ''hydr_datagrams_rx_total'')"
  "metric_name (lit ''hydr_datagrams_tx_total'')"
  "metric_name (lit ''hydr_udp_sessions_current'')"
  "metric_name (lit ''hydr_udp_sessions_created_total'')"
  "metric_name (lit ''hydr_udp_sessions_rejected_total'')"
  "metric_name (lit ''hydr_ws_datagrams_dropped_total'')"
  "metric_name (lit ''hydr_obfus_replay_dropped_total'')"
  "metric_name (lit ''hydr_obfus_invalid_total'')"
  "metric_name (lit ''hydr_ws_credit_waits_total'')"
  "metric_name (lit ''hydr_cc_window_bytes'')"
  by (simp_all add: metric_name_def lit_def)

lemma helps:
  "one_line (lit ''Successful tunnel authentications.'')"
  "one_line (lit ''Auth rejections: bad credentials.'')"
  "one_line (lit ''Auth rejections: nonce replay.'')"
  "one_line (lit ''Auth rejections: unsupported version.'')"
  "one_line (lit ''Connections rejected by auth rate limiter.'')"
  "one_line (lit ''Proxy streams accepted.'')"
  "one_line (lit ''Datagrams received from tunnels.'')"
  "one_line (lit ''Datagrams sent into tunnels.'')"
  "one_line (lit ''Currently tracked UDP sessions.'')"
  "one_line (lit ''UDP sessions created.'')"
  "one_line (lit ''UDP sessions rejected by caps (rate limited).'')"
  "one_line (lit ''UDP datagrams dropped on WS outbound queue overflow.'')"
  "one_line (lit ''WS frames silently dropped by anti-replay filter.'')"
  "one_line (lit ''WS frames failed MAC/length check (connection torn down).'')"
  "one_line (lit ''Times a WS stream paused on flow-control window exhaustion.'')"
  "one_line (lit ''Last brutal congestion window in bytes.'')"
  by (simp_all add: one_line_def lit_def)

subsection \<open>Properties\<close>

text \<open>
  The rendered text reads back, line by line, as exactly the sixteen values of the counters
  under their documented names, in this order: no name, help text or digit breaks a line.
\<close>

theorem render_prometheus_scrapes:
  "scrape (render_prometheus m) =
    [(lit ''hydr_auth_ok_total'', unat (mt_auth_ok m)),
     (lit ''hydr_auth_bad_credentials_total'', unat (mt_auth_bad_credentials m)),
     (lit ''hydr_auth_replay_total'', unat (mt_auth_replay m)),
     (lit ''hydr_auth_unsupported_total'', unat (mt_auth_unsupported m)),
     (lit ''hydr_auth_rate_limited_total'', unat (mt_auth_rate_limited m)),
     (lit ''hydr_streams_opened_total'', unat (mt_streams_opened m)),
     (lit ''hydr_datagrams_rx_total'', unat (mt_datagrams_rx m)),
     (lit ''hydr_datagrams_tx_total'', unat (mt_datagrams_tx m)),
     (lit ''hydr_udp_sessions_current'', unat (mt_udp_sessions_current m)),
     (lit ''hydr_udp_sessions_created_total'', unat (mt_udp_sessions_created m)),
     (lit ''hydr_udp_sessions_rejected_total'', unat (mt_udp_sessions_rejected m)),
     (lit ''hydr_ws_datagrams_dropped_total'', unat (mt_ws_datagrams_dropped m)),
     (lit ''hydr_obfus_replay_dropped_total'', unat (mt_obfus_replay_dropped m)),
     (lit ''hydr_obfus_invalid_total'', unat (mt_obfus_invalid m)),
     (lit ''hydr_ws_credit_waits_total'', unat (mt_ws_credit_waits m)),
     (lit ''hydr_cc_window_bytes'', unat (mt_cc_window_bytes m))]"
proof -
  note appends = counter_append [of "_ @ _"] counter_append [of "counter _ _ _ _"]
    counter_append [of "gauge _ _ _ _"] gauge_append [of "_ @ _"] gauge_append [of "counter _ _ _ _"]
  show ?thesis
    unfolding render_prometheus_def Let_def snapshot_def metrics_snapshot.select_convs appends
      append_assoc
    by (simp only: scrape_counter scrape_gauge scrape_counter [where rest = "[]", simplified]
        scrape_gauge [where rest = "[]", simplified] scrape_Nil metric_names helps)
qed

subsection \<open>The endpoint\<close>

text \<open>
  \<open>serve\<close> of \<open>src/crates/hydr-server/src/metrics_endpoint.rs\<close>: what a connection is answered with,
  whatever it sent, and a client that reads the headers and as many bytes as they announce.
\<close>

definition CRLF :: bytes where "CRLF = [13, 10]"

definition metrics_response :: "metrics \<Rightarrow> bytes \<Rightarrow> bytes" where
  "metrics_response m request =
     (let body = render_prometheus m;
          head = lit ''HTTP/1.1 200 OK'' @ CRLF @
                 lit ''content-type: text/plain; version=0.0.4'' @ CRLF @
                 lit ''content-length: '' @ show_nat (length body) @ CRLF @
                 lit ''connection: close'' @ CRLF @ CRLF
      in head @ body)"

function read_headers :: "bytes \<Rightarrow> bytes list \<times> bytes" where
  "read_headers bs =
     (let l = takeWhile (\<lambda>c. c \<noteq> 13) bs; rest = drop (length l + 2) bs
      in if l = [] then ([], rest) else (let (ls, body) = read_headers rest in (l # ls, body)))"
  by auto
termination
  by (relation "measure length") (auto simp: takeWhile_eq_Nil_iff)

declare read_headers.simps [simp del]

definition content_length :: "bytes list \<Rightarrow> nat option" where
  "content_length ls =
     (let name = lit ''content-length: '' in
      map_option (\<lambda>l. decimal (drop (length name) l)) (find (\<lambda>l. take (length name) l = name) ls))"

definition http_body :: "bytes \<Rightarrow> bytes option" where
  "http_body bs = (let (ls, rest) = read_headers bs in map_option (\<lambda>n. take n rest) (content_length ls))"

lemma takeWhile_line: "13 \<notin> set l \<Longrightarrow> takeWhile (\<lambda>c. c \<noteq> 13) (l @ 13 # rest) = l"
  by (subst takeWhile_append2) auto

lemma lit_Cons_not_Nil: "lit (c # s) \<noteq> []"
  by (simp add: lit_def)

lemma read_headers_line:
  "13 \<notin> set l \<Longrightarrow> l \<noteq> [] \<Longrightarrow>
     read_headers (l @ CRLF @ rest) = (l # fst (read_headers rest), snd (read_headers rest))"
  by (subst read_headers.simps) (simp add: CRLF_def takeWhile_line Let_def split_beta)

lemma read_headers_end: "read_headers (CRLF @ rest) = ([], rest)"
  by (subst read_headers.simps) (simp add: CRLF_def Let_def)

lemma show_nat_no_CR: "13 \<notin> set (show_nat n)"
  using show_nat_digits [of 13 n] by auto

text \<open>A client that trusts the announced length gets the whole page and nothing more.\<close>

lemma metrics_response_body: "http_body (metrics_response m request) = Some (render_prometheus m)"
proof -
  let ?body = "render_prometheus m"
  let ?len = "lit ''content-length: '' @ show_nat (length ?body)"
  have no_CR: "13 \<notin> set (lit ''HTTP/1.1 200 OK'')"
    "13 \<notin> set (lit ''content-type: text/plain; version=0.0.4'')" "13 \<notin> set ?len"
    "13 \<notin> set (lit ''connection: close'')"
    using show_nat_no_CR by (simp_all add: lit_def)
  have "read_headers (metrics_response m request) =
      ([lit ''HTTP/1.1 200 OK'', lit ''content-type: text/plain; version=0.0.4'', ?len, lit ''connection: close''], ?body)"
    using read_headers_line [OF no_CR(1)] read_headers_line [OF no_CR(2)] read_headers_line [OF no_CR(3)]
      read_headers_line [OF no_CR(4)]
    by (simp add: metrics_response_def Let_def read_headers_end lit_Cons_not_Nil)
  moreover have "content_length
      [lit ''HTTP/1.1 200 OK'', lit ''content-type: text/plain; version=0.0.4'', ?len, lit ''connection: close''] =
      Some (length ?body)"
    by (simp add: content_length_def) (simp add: lit_def decimal_show_nat)
  ultimately show ?thesis by (simp add: http_body_def)
qed

end
