(* ===== verification/Address_Text.thy ===== *)
theory Address_Text
  imports Address Metrics
begin

section \<open>Addresses as text\<close>

text \<open>
  \<open>hostname\<close> and \<open>Display\<close> of \<open>src/crates/hydr-core/src/address.rs\<close>, with the formatters of the
  standard library they lean on: dotted decimal for IPv4; for IPv6 groups of hexadecimal digits with
  the first longest run of at least two zero groups left out, and mapped IPv4 addresses in dotted
  form.
\<close>

subsection \<open>IPv4\<close>

definition DOT :: u8 where "DOT = 0x2E"
definition COL :: u8 where "COL = 0x3A"

fun join :: "bytes \<Rightarrow> bytes list \<Rightarrow> bytes" where
  "join sep [] = []"
| "join sep [x] = x"
| "join sep (x # y # xs) = x @ sep @ join sep (y # xs)"

definition show_ipv4 :: "u32 \<Rightarrow> rstring" where
  "show_ipv4 ip = join [DOT] (map show_word (be_bytes 4 ip))"

subsection \<open>IPv6\<close>

definition hex_char :: "nat \<Rightarrow> u8" where
  "hex_char d = (if d < 10 then of_nat (48 + d) else of_nat (87 + d))"

text \<open>\<open>{:x}\<close> of a segment.\<close>

fun show_hex :: "nat \<Rightarrow> rstring" where
  "show_hex n = (if n < 16 then [hex_char n] else show_hex (n div 16) @ [hex_char (n mod 16)])"

declare show_hex.simps [simp del]

definition segments :: "u128 \<Rightarrow> nat list" where
  "segments ip = map (\<lambda>i. unat (drop_bit (112 - 16 * i) ip) mod 2 ^ 16) [0..<8]"

text \<open>
  The scan for the longest run of zero segments: \<open>(start, length)\<close> of the current and of the longest
  run so far.
\<close>

fun zero_run :: "nat \<Rightarrow> nat \<times> nat \<Rightarrow> nat \<times> nat \<Rightarrow> nat list \<Rightarrow> nat \<times> nat" where
  "zero_run i cur longest [] = longest"
| "zero_run i (start, len) longest (s # ss) =
     (if s = 0 then
        let start = (if len = 0 then i else start); len = len + 1
        in zero_run (i + 1) (start, len) (if len > snd longest then (start, len) else longest) ss
      else zero_run (i + 1) (0, 0) longest ss)"

definition show_segments :: "nat list \<Rightarrow> rstring" where
  "show_segments ss = join [COL] (map show_hex ss)"

definition show_ipv6 :: "u128 \<Rightarrow> rstring" where
  "show_ipv6 ip =
     (let ss = segments ip in
      if take 6 ss = [0, 0, 0, 0, 0, 0xFFFF]
      then lit ''::ffff:'' @ show_ipv4 (ucast ip)
      else
        let (start, len) = zero_run 0 (0, 0) (0, 0) ss
        in if len > 1
           then show_segments (take start ss) @ [COL, COL] @ show_segments (drop (start + len) ss)
           else show_segments ss)"

fun show_ip :: "ip_addr \<Rightarrow> rstring" where
  "show_ip (V4 ip) = show_ipv4 ip"
| "show_ip (V6 ip) = show_ipv6 ip"

subsection \<open>\<open>hostname\<close> and \<open>Display\<close>\<close>

definition hostname :: "address \<Rightarrow> rstring" where
  "hostname a = (case a of Ip ip _ \<Rightarrow> show_ip ip | Domain d _ \<Rightarrow> d)"

definition address_to_string :: "address \<Rightarrow> rstring" where
  "address_to_string a =
     (case a of
        Ip ip p \<Rightarrow> show_ip ip @ [COL] @ show_word p
      | Domain d p \<Rightarrow> d @ [COL] @ show_word p)"

subsection \<open>Reading it back\<close>

lemma show_nat_inject: "show_nat m = show_nat n \<longleftrightarrow> m = n"
  using decimal_show_nat by metis

lemma show_word_inject: "show_word v = show_word (w :: 'a::len word) \<longleftrightarrow> v = w"
  by (auto simp: show_word_def show_nat_inject intro: unsigned_word_eqI)

lemma show_word_no: "DOT \<notin> set (show_word w)" "COL \<notin> set (show_word w)"
  using show_nat_digits [of DOT "unat w"] show_nat_digits [of COL "unat w"]
  by (auto simp: show_word_def DOT_def COL_def)

lemma sep_inject:
  assumes "c \<notin> set xs" "c \<notin> set xs'"
  shows "xs @ c # ys = xs' @ c # ys' \<longleftrightarrow> xs = xs' \<and> ys = ys'"
  using assms
proof (induction xs arbitrary: xs')
  case Nil
  then show ?case by (cases xs') auto
next
  case (Cons x xs)
  then show ?case by (cases xs') auto
qed

lemma show_ipv4_inject: "show_ipv4 a = show_ipv4 b \<longleftrightarrow> a = b"
proof
  assume eq: "show_ipv4 a = show_ipv4 b"
  have four: "\<exists>p q r s. be_bytes 4 (x :: u32) = [p, q, r, s]" for x
    by (simp add: eval_nat_numeral)
  from eq four [of a] four [of b] have "be_bytes 4 a = be_bytes 4 b"
    by (auto simp: show_ipv4_def sep_inject show_word_no show_word_inject)
  then have "(from_be (be_bytes 4 a) :: u32) = from_be (be_bytes 4 b)" by simp
  then show "a = b" by (simp add: from_be_bytes)
qed simp

text \<open>The text of an address with a domain or an IPv4 address determines it, given which it is.\<close>

lemma port_inject:
  "h @ [COL] @ show_word p = h' @ [COL] @ show_word q \<longleftrightarrow> h = h' \<and> p = (q :: u16)"
proof
  assume "h @ [COL] @ show_word p = h' @ [COL] @ show_word q"
  then have "rev (show_word p) @ COL # rev h = rev (show_word q) @ COL # rev h'"
    by (metis append_Cons append_Nil append_assoc rev.simps(2) rev_append rev_rev_ident)
  then show "h = h' \<and> p = q"
    using show_word_no(2) [of p] show_word_no(2) [of q] by (simp add: sep_inject show_word_inject)
qed simp

lemma address_to_string_inject:
  "address_to_string (Ip (V4 a) p) = address_to_string (Ip (V4 b) q) \<longleftrightarrow> a = b \<and> p = q"
  "address_to_string (Domain d p) = address_to_string (Domain e q) \<longleftrightarrow> d = e \<and> p = q"
  by (simp_all only: address_to_string_def address.case show_ip.simps port_inject show_ipv4_inject)

text \<open>Of several runs of zero segments the first longest one is left out.\<close>

lemma zero_run_samples:
  "zero_run 0 (0, 0) (0, 0) [0x2001, 0xDB8, 0, 0, 1, 0, 0, 1] = (2, 2)"
  "zero_run 0 (0, 0) (0, 0) [0, 0, 1, 0, 0, 0, 1, 2] = (3, 3)"
  by simp_all

lemma show_segments_sample: "show_segments [0x2001, 0xDB8, 1] = lit ''2001:db8:1''"
  by (simp add: show_segments_def show_hex.simps hex_char_def lit_def COL_def)

end
