(* ===== verification/Wire_Reader.thy ===== *)
theory Wire_Reader
  imports Varint
begin

section \<open>The message reader\<close>

text \<open>
  \<open>Reader\<close> of \<open>src/crates/hydr-core/src/message.rs\<close>: a cursor over a received buffer. Every
  decoder of that file is a sequence of \<open>let x = rd.field()?\<close>, modelled by \<open>read_then\<close>. Two
  predicates on steps compose along such a sequence: \<open>reads f x bs\<close> (the step reads the value
  \<open>x\<close> off its encoding \<open>bs\<close>, wherever that stands) and \<open>well_behaved f\<close> (it never panics and
  stays inside the buffer). Together they make the decoder a \<open>prefix_codec\<close>. A failed step
  ends the decoder, so the cursor position after a failure is not modelled.
\<close>

subsection \<open>\<open>Reader\<close>\<close>

record reader =
  rd_buf :: bytes
  rd_pos :: nat

definition reader_new :: "bytes \<Rightarrow> reader" where
  "reader_new buf = \<lparr>rd_buf = buf, rd_pos = 0\<rparr>"

type_synonym 'a reading = "reader \<Rightarrow> ('a \<times> reader) result"

definition reader_u8 :: "u8 reading" where
  "reader_u8 rd =
     and_then (get_or_eof (rd_buf rd) (rd_pos rd)) (\<lambda>b.
     and_then (usize_add (rd_pos rd) 1) (\<lambda>pos.
       Ok (b, rd\<lparr>rd_pos := pos\<rparr>)))"

definition reader_varint :: "u64 reading" where
  "reader_varint rd =
     and_then (slice_from (rd_buf rd) (rd_pos rd)) (\<lambda>tail.
     and_then (decode_varint tail) (\<lambda>(v, used).
     and_then (usize_add (rd_pos rd) used) (\<lambda>pos.
       Ok (v, rd\<lparr>rd_pos := pos\<rparr>))))"

definition reader_bytes :: "bytes reading" where
  "reader_bytes rd =
     and_then (reader_varint rd) (\<lambda>(v, rd).
       let len = unat v in
       and_then (usize_add (rd_pos rd) len) (\<lambda>end.
         if length (rd_buf rd) < end then Fail UnexpectedEof
         else and_then (slice_range (rd_buf rd) (rd_pos rd) end) (\<lambda>out.
           Ok (out, rd\<lparr>rd_pos := end\<rparr>))))"

definition reader_remaining :: "reader \<Rightarrow> bytes result" where
  "reader_remaining rd = slice_from (rd_buf rd) (rd_pos rd)"

text \<open>\<open>let x = rd.f()?;\<close> followed by the rest of the function.\<close>

definition read_then :: "'a reading \<Rightarrow> ('a \<Rightarrow> 'b reading) \<Rightarrow> 'b reading" where
  "read_then f g rd = and_then (f rd) (\<lambda>(x, rd'). g x rd')"

definition read_return :: "'a \<Rightarrow> 'a reading" where
  "read_return x rd = Ok (x, rd)"

text \<open>A decoder: run the steps on a fresh reader and return \<open>(value, rd.pos)\<close>.\<close>

definition run_reader :: "'a reading \<Rightarrow> bytes \<Rightarrow> ('a \<times> nat) result" where
  "run_reader f buf = and_then (f (reader_new buf)) (\<lambda>(x, rd). Ok (x, rd_pos rd))"

subsection \<open>Steps that read what was written\<close>

definition reads :: "'a reading \<Rightarrow> 'a \<Rightarrow> bytes \<Rightarrow> bool" where
  "reads f x bs \<longleftrightarrow>
     (\<forall>pre rest. length (pre @ bs @ rest) \<le> isize_max \<longrightarrow>
        f \<lparr>rd_buf = pre @ bs @ rest, rd_pos = length pre\<rparr>
          = Ok (x, \<lparr>rd_buf = pre @ bs @ rest, rd_pos = length (pre @ bs)\<rparr>))"

lemma readsD:
  "reads f x bs \<Longrightarrow> length (pre @ bs @ rest) \<le> isize_max \<Longrightarrow>
     f \<lparr>rd_buf = pre @ bs @ rest, rd_pos = length pre\<rparr>
       = Ok (x, \<lparr>rd_buf = pre @ bs @ rest, rd_pos = length (pre @ bs)\<rparr>)"
  unfolding reads_def by blast

lemma reads_return: "reads (read_return x) x []"
  by (simp add: reads_def read_return_def)

lemma reads_then:
  assumes f: "reads f x as" and g: "reads (g x) y bs"
  shows "reads (read_then f g) y (as @ bs)"
  unfolding reads_def
proof (intro allI impI)
  fix pre rest :: bytes
  assume len: "length (pre @ (as @ bs) @ rest) \<le> isize_max"
  have "f \<lparr>rd_buf = pre @ (as @ bs) @ rest, rd_pos = length pre\<rparr>
     = Ok (x, \<lparr>rd_buf = (pre @ as) @ bs @ rest, rd_pos = length (pre @ as)\<rparr>)"
    using readsD [OF f, of pre "bs @ rest"] len by simp
  moreover have "g x \<lparr>rd_buf = (pre @ as) @ bs @ rest, rd_pos = length (pre @ as)\<rparr>
     = Ok (y, \<lparr>rd_buf = (pre @ as) @ bs @ rest, rd_pos = length ((pre @ as) @ bs)\<rparr>)"
    using readsD [OF g, of "pre @ as" rest] len by simp
  ultimately show "read_then f g \<lparr>rd_buf = pre @ (as @ bs) @ rest, rd_pos = length pre\<rparr>
     = Ok (y, \<lparr>rd_buf = pre @ (as @ bs) @ rest, rd_pos = length (pre @ as @ bs)\<rparr>)"
    by (simp add: read_then_def)
qed

lemma reads_u8: "reads reader_u8 b [b]"
  by (auto simp: reads_def reader_u8_def access_defs nth_append usize_max_def isize_max_def)

subsection \<open>Steps that stay inside the buffer\<close>

definition grow :: "bytes \<Rightarrow> reader \<Rightarrow> reader" where
  "grow c rd = rd\<lparr>rd_buf := rd_buf rd @ c\<rparr>"

definition in_bounds :: "reader \<Rightarrow> bool" where
  "in_bounds rd \<longleftrightarrow> rd_pos rd \<le> length (rd_buf rd) \<and> length (rd_buf rd) \<le> isize_max"

text \<open>
  A well-behaved step never panics, only moves forward inside its buffer, and, unless it ran
  into the end of the buffer, does not notice bytes appended to it.
\<close>

definition well_behaved :: "'a reading \<Rightarrow> bool" where
  "well_behaved f \<longleftrightarrow>
     (\<forall>rd. in_bounds rd \<longrightarrow>
        f rd \<noteq> Crash \<and>
        (\<forall>x rd'. f rd = Ok (x, rd') \<longrightarrow>
           in_bounds rd' \<and> rd_buf rd' = rd_buf rd \<and> rd_pos rd \<le> rd_pos rd') \<and>
        (\<forall>c. in_bounds (grow c rd) \<longrightarrow> f rd \<noteq> Fail UnexpectedEof \<longrightarrow>
           f (grow c rd) = map_sum id (apsnd (grow c)) (f rd)))"

lemma well_behavedD:
  assumes "well_behaved f" "in_bounds rd"
  shows "f rd \<noteq> Crash"
    and "f rd = Ok (x, rd') \<Longrightarrow> in_bounds rd' \<and> rd_buf rd' = rd_buf rd \<and> rd_pos rd \<le> rd_pos rd'"
    and "in_bounds (grow c rd) \<Longrightarrow> f rd \<noteq> Fail UnexpectedEof \<Longrightarrow>
           f (grow c rd) = map_sum id (apsnd (grow c)) (f rd)"
  using assms unfolding well_behaved_def by blast+

lemma well_behaved_return: "well_behaved (read_return x)"
  by (simp add: well_behaved_def read_return_def)

lemma well_behaved_then_value:
  assumes f: "well_behaved f"
    and g: "\<And>rd x rd'. in_bounds rd \<Longrightarrow> f rd = Ok (x, rd') \<Longrightarrow> well_behaved (g x)"
  shows "well_behaved (read_then f g)"
  unfolding well_behaved_def
proof (intro allI impI conjI)
  fix rd
  assume ib: "in_bounds rd"
  note fD = well_behavedD [OF f ib]
  show "read_then f g rd \<noteq> Crash"
  proof (cases "f rd")
    case (Inl e)
    with fD(1) show ?thesis by (simp add: read_then_def)
  next
    case (Inr p)
    then obtain x rd' where p: "f rd = Ok (x, rd')" by (cases p) simp
    with fD(2) have "in_bounds rd'" by blast
    from well_behavedD(1) [OF g [OF ib p] this] p show ?thesis by (simp add: read_then_def)
  qed
  show "in_bounds rd''" "rd_buf rd'' = rd_buf rd" "rd_pos rd \<le> rd_pos rd''"
    if eq: "read_then f g rd = Ok (y, rd'')" for y rd''
  proof -
    from eq obtain x rd' where x: "f rd = Ok (x, rd')" "g x rd' = Ok (y, rd'')"
      by (auto simp: read_then_def)
    from fD(2) [OF x(1)] well_behavedD(2) [OF g [OF ib x(1)], of rd' y rd''] x(2)
    show "in_bounds rd''" "rd_buf rd'' = rd_buf rd" "rd_pos rd \<le> rd_pos rd''" by auto
  qed
  show "read_then f g (grow c rd) = map_sum id (apsnd (grow c)) (read_then f g rd)"
    if ibc: "in_bounds (grow c rd)" and ne: "read_then f g rd \<noteq> Fail UnexpectedEof" for c
  proof (cases "f rd")
    case (Inl e)
    with ne have "f rd \<noteq> Fail UnexpectedEof" by (simp add: read_then_def)
    with fD(3) [OF ibc] Inl show ?thesis by (simp add: read_then_def)
  next
    case (Inr p)
    obtain x rd' where p: "f rd = Ok (x, rd')" using Inr by (cases p) simp
    with fD(2) have ib': "in_bounds rd'" and buf: "rd_buf rd' = rd_buf rd" by blast+
    with ibc have ibc': "in_bounds (grow c rd')" by (simp add: in_bounds_def grow_def)
    from ne p have "g x rd' \<noteq> Fail UnexpectedEof" by (simp add: read_then_def)
    with well_behavedD(3) [OF g [OF ib p] ib' ibc'] fD(3) [OF ibc] p show ?thesis
      by (simp add: read_then_def)
  qed
qed

lemma well_behaved_then:
  "well_behaved f \<Longrightarrow> (\<And>x. well_behaved (g x)) \<Longrightarrow> well_behaved (read_then f g)"
  by (rule well_behaved_then_value)

lemma grow_simps [simp]:
  "rd_buf (grow c rd) = rd_buf rd @ c"
  "rd_pos (grow c rd) = rd_pos rd"
  "grow c (rd\<lparr>rd_pos := p\<rparr>) = (grow c rd)\<lparr>rd_pos := p\<rparr>"
  by (simp_all add: grow_def)

lemma well_behaved_u8: "well_behaved reader_u8"
  by (auto simp: well_behaved_def in_bounds_def reader_u8_def access_defs nth_append
      isize_max_def usize_max_def)

lemma in_bounds_grow: "in_bounds rd \<Longrightarrow> in_bounds (grow c rd) \<longleftrightarrow> length (rd_buf rd) + length c \<le> isize_max"
  by (auto simp: in_bounds_def)

lemma well_behaved_varint: "well_behaved reader_varint"
  unfolding well_behaved_def
proof (intro allI impI)
  fix rd
  assume ib: "in_bounds rd"
  let ?tail = "drop (rd_pos rd) (rd_buf rd)"
  from ib have pos: "rd_pos rd \<le> length (rd_buf rd)" and len: "length (rd_buf rd) \<le> isize_max"
    by (simp_all add: in_bounds_def)
  have add: "usize_add (rd_pos rd) used = Ok (rd_pos rd + used)"
    if "decode_varint t = Ok (v, used)" for t v used
    using decode_varint_value [OF that] pos len
    by (auto simp: usize_add_def usize_max_def isize_max_def)
  have eq: "reader_varint rd =
    and_then (decode_varint ?tail) (\<lambda>(v, used). Ok (v, rd\<lparr>rd_pos := rd_pos rd + used\<rparr>))"
    using pos by (cases "decode_varint ?tail")
      (auto simp: reader_varint_def slice_from_def dest: add)
  have eqc: "reader_varint (grow c rd) =
    and_then (decode_varint (?tail @ c)) (\<lambda>(v, used). Ok (v, (grow c rd)\<lparr>rd_pos := rd_pos rd + used\<rparr>))" for c
    using pos by (cases "decode_varint (?tail @ c)")
      (auto simp: reader_varint_def slice_from_def dest: add)
  show "reader_varint rd \<noteq> Crash \<and>
    (\<forall>x rd'. reader_varint rd = Ok (x, rd') \<longrightarrow>
       in_bounds rd' \<and> rd_buf rd' = rd_buf rd \<and> rd_pos rd \<le> rd_pos rd') \<and>
    (\<forall>c. in_bounds (grow c rd) \<longrightarrow> reader_varint rd \<noteq> Fail UnexpectedEof \<longrightarrow>
       reader_varint (grow c rd) = map_sum id (apsnd (grow c)) (reader_varint rd))"
  proof (cases "decode_varint ?tail")
    case (Inl e)
    with decode_varint_no_panic [of ?tail] have "e \<noteq> Panic" by auto
    with Inl show ?thesis
      by (auto simp: eq eqc decode_varint_extend)
  next
    case (Inr p)
    then obtain v n where p: "decode_varint ?tail = Ok (v, n)" by (cases p) simp
    with decode_varint_value [OF p] pos len show ?thesis
      by (auto simp: eq eqc decode_varint_extend in_bounds_def)
  qed
qed

lemma reads_varint: "v < 2 ^ 62 \<Longrightarrow> reads reader_varint v (encode_varint [] v)"
  unfolding reads_def
proof (intro allI impI)
  fix pre rest
  assume v: "v < 2 ^ 62" and len: "length (pre @ encode_varint [] v @ rest) \<le> isize_max"
  then have "usize_add (length pre) (length (encode_varint [] v)) = Ok (length pre + length (encode_varint [] v))"
    by (simp add: usize_add_def isize_max_def usize_max_def)
  with v show "reader_varint \<lparr>rd_buf = pre @ encode_varint [] v @ rest, rd_pos = length pre\<rparr> =
     Ok (v, \<lparr>rd_buf = pre @ encode_varint [] v @ rest, rd_pos = length (pre @ encode_varint [] v)\<rparr>)"
    using decode_encode_varint_62 [OF v, of rest]
    by (simp add: reader_varint_def slice_from_def encode_varint_len_eq)
qed

text \<open>The second half of \<open>Reader::bytes\<close>, once the length is known.\<close>

definition take_bytes :: "u64 \<Rightarrow> bytes reading" where
  "take_bytes v rd =
     and_then (usize_add (rd_pos rd) (unat v)) (\<lambda>end.
       if length (rd_buf rd) < end then Fail UnexpectedEof
       else and_then (slice_range (rd_buf rd) (rd_pos rd) end) (\<lambda>out.
         Ok (out, rd\<lparr>rd_pos := end\<rparr>)))"

lemma reader_bytes_eq: "reader_bytes = read_then reader_varint take_bytes"
  by (rule ext) (simp add: reader_bytes_def read_then_def take_bytes_def Let_def)

text \<open>
  The addition \<open>self.pos + len\<close> cannot overflow: the position is at most \<open>isize::MAX\<close> and a
  varint is below \<open>2 ^ 62\<close>.
\<close>

lemma usize_add_varint:
  "in_bounds rd \<Longrightarrow> v < 2 ^ 62 \<Longrightarrow> usize_add (rd_pos rd) (unat (v :: u64)) = Ok (rd_pos rd + unat v)"
proof -
  assume "in_bounds rd" and v: "v < 2 ^ 62"
  moreover from v have "unat v < 2 ^ 62" by unat_arith
  ultimately show ?thesis by (auto simp: in_bounds_def usize_add_def isize_max_def usize_max_def)
qed

lemma well_behaved_take_bytes: "v < 2 ^ 62 \<Longrightarrow> well_behaved (take_bytes v)"
  by (auto simp: well_behaved_def take_bytes_def usize_add_varint slice_range_def in_bounds_def)

lemma reader_varint_value:
  "in_bounds rd \<Longrightarrow> reader_varint rd = Ok (v, rd') \<Longrightarrow> v < 2 ^ 62"
proof -
  assume "in_bounds rd" "reader_varint rd = Ok (v, rd')"
  then obtain n where "decode_varint (drop (rd_pos rd) (rd_buf rd)) = Ok (v, n)"
    by (auto simp: reader_varint_def in_bounds_def slice_from_def)
  from decode_varint_value [OF this] show ?thesis by auto unat_arith+
qed

lemma well_behaved_bytes: "well_behaved reader_bytes"
  unfolding reader_bytes_eq
  by (intro well_behaved_then_value well_behaved_varint well_behaved_take_bytes)
    (rule reader_varint_value)

lemma unat_of_nat_length: "length bs < 2 ^ 62 \<Longrightarrow> unat (of_nat (length bs) :: u64) = length bs"
  by (simp add: unat_of_nat)

lemma of_nat_length_less: "length bs < 2 ^ 62 \<Longrightarrow> (of_nat (length bs) :: u64) < 2 ^ 62"
  by (simp add: word_less_nat_alt unat_of_nat)

lemma reads_take_bytes: "length bs < 2 ^ 62 \<Longrightarrow> reads (take_bytes (of_nat (length bs))) bs bs"
  by (auto simp: reads_def take_bytes_def unat_of_nat_length usize_add_def slice_range_def
      isize_max_def usize_max_def)

text \<open>A length-prefixed field.\<close>

definition encode_bytes :: "bytes \<Rightarrow> bytes" where
  "encode_bytes bs = encode_varint [] (of_nat (length bs)) @ bs"

lemma encode_varint_bytes: "encode_varint buf (of_nat (length bs)) @ bs = buf @ encode_bytes bs"
  unfolding encode_bytes_def encode_varint_append [of buf] by (rule append_assoc)

lemma reads_bytes: "length bs < 2 ^ 62 \<Longrightarrow> reads reader_bytes bs (encode_bytes bs)"
  unfolding reader_bytes_eq encode_bytes_def
  by (rule reads_then [where g = take_bytes])
    (rule reads_varint, erule of_nat_length_less, erule reads_take_bytes)

subsection \<open>A sequence of such steps is a codec\<close>

lemma run_reader_codec:
  assumes f: "well_behaved f" and enc: "\<And>x. valid x \<Longrightarrow> reads f x (encode x)"
  shows "prefix_codec encode (run_reader f) valid"
proof unfold_locales
  have ib: "in_bounds (reader_new b)" if "length b \<le> isize_max" for b
    using that by (simp add: in_bounds_def reader_new_def)
  fix x
  assume "valid x" "length (encode x) \<le> isize_max"
  then show "run_reader f (encode x) = Ok (x, length (encode x))"
    using readsD [OF enc, of x "[]" "[]"] by (simp add: run_reader_def reader_new_def)
next
  have ib: "in_bounds (reader_new b)" if "length b \<le> isize_max" for b
    using that by (simp add: in_bounds_def reader_new_def)
  fix b :: bytes and x n
  assume len: "length b \<le> isize_max"
  note fD = well_behavedD [OF f ib [OF len]]
  show "run_reader f b \<noteq> Crash"
    using fD(1) by (auto simp: run_reader_def and_then_eq_Inl)
  assume "run_reader f b = Ok (x, n)"
  then obtain rd where "f (reader_new b) = Ok (x, rd)" "n = rd_pos rd"
    by (auto simp: run_reader_def)
  with fD(2) show "n \<le> length b" by (auto simp: in_bounds_def reader_new_def)
next
  fix b c :: bytes
  assume len: "length (b @ c) \<le> isize_max" and ne: "run_reader f b \<noteq> Fail UnexpectedEof"
  have "in_bounds (reader_new b)" "in_bounds (grow c (reader_new b))"
    using len by (simp_all add: in_bounds_def reader_new_def)
  moreover have "f (reader_new b) \<noteq> Fail UnexpectedEof" using ne by (auto simp: run_reader_def)
  ultimately have "f (grow c (reader_new b)) = map_sum id (apsnd (grow c)) (f (reader_new b))"
    by (rule well_behavedD(3) [OF f])
  moreover have "grow c (reader_new b) = reader_new (b @ c)" by (simp add: reader_new_def grow_def)
  ultimately show "run_reader f (b @ c) = run_reader f b"
    by (cases "f (reader_new b)") (auto simp: run_reader_def)
qed

text \<open>Rules that take a decoder apart into its steps.\<close>

lemmas well_behaved_steps =
  well_behaved_then well_behaved_return well_behaved_u8 well_behaved_varint well_behaved_bytes

lemmas reads_steps = reads_then reads_return reads_u8 reads_varint reads_bytes

end
