(* ===== verification/Messages.thy ===== *)
theory Messages
  imports Wire_Reader Address
begin

section \<open>The message layer\<close>

text \<open>
  \<open>src/crates/hydr-core/src/message.rs\<close>: authentication, stream opening and datagrams. BLAKE3
  is a third-party crate, so its two functions are arguments of \<open>compute_auth_proof\<close>:
  \<open>derive ctx key\<close> stands for \<open>blake3::derive_key\<close> and \<open>keyed k m\<close> for
  \<open>blake3::keyed_hash(k, m).as_bytes()\<close>.
\<close>

subsection \<open>Constants\<close>

definition PROTOCOL_VERSION :: u64 where [code_consts]: "PROTOCOL_VERSION = 0x01"
definition STATUS_OK :: u8 where [code_consts]: "STATUS_OK = 0x00"
definition STATUS_ERR :: u8 where [code_consts]: "STATUS_ERR = 0x01"
definition FEATURE_UDP :: u8 where [code_consts]: "FEATURE_UDP = 0x01"
definition ERR_NONE :: u8 where [code_consts]: "ERR_NONE = 0x00"
definition ERR_BAD_CREDENTIALS :: u8 where [code_consts]: "ERR_BAD_CREDENTIALS = 0x01"
definition ERR_RATE_LIMITED :: u8 where [code_consts]: "ERR_RATE_LIMITED = 0x02"
definition ERR_CONNECT_FAILED :: u8 where [code_consts]: "ERR_CONNECT_FAILED = 0x03"
definition ERR_UNSUPPORTED :: u8 where [code_consts]: "ERR_UNSUPPORTED = 0x04"
definition ERR_PROTOCOL :: u8 where [code_consts]: "ERR_PROTOCOL = 0x05"
definition ERR_INTERNAL :: u8 where [code_consts]: "ERR_INTERNAL = 0x06"
definition NONCE_LEN :: nat where [code_consts]: "NONCE_LEN = 16"
definition TAG_LEN :: nat where [code_consts]: "TAG_LEN = 16"
definition AUTH_PASSWORD :: u8 where [code_consts]: "AUTH_PASSWORD = 0x01"

subsection \<open>Authentication proof and constant-time comparison\<close>

type_synonym derive_key_fn = "rstring \<Rightarrow> bytes \<Rightarrow> bytes"
type_synonym keyed_hash_fn = "bytes \<Rightarrow> bytes \<Rightarrow> bytes"

definition derive_key :: "derive_key_fn \<Rightarrow> bytes \<Rightarrow> bytes" where
  "derive_key derive password = derive (lit ''hydr v1 auth proof'') password"

definition compute_auth_proof :: "derive_key_fn \<Rightarrow> keyed_hash_fn \<Rightarrow> bytes \<Rightarrow> bytes \<Rightarrow> bytes" where
  "compute_auth_proof derive keyed password nonce = keyed (derive_key derive password) nonce"

definition ct_eq :: "bytes \<Rightarrow> bytes \<Rightarrow> bool" where
  "ct_eq a b =
     (if length a \<noteq> length b then False
      else foldl (\<lambda>diff (x, y). diff OR (x XOR y)) 0 (zip a b) = 0)"

text \<open>\<open>random_padding\<close>: \<open>len\<close> calls of the generator, whose state is passed along.\<close>

fun random_padding :: "('s \<Rightarrow> u8 \<times> 's) \<Rightarrow> nat \<Rightarrow> 's \<Rightarrow> bytes \<times> 's" where
  "random_padding rng 0 s = ([], s)"
| "random_padding rng (Suc len) s =
     (let (b, s1) = rng s; (bs, s2) = random_padding rng len s1 in (b # bs, s2))"

subsection \<open>Message types\<close>

record auth_request =
  aq_version :: u64
  aq_auth_method :: u8
  aq_client_nonce :: bytes
  aq_auth_proof :: bytes
  aq_cc_rx :: u64
  aq_features :: u8
  aq_padding :: bytes

record auth_response =
  ar_status :: u8
  ar_error_code :: u8
  ar_message :: bytes
  ar_server_cc_rx :: u64
  ar_server_features :: u8
  ar_padding :: bytes

record open_stream =
  os_address :: address

record open_stream_ack =
  oa_status :: u8
  oa_error_code :: u8
  oa_message :: bytes

record datagram =
  dg_session_id :: u32
  dg_packet_id :: u16
  dg_frag_id :: u8
  dg_frag_count :: u8
  dg_address :: address
  dg_payload :: bytes

subsection \<open>Constructors\<close>

text \<open>
  The nonce comes from the operating system's generator, so it is an argument; \<open>None\<close> is an
  unavailable generator, which makes \<open>new_password\<close> panic and \<open>try_new_password\<close> fail.
\<close>

definition new_password_with_nonce ::
  "derive_key_fn \<Rightarrow> keyed_hash_fn \<Rightarrow> bytes \<Rightarrow> u64 \<Rightarrow> u8 \<Rightarrow> bytes option \<Rightarrow> bytes option
     \<Rightarrow> auth_request result" where
  "new_password_with_nonce derive keyed password cc_rx features nonce_override random =
     and_then (case nonce_override of Some n \<Rightarrow> Ok n
               | None \<Rightarrow> (case random of Some n \<Rightarrow> Ok n | None \<Rightarrow> Crash)) (\<lambda>nonce.
       Ok \<lparr>aq_version = PROTOCOL_VERSION, aq_auth_method = AUTH_PASSWORD,
           aq_client_nonce = nonce,
           aq_auth_proof = compute_auth_proof derive keyed password nonce,
           aq_cc_rx = cc_rx, aq_features = features, aq_padding = []\<rparr>)"

definition new_password ::
  "derive_key_fn \<Rightarrow> keyed_hash_fn \<Rightarrow> bytes \<Rightarrow> u64 \<Rightarrow> u8 \<Rightarrow> bytes option \<Rightarrow> auth_request result" where
  "new_password derive keyed password cc_rx features random =
     new_password_with_nonce derive keyed password cc_rx features None random"

text \<open>In \<open>try_new_password\<close> a failing generator is \<open>Inl\<close> of its rendered error.\<close>

definition try_new_password ::
  "derive_key_fn \<Rightarrow> keyed_hash_fn \<Rightarrow> bytes \<Rightarrow> u64 \<Rightarrow> u8 \<Rightarrow> rstring + bytes \<Rightarrow> auth_request result" where
  "try_new_password derive keyed password cc_rx features random =
     (case random of
        Inl e \<Rightarrow> Fail (Io (lit ''CSPRNG unavailable: '' @ e))
      | Inr nonce \<Rightarrow>
          Ok \<lparr>aq_version = PROTOCOL_VERSION, aq_auth_method = AUTH_PASSWORD,
              aq_client_nonce = nonce,
              aq_auth_proof = compute_auth_proof derive keyed password nonce,
              aq_cc_rx = cc_rx, aq_features = features, aq_padding = []\<rparr>)"

definition auth_response_ok :: "u64 \<Rightarrow> u8 \<Rightarrow> auth_response" where
  "auth_response_ok server_cc_rx server_features =
     \<lparr>ar_status = STATUS_OK, ar_error_code = ERR_NONE, ar_message = [],
      ar_server_cc_rx = server_cc_rx, ar_server_features = server_features, ar_padding = []\<rparr>"

definition auth_response_error_with_code :: "u8 \<Rightarrow> rstring \<Rightarrow> auth_response" where
  "auth_response_error_with_code error_code msg =
     \<lparr>ar_status = STATUS_ERR, ar_error_code = error_code, ar_message = msg,
      ar_server_cc_rx = 0, ar_server_features = 0, ar_padding = []\<rparr>"

definition auth_response_error :: "rstring \<Rightarrow> auth_response" where
  "auth_response_error msg = auth_response_error_with_code ERR_BAD_CREDENTIALS msg"

definition open_stream_ack_ok :: open_stream_ack where
  "open_stream_ack_ok = \<lparr>oa_status = STATUS_OK, oa_error_code = ERR_NONE, oa_message = []\<rparr>"

definition open_stream_ack_error_with_code :: "u8 \<Rightarrow> rstring \<Rightarrow> open_stream_ack" where
  "open_stream_ack_error_with_code error_code msg =
     \<lparr>oa_status = STATUS_ERR, oa_error_code = error_code, oa_message = msg\<rparr>"

definition datagram_new :: "u32 \<Rightarrow> address \<Rightarrow> bytes \<Rightarrow> datagram" where
  "datagram_new session_id addr payload =
     \<lparr>dg_session_id = session_id, dg_packet_id = 0, dg_frag_id = 0, dg_frag_count = 1,
      dg_address = addr, dg_payload = payload\<rparr>"

subsection \<open>Encoders and decoders\<close>

definition encode_auth_request :: "bytes \<Rightarrow> auth_request \<Rightarrow> bytes" where
  "encode_auth_request buf self =
     (let buf = encode_varint buf (aq_version self);
          buf = buf @ [aq_auth_method self];
          buf = encode_varint buf (of_nat (length (aq_client_nonce self)));
          buf = buf @ aq_client_nonce self;
          buf = encode_varint buf (of_nat (length (aq_auth_proof self)));
          buf = buf @ aq_auth_proof self;
          buf = encode_varint buf (aq_cc_rx self);
          buf = buf @ [aq_features self];
          buf = encode_varint buf (of_nat (length (aq_padding self)));
          buf = buf @ aq_padding self
      in buf)"

definition read_auth_request :: "auth_request reading" where
  "read_auth_request =
     read_then reader_varint (\<lambda>version.
     read_then reader_u8 (\<lambda>auth_method.
     read_then reader_bytes (\<lambda>client_nonce.
     read_then reader_bytes (\<lambda>auth_proof.
     read_then reader_varint (\<lambda>cc_rx.
     read_then reader_u8 (\<lambda>features.
     read_then reader_bytes (\<lambda>padding.
       read_return
         \<lparr>aq_version = version, aq_auth_method = auth_method, aq_client_nonce = client_nonce,
          aq_auth_proof = auth_proof, aq_cc_rx = cc_rx, aq_features = features,
          aq_padding = padding\<rparr>)))))))"

definition decode_auth_request :: "bytes \<Rightarrow> (auth_request \<times> nat) result" where
  "decode_auth_request buf = run_reader read_auth_request buf"

definition encode_auth_response :: "bytes \<Rightarrow> auth_response \<Rightarrow> bytes" where
  "encode_auth_response buf self =
     (let buf = buf @ [ar_status self];
          buf = buf @ [ar_error_code self];
          buf = encode_varint buf (of_nat (length (ar_message self)));
          buf = buf @ ar_message self;
          buf = encode_varint buf (ar_server_cc_rx self);
          buf = buf @ [ar_server_features self];
          buf = encode_varint buf (of_nat (length (ar_padding self)));
          buf = buf @ ar_padding self
      in buf)"

definition read_auth_response :: "auth_response reading" where
  "read_auth_response =
     read_then reader_u8 (\<lambda>status.
     read_then reader_u8 (\<lambda>error_code.
     read_then reader_bytes (\<lambda>message.
     read_then reader_varint (\<lambda>server_cc_rx.
     read_then reader_u8 (\<lambda>server_features.
     read_then reader_bytes (\<lambda>padding.
       read_return
         \<lparr>ar_status = status, ar_error_code = error_code, ar_message = message,
          ar_server_cc_rx = server_cc_rx, ar_server_features = server_features,
          ar_padding = padding\<rparr>))))))"

definition decode_auth_response :: "bytes \<Rightarrow> (auth_response \<times> nat) result" where
  "decode_auth_response buf = run_reader read_auth_response buf"

definition encode_open_stream :: "bytes \<Rightarrow> open_stream \<Rightarrow> bytes" where
  "encode_open_stream buf self = encode_address buf (os_address self)"

definition decode_open_stream :: "bytes \<Rightarrow> (open_stream \<times> nat) result" where
  "decode_open_stream buf =
     and_then (decode_address buf) (\<lambda>(addr, used). Ok (\<lparr>os_address = addr\<rparr>, used))"

definition encode_open_stream_ack :: "bytes \<Rightarrow> open_stream_ack \<Rightarrow> bytes" where
  "encode_open_stream_ack buf self =
     (let buf = buf @ [oa_status self];
          buf = buf @ [oa_error_code self];
          buf = encode_varint buf (of_nat (length (oa_message self)));
          buf = buf @ oa_message self
      in buf)"

definition read_open_stream_ack :: "open_stream_ack reading" where
  "read_open_stream_ack =
     read_then reader_u8 (\<lambda>status.
     read_then reader_u8 (\<lambda>error_code.
     read_then reader_bytes (\<lambda>message.
       read_return \<lparr>oa_status = status, oa_error_code = error_code, oa_message = message\<rparr>)))"

definition decode_open_stream_ack :: "bytes \<Rightarrow> (open_stream_ack \<times> nat) result" where
  "decode_open_stream_ack buf = run_reader read_open_stream_ack buf"

definition encode_datagram :: "bytes \<Rightarrow> datagram \<Rightarrow> bytes" where
  "encode_datagram buf self =
     (let buf = buf @ be_bytes 4 (dg_session_id self);
          buf = buf @ be_bytes 2 (dg_packet_id self);
          buf = buf @ [dg_frag_id self];
          buf = buf @ [dg_frag_count self];
          buf = encode_address buf (dg_address self);
          buf = buf @ dg_payload self
      in buf)"

definition decode_datagram :: "bytes \<Rightarrow> (datagram \<times> nat) result" where
  "decode_datagram buf =
     (if length buf < 8 then Fail UnexpectedEof
      else
        and_then (slice_range buf 0 4) (\<lambda>sid. and_then (slice_range buf 4 6) (\<lambda>pid.
        and_then (index buf 6) (\<lambda>frag_id. and_then (index buf 7) (\<lambda>frag_count.
        and_then (slice_from buf 8) (\<lambda>tail.
        and_then (decode_address tail) (\<lambda>(addr, used).
        and_then (slice_from buf (8 + used)) (\<lambda>payload.
          Ok (\<lparr>dg_session_id = from_be sid, dg_packet_id = from_be pid, dg_frag_id = frag_id,
               dg_frag_count = frag_count, dg_address = addr, dg_payload = payload\<rparr>,
              length buf)))))))))"

subsection \<open>Encoders append\<close>

text \<open>Every encoder appends its fields to the buffer it is given.\<close>

lemma encode_auth_request_append:
  "encode_auth_request buf r = buf @
     encode_varint [] (aq_version r) @ [aq_auth_method r] @ encode_bytes (aq_client_nonce r) @
     encode_bytes (aq_auth_proof r) @ encode_varint [] (aq_cc_rx r) @ [aq_features r] @
     encode_bytes (aq_padding r)"
  unfolding encode_auth_request_def Let_def encode_varint_bytes encode_varint_append [of "_ @ _"]
    encode_varint_append [of buf]
  by (simp only: append_assoc encode_bytes_def)

lemma encode_auth_response_append:
  "encode_auth_response buf r = buf @
     [ar_status r] @ [ar_error_code r] @ encode_bytes (ar_message r) @
     encode_varint [] (ar_server_cc_rx r) @ [ar_server_features r] @ encode_bytes (ar_padding r)"
  unfolding encode_auth_response_def Let_def encode_varint_bytes encode_varint_append [of "_ @ _"]
  by (simp only: append_assoc encode_bytes_def)

lemma encode_open_stream_append:
  "encode_open_stream buf r = buf @ encode_open_stream [] r"
  unfolding encode_open_stream_def by (rule encode_address_append)

lemma encode_open_stream_ack_append:
  "encode_open_stream_ack buf r = buf @ [oa_status r] @ [oa_error_code r] @ encode_bytes (oa_message r)"
  unfolding encode_open_stream_ack_def Let_def encode_varint_bytes append_assoc ..

lemma encode_datagram_append:
  "encode_datagram buf r = buf @
     be_bytes 4 (dg_session_id r) @ be_bytes 2 (dg_packet_id r) @ [dg_frag_id r] @
     [dg_frag_count r] @ encode_address [] (dg_address r) @ dg_payload r"
  unfolding encode_datagram_def Let_def encode_address_append [of "_ @ _"] append_assoc ..


subsection \<open>The codecs\<close>

text \<open>
  What a sender has to respect: varint fields below \<open>2 ^ 62\<close> and byte fields shorter than
  that. \<open>wf_address\<close> is the condition on the embedded address.
\<close>

definition wf_auth_request :: "auth_request \<Rightarrow> bool" where
  "wf_auth_request r \<longleftrightarrow>
     aq_version r < 2 ^ 62 \<and> aq_cc_rx r < 2 ^ 62 \<and> length (aq_client_nonce r) < 2 ^ 62 \<and>
     length (aq_auth_proof r) < 2 ^ 62 \<and> length (aq_padding r) < 2 ^ 62"

definition wf_auth_response :: "auth_response \<Rightarrow> bool" where
  "wf_auth_response r \<longleftrightarrow>
     length (ar_message r) < 2 ^ 62 \<and> ar_server_cc_rx r < 2 ^ 62 \<and> length (ar_padding r) < 2 ^ 62"

definition wf_open_stream_ack :: "open_stream_ack \<Rightarrow> bool" where
  "wf_open_stream_ack r \<longleftrightarrow> length (oa_message r) < 2 ^ 62"

lemma reads_auth_request:
  "wf_auth_request r \<Longrightarrow> reads read_auth_request r (encode_auth_request [] r @ [])"
  unfolding read_auth_request_def encode_auth_request_append append_assoc append_Nil
    wf_auth_request_def
  by (cases r, simp only: auth_request.select_convs, (elim conjE)?)
    (rule reads_steps, assumption?)+

lemma reads_auth_response:
  "wf_auth_response r \<Longrightarrow> reads read_auth_response r (encode_auth_response [] r @ [])"
  unfolding read_auth_response_def encode_auth_response_append append_assoc append_Nil
    wf_auth_response_def
  by (cases r, simp only: auth_response.select_convs, (elim conjE)?)
    (rule reads_steps, assumption?)+

lemma reads_open_stream_ack:
  "wf_open_stream_ack r \<Longrightarrow> reads read_open_stream_ack r (encode_open_stream_ack [] r @ [])"
  unfolding read_open_stream_ack_def encode_open_stream_ack_append append_assoc append_Nil
    wf_open_stream_ack_def
  by (cases r, simp only: open_stream_ack.select_convs, (elim conjE)?)
    (rule reads_steps, assumption?)+


lemma well_behaved_message_readers:
  "well_behaved read_auth_request" "well_behaved read_auth_response"
  "well_behaved read_open_stream_ack"
  unfolding read_auth_request_def read_auth_response_def read_open_stream_ack_def
  by (intro well_behaved_steps)+

interpretation auth_request_codec:
  prefix_codec "encode_auth_request []" decode_auth_request wf_auth_request
  unfolding decode_auth_request_def [abs_def]
  by (rule run_reader_codec [OF well_behaved_message_readers(1)])
    (drule reads_auth_request, simp only: append_Nil2)

interpretation auth_response_codec:
  prefix_codec "encode_auth_response []" decode_auth_response wf_auth_response
  unfolding decode_auth_response_def [abs_def]
  by (rule run_reader_codec [OF well_behaved_message_readers(2)])
    (drule reads_auth_response, simp only: append_Nil2)

interpretation open_stream_ack_codec:
  prefix_codec "encode_open_stream_ack []" decode_open_stream_ack wf_open_stream_ack
  unfolding decode_open_stream_ack_def [abs_def]
  by (rule run_reader_codec [OF well_behaved_message_readers(3)])
    (drule reads_open_stream_ack, simp only: append_Nil2)

text \<open>\<open>OpenStream\<close> inherits the codec of its address.\<close>

lemma length_ack: "length (encode_open_stream_ack [] a) \<le> 10 + length (oa_message a)"
  using encode_varint_len_bounds(2) [of "of_nat (length (oa_message a))"]
  by (simp add: encode_open_stream_ack_def encode_varint_len_eq code_consts encode_varint_append [of "[_, _]"])

definition wf_open_stream :: "open_stream \<Rightarrow> bool" where
  "wf_open_stream r \<longleftrightarrow> wf_address (os_address r)"

interpretation open_stream_codec:
  prefix_codec "encode_open_stream []" decode_open_stream wf_open_stream
proof unfold_locales
  note defs = encode_open_stream_def decode_open_stream_def wf_open_stream_def
  show "decode_open_stream (encode_open_stream [] x) = Ok (x, length (encode_open_stream [] x))"
    if "wf_open_stream x" "length (encode_open_stream [] x) \<le> isize_max" for x
    using that address_codec.decode_encode [of "os_address x"] by (simp add: defs)
  fix b c :: bytes
  show "decode_open_stream b = Ok (x, n) \<Longrightarrow> n \<le> length b" if "length b \<le> isize_max" for x n
    using address_codec.decode_bound [OF that] by (auto simp: defs)
  show "decode_open_stream b \<noteq> Crash" if "length b \<le> isize_max"
    using address_codec.decode_no_panic [OF that] by (auto simp: defs and_then_eq_Inl)
  show "decode_open_stream (b @ c) = decode_open_stream b"
    if "length (b @ c) \<le> isize_max" "decode_open_stream b \<noteq> Fail UnexpectedEof"
    using that address_codec.decode_extend [of b c] by (auto simp: defs and_then_eq_Inl)
qed

text \<open>
  \<open>Datagram\<close> is not self-delimiting: its payload is whatever the buffer holds, and the whole
  buffer counts as used.
\<close>

definition wf_datagram :: "datagram \<Rightarrow> bool" where
  "wf_datagram d \<longleftrightarrow> wf_address (dg_address d)"

lemma decode_datagram_fields:
  assumes "length (be_bytes 4 sid @ be_bytes 2 pid @ [fid] @ [fcount] @ tail) \<le> isize_max"
  shows "decode_datagram (be_bytes 4 sid @ be_bytes 2 pid @ [fid] @ [fcount] @ tail) =
     and_then (decode_address tail) (\<lambda>(addr, used).
       Ok (\<lparr>dg_session_id = sid, dg_packet_id = pid, dg_frag_id = fid, dg_frag_count = fcount,
            dg_address = addr, dg_payload = drop used tail\<rparr>, 8 + length tail))"
proof (cases "decode_address tail")
  case (Inl e)
  then show ?thesis
    by (simp add: decode_datagram_def slice_range_def index_def slice_from_def nth_append)
next
  case (Inr p)
  then obtain a n where p: "decode_address tail = Ok (a, n)" by (cases p) simp
  with assms have "n \<le> length tail" by (auto intro: address_codec.decode_bound)
  then show ?thesis
    by (simp add: p decode_datagram_def slice_range_def index_def slice_from_def nth_append
        from_be_bytes)
qed

lemma decode_datagram_split:
  assumes "8 \<le> length b" "length b \<le> isize_max"
  shows "decode_datagram b =
     and_then (decode_address (drop 8 b)) (\<lambda>(addr, used).
       Ok (\<lparr>dg_session_id = from_be (take 4 b), dg_packet_id = from_be (take 2 (drop 4 b)),
            dg_frag_id = b ! 6, dg_frag_count = b ! 7, dg_address = addr,
            dg_payload = drop used (drop 8 b)\<rparr>, length b))"
proof (cases "decode_address (drop 8 b)")
  case (Inl e)
  then show ?thesis using assms
    by (simp add: decode_datagram_def slice_range_def index_def slice_from_def)
next
  case (Inr p)
  then obtain a n where p: "decode_address (drop 8 b) = Ok (a, n)" by (cases p) simp
  from assms have "length (drop 8 b) \<le> isize_max" by simp
  from address_codec.decode_bound [OF this p] assms have "8 + n \<le> length b" by simp
  with p assms show ?thesis
    by (simp add: decode_datagram_def slice_range_def index_def slice_from_def add.commute)
qed

interpretation datagram_codec: whole_codec "encode_datagram []" decode_datagram wf_datagram
proof unfold_locales
  fix d
  assume d: "wf_datagram d" and len: "length (encode_datagram [] d) \<le> isize_max"
  have "decode_address (encode_address [] (dg_address d) @ dg_payload d)
      = Ok (dg_address d, length (encode_address [] (dg_address d)))"
    using d len by (intro address_codec.decode_encode_rest)
      (simp_all add: wf_datagram_def encode_datagram_append)
  with len show "decode_datagram (encode_datagram [] d) = Ok (d, length (encode_datagram [] d))"
    unfolding encode_datagram_append append_Nil by (subst decode_datagram_fields) simp_all
next
  fix b :: bytes
  assume len: "length b \<le> isize_max"
  show "decode_datagram b = Ok (x, n) \<Longrightarrow> n \<le> length b" for x n
    using len by (cases "8 \<le> length b") (auto simp: decode_datagram_split, simp add: decode_datagram_def)
  show "decode_datagram b \<noteq> Crash"
    using len address_codec.decode_no_panic [of "drop 8 b"]
    by (cases "8 \<le> length b") (auto simp: decode_datagram_split and_then_eq_Inl, simp add: decode_datagram_def)
qed

subsection \<open>The comparison of proofs\<close>

text \<open>
  \<open>ct_eq\<close> accumulates every difference before it decides, so where two proofs first differ
  does not influence the work done; its result is equality.
\<close>

lemma or_zero_iff: "a OR b = 0 \<longleftrightarrow> a = 0 \<and> b = (0 :: 'a::len word)"
  by (auto simp: bit_eq_iff bit_simps)

lemma xor_zero_iff: "a XOR b = 0 \<longleftrightarrow> a = (b :: 'a::len word)"
  by (auto simp: bit_eq_iff bit_simps)

lemma ct_eq_fold:
  "length a = length b \<Longrightarrow>
     foldl (\<lambda>diff (x, y). diff OR (x XOR y)) d (zip a b) = 0 \<longleftrightarrow> d = 0 \<and> a = (b :: bytes)"
  by (induction a b arbitrary: d rule: list_induct2) (auto simp: or_zero_iff xor_zero_iff)

lemma ct_eq_iff: "ct_eq a b \<longleftrightarrow> a = b"
  by (auto simp: ct_eq_def ct_eq_fold)

subsection \<open>Padding and fresh nonces\<close>

lemma length_random_padding [simp]: "length (fst (random_padding rng n s)) = n"
proof (induction n arbitrary: s)
  case (Suc n)
  show ?case
    using Suc [of "snd (rng s)"] by (simp add: Let_def split_beta)
qed simp

subsection \<open>Properties\<close>

text \<open>
  An \<open>AuthRequest\<close> decodes to itself, whatever bytes follow it on the stream, and the
  decoder reports exactly its length as used.
\<close>

theorem auth_request_roundtrip:
  assumes "wf_auth_request r" and "length (encode_auth_request [] r @ rest) \<le> isize_max"
  shows "decode_auth_request (encode_auth_request [] r @ rest)
     = Ok (r, length (encode_auth_request [] r))"
  by (rule auth_request_codec.decode_encode_rest [OF assms])

theorem auth_request_roundtrip_witness:
  "let r = \<lparr>aq_version = 1, aq_auth_method = 1, aq_client_nonce = [1, 2], aq_auth_proof = [3],
            aq_cc_rx = 300, aq_features = 1, aq_padding = []\<rparr>
   in decode_auth_request (encode_auth_request [] r @ [9, 9]) = Ok (r, length (encode_auth_request [] r))"
  unfolding Let_def
  by (rule auth_request_roundtrip)
    (simp add: wf_auth_request_def, rule small_isize, code_simp)

text \<open>
  A \<open>Datagram\<close> decodes to itself: session, packet and fragment numbers, address and
  payload.
\<close>

theorem datagram_roundtrip:
  assumes "wf_datagram d" and "length (encode_datagram [] d) \<le> isize_max"
  shows "decode_datagram (encode_datagram [] d) = Ok (d, length (encode_datagram [] d))"
  by (rule datagram_codec.decode_encode [OF assms])

theorem datagram_roundtrip_witness:
  "let d = datagram_new 7 (Ip (V4 0x7f000001) 53) [1, 2, 3]
   in decode_datagram (encode_datagram [] d) = Ok (d, length (encode_datagram [] d))"
  unfolding Let_def
  by (rule datagram_roundtrip)
    (simp add: wf_datagram_def datagram_new_def, rule small_isize, code_simp)

text \<open>
  The comparison of authentication proofs, which accumulates every byte difference before
  it decides, accepts exactly equal byte strings: neither a prefix nor a longer proof passes.
\<close>

theorem ct_eq_is_equality: "ct_eq a b \<longleftrightarrow> a = b"
  by (rule ct_eq_iff)

end
