(* ===== verification/Byte_Stream.thy ===== *)
theory Byte_Stream
  imports Hydr_Prelude
begin

section \<open>Bidirectional byte streams\<close>

text \<open>
  What the code uses of a stream of the asynchronous libraries (a QUIC stream of quinn, a TCP
  stream of tokio): the bytes the peer has sent and will send before the stream ends, the error
  text of a read past that end, the bytes written so far, and whether writing fails. The state of a
  stream is passed through the operations; waiting for a byte that will still come is not an event.
\<close>

subsection \<open>Streams\<close>

record bi_stream =
  bi_recv :: bytes
  bi_read_error :: rstring
  bi_sent :: bytes
  bi_write_error :: "rstring option"

type_synonym 'a stream_op = "bi_stream \<Rightarrow> 'a result \<times> bi_stream"

definition op_return :: "'a result \<Rightarrow> 'a stream_op" where
  "op_return r s = (r, s)"

definition op_bind :: "'a stream_op \<Rightarrow> ('a \<Rightarrow> 'b stream_op) \<Rightarrow> 'b stream_op" where
  "op_bind m f s = (case m s of (Inl e, s') \<Rightarrow> (Inl e, s') | (Inr x, s') \<Rightarrow> f x s')"

lemma op_return_run [simp]: "op_return r s = (r, s)"
  by (simp add: op_return_def)

lemma op_bind_step: "m s = (Ok x, s') \<Longrightarrow> op_bind m f s = f x s'"
  by (simp add: op_bind_def)

lemma op_bind_fail: "m s = (Inl e, s') \<Longrightarrow> op_bind m f s = (Inl e, s')"
  by (simp add: op_bind_def)

lemma op_bind_crash:
  "fst (op_bind m f s) = Crash \<longleftrightarrow>
     fst (m s) = Crash \<or> (\<exists>x s'. m s = (Ok x, s') \<and> fst (f x s') = Crash)"
  by (auto simp: op_bind_def split: prod.splits sum.splits)

text \<open>\<open>read_exact\<close> and \<open>write_all\<close> of both libraries, with the library's error as an \<open>Error::Io\<close>.\<close>

definition to_io_error :: "rstring \<Rightarrow> hydr_error" where
  "to_io_error text = Io text"

definition read_exact :: "nat \<Rightarrow> bytes stream_op" where
  "read_exact n s =
     (if n \<le> length (bi_recv s) then (Ok (take n (bi_recv s)), s\<lparr>bi_recv := drop n (bi_recv s)\<rparr>)
      else (Fail (to_io_error (bi_read_error s)), s\<lparr>bi_recv := []\<rparr>))"

definition write_all :: "bytes \<Rightarrow> unit stream_op" where
  "write_all bs s =
     (case bi_write_error s of
        None \<Rightarrow> (Ok (), s\<lparr>bi_sent := bi_sent s @ bs\<rparr>)
      | Some text \<Rightarrow> (Fail (to_io_error text), s))"

text \<open>Operations that only read leave everything but the unread bytes alone.\<close>

lemma op_bind_recv_only:
  assumes "\<And>s. \<exists>r. snd (m s) = s\<lparr>bi_recv := r\<rparr>" "\<And>x s. \<exists>r. snd (f x s) = s\<lparr>bi_recv := r\<rparr>"
  shows "\<exists>r. snd (op_bind m f s) = s\<lparr>bi_recv := r\<rparr>"
proof (cases "m s")
  case (Pair y s')
  from assms(1) [of s] Pair obtain r where r: "s' = s\<lparr>bi_recv := r\<rparr>" by auto
  show ?thesis
  proof (cases y)
    case (Inl e)
    with Pair r show ?thesis by (auto simp: op_bind_def)
  next
    case (Inr x)
    with Pair r assms(2) [of x s'] show ?thesis by (auto simp: op_bind_def)
  qed
qed

lemma recv_only_basic:
  "\<exists>r. snd (op_return x s) = s\<lparr>bi_recv := r\<rparr>"
  "\<exists>r. snd (read_exact n s) = s\<lparr>bi_recv := r\<rparr>"
  "\<exists>r. s = s\<lparr>bi_recv := r\<rparr>"
  by (auto simp: read_exact_def intro: exI [of _ "bi_recv s"])


text \<open>Reading a known prefix.\<close>

lemma read_exact_prefix:
  "bi_recv s = a @ b \<Longrightarrow> length a = n \<Longrightarrow> read_exact n s = (Ok a, s\<lparr>bi_recv := b\<rparr>)"
  by (auto simp: read_exact_def)

lemma read_exact_not_crash [simp]: "fst (read_exact n s) \<noteq> Crash"
  by (simp add: read_exact_def)

lemma write_all_not_crash [simp]: "fst (write_all bs s) \<noteq> Crash"
  by (simp add: write_all_def split: option.splits)

lemma write_all_run: "bi_write_error s = None \<Longrightarrow> write_all bs s = (Ok (), s\<lparr>bi_sent := bi_sent s @ bs\<rparr>)"
  by (simp add: write_all_def)

text \<open>What a successful read or bind says.\<close>

lemma read_exact_OkD:
  assumes "read_exact n s = (Ok a, s')"
  shows "length a = n" "bi_recv s = a @ bi_recv s'"
  using assms by (auto simp: read_exact_def split: if_splits)

lemma op_bind_OkE:
  assumes "op_bind m f s = (Ok y, s')"
  obtains x s1 where "m s = (Ok x, s1)" "f x s1 = (Ok y, s')"
  using assms by (auto simp: op_bind_def split: prod.splits sum.splits)

lemma write_all_OkD: "write_all bs s = (Ok u, s') \<Longrightarrow> bi_recv s' = bi_recv s \<and> bi_sent s' = bi_sent s @ bs"
  by (auto simp: write_all_def split: option.splits)

end
