(* ===== verification/Socks5.thy ===== *)
theory Socks5
  imports Messages Byte_Stream
begin

section \<open>The SOCKS5 front end\<close>

text \<open>
  \<open>src/crates/hydr-client/src/socks5.rs\<close>: the method negotiation, the username/password
  sub-negotiation, the request and the UDP header, as operations on the byte stream of the TCP
  connection. The code hands the address part to \<open>Address::decode\<close>, the decoder of hydr's own wire
  format, and not to one of RFC 1928; the two formats differ in the type byte of an IPv6 address and
  in the length field of a domain.
\<close>

definition CMD_CONNECT :: u8 where [code_consts]: "CMD_CONNECT = 0x01"
definition CMD_UDP_ASSOCIATE :: u8 where [code_consts]: "CMD_UDP_ASSOCIATE = 0x03"
definition METHOD_NO_AUTH :: u8 where [code_consts]: "METHOD_NO_AUTH = 0x00"
definition METHOD_USERPASS :: u8 where [code_consts]: "METHOD_USERPASS = 0x02"
definition METHOD_NO_ACCEPTABLE :: u8 where [code_consts]: "METHOD_NO_ACCEPTABLE = 0xFF"

record socks_request =
  sr_cmd :: u8
  sr_address :: address

definition invalid :: "string \<Rightarrow> 'a stream_op" where
  "invalid text = op_return (Fail (InvalidData (lit text)))"

subsection \<open>The operations\<close>

definition read_request :: "socks_request stream_op" where
  "read_request =
     op_bind (read_exact 4) (\<lambda>head.
       if head ! 0 \<noteq> 5 then invalid ''bad socks version''
       else
         let cmd = head ! 1; atyp = head ! 3 in
         op_bind
           (if atyp = 1 then op_bind (read_exact 6) (\<lambda>rest. op_return (Ok ([atyp] @ rest)))
            else if atyp = 4 then op_bind (read_exact 18) (\<lambda>rest. op_return (Ok ([atyp] @ rest)))
            else if atyp = 3 then
              op_bind (read_exact 1) (\<lambda>len.
              op_bind (read_exact (unat (len ! 0) + 2)) (\<lambda>rest.
                op_return (Ok ([atyp] @ [len ! 0] @ rest))))
            else invalid ''bad address type'')
           (\<lambda>addr. op_bind (op_return (decode_address addr)) (\<lambda>(address, used).
              op_return (Ok \<lparr>sr_cmd = cmd, sr_address = address\<rparr>))))"

definition parse_udp_packet :: "bytes \<Rightarrow> (address \<times> bytes) result" where
  "parse_udp_packet buf =
     (if length buf < 4 \<or> buf ! 2 \<noteq> 0 then Fail (InvalidData (lit ''bad socks udp header''))
      else
        and_then (slice_from buf 3) (\<lambda>tail.
        and_then (decode_address tail) (\<lambda>(address, used).
        and_then (usize_add 3 used) (\<lambda>start.
        and_then (slice_from buf start) (\<lambda>payload. Ok (address, payload))))))"

definition negotiate_method :: "bool \<Rightarrow> u8 option stream_op" where
  "negotiate_method require_auth =
     op_bind (read_exact 2) (\<lambda>head.
       if head ! 0 \<noteq> 5 then invalid ''bad socks version''
       else
         let nmethods = unat (head ! 1) in
         if nmethods = 0 \<or> nmethods > 32 then invalid ''bad nmethods''
         else
           op_bind (read_exact nmethods) (\<lambda>methods.
             let want = (if require_auth then METHOD_USERPASS else METHOD_NO_AUTH) in
             if want \<in> set methods
             then op_bind (write_all [5, want]) (\<lambda>_. op_return (Ok (Some want)))
             else op_bind (write_all [5, METHOD_NO_ACCEPTABLE]) (\<lambda>_. op_return (Ok None))))"

definition verify_userpass :: "rstring \<Rightarrow> rstring \<Rightarrow> bool stream_op" where
  "verify_userpass expected_user expected_pass =
     op_bind (read_exact 2) (\<lambda>head.
       if head ! 0 \<noteq> 1 then invalid ''bad userpass version''
       else
         let ulen = unat (head ! 1) in
         if ulen = 0 \<or> ulen > 255 then invalid ''bad username length''
         else
           op_bind (read_exact ulen) (\<lambda>user.
           op_bind (read_exact 1) (\<lambda>plen_buf.
             let plen = unat (plen_buf ! 0) in
             if plen > 255 then invalid ''bad password length''
             else
               op_bind (read_exact plen) (\<lambda>pass.
                 let ok = ct_eq user expected_user \<and> ct_eq pass expected_pass in
                 op_bind (write_all [1, if ok then 0 else 1]) (\<lambda>_. op_return (Ok ok))))))"

subsection \<open>What the RFCs put on the wire\<close>

text \<open>RFC 1928: the address with its type byte, a request, a UDP header; RFC 1929: the credentials.\<close>

fun rfc1928_address :: "address \<Rightarrow> bytes" where
  "rfc1928_address (Ip (V4 ip) p) = 0x01 # be_bytes 4 ip @ be_bytes 2 p"
| "rfc1928_address (Ip (V6 ip) p) = 0x04 # be_bytes 16 ip @ be_bytes 2 p"
| "rfc1928_address (Domain d p) = 0x03 # of_nat (length d) # d @ be_bytes 2 p"

definition rfc1928_request :: "u8 \<Rightarrow> address \<Rightarrow> bytes" where
  "rfc1928_request cmd a = [5, cmd, 0] @ rfc1928_address a"

definition rfc1928_udp :: "address \<Rightarrow> bytes \<Rightarrow> bytes" where
  "rfc1928_udp a payload = [0, 0, 0] @ rfc1928_address a @ payload"

definition rfc1929_login :: "rstring \<Rightarrow> rstring \<Rightarrow> bytes" where
  "rfc1929_login user pass = [1, of_nat (length user)] @ user @ [of_nat (length pass)] @ pass"

text \<open>An address on which both formats agree.\<close>

fun common_format :: "address \<Rightarrow> bool" where
  "common_format (Ip (V4 ip) p) = True"
| "common_format (Ip (V6 ip) p) = False"
| "common_format (Domain d p) = (length d < 64 \<and> valid_utf8 d)"

text \<open>Addresses whose two formats have nothing in common.\<close>

fun foreign_format :: "address \<Rightarrow> bool" where
  "foreign_format (Ip (V4 ip) p) = False"
| "foreign_format (Ip (V6 ip) p) = True"
| "foreign_format (Domain d p) = (65 \<le> length d \<and> length d < 256 \<and> d ! 0 \<noteq> 0)"

lemma common_format_encode: "common_format a \<Longrightarrow> rfc1928_address a = encode_address [] a \<and> wf_address a"
proof (cases a rule: rfc1928_address.cases)
  case (3 d p)
  assume "common_format a"
  with 3 have d: "length d < 64" "valid_utf8 d" by simp_all
  then have "(of_nat (length d) :: u64) < 64" by (simp add: word_less_nat_alt unat_of_nat)
  moreover have "ucast (of_nat (length d) :: u64) = (of_nat (length d) :: u8)"
    using d by (simp add: unsigned_of_nat take_bit_nat_eq_self)
  ultimately show ?thesis
    using d 3 by (simp add: encode_address_def encode_varint_def)
qed (simp_all add: encode_address_def)

subsection \<open>Reading a request\<close>

lemma read_request_parts:
  assumes "bi_recv s = [5, cmd, r, atyp] @ body @ rest"
    and "atyp = 1 \<and> length body = 6 \<or> atyp = 4 \<and> length body = 18 \<or>
         atyp = 3 \<and> (\<exists>n t. body = n # t \<and> length t = unat n + 2)"
  shows "read_request s =
    (and_then (decode_address (atyp # body)) (\<lambda>(a, used). Ok \<lparr>sr_cmd = cmd, sr_address = a\<rparr>),
     s\<lparr>bi_recv := rest\<rparr>)"
proof -
  have head: "read_exact 4 s = (Ok [5, cmd, r, atyp], s\<lparr>bi_recv := body @ rest\<rparr>)"
    using assms(1) by (intro read_exact_prefix) simp_all
  have addr: "op_bind (op_return (decode_address (atyp # body))) (\<lambda>(address, used).
      op_return (Ok \<lparr>sr_cmd = cmd, sr_address = address\<rparr>)) s' =
    (and_then (decode_address (atyp # body)) (\<lambda>(a, used). Ok \<lparr>sr_cmd = cmd, sr_address = a\<rparr>), s')" for s'
    by (cases "decode_address (atyp # body)") (simp_all add: op_bind_def split_beta)
  have fixed: "op_bind (read_exact (length body)) (\<lambda>rest. op_return (Ok ([atyp] @ rest)))
      (s\<lparr>bi_recv := body @ rest\<rparr>) = (Ok (atyp # body), s\<lparr>bi_recv := rest\<rparr>)"
    by (simp add: op_bind_def read_exact_def)
  from assms(2) show ?thesis
  proof (elim disjE conjE exE)
    fix n t
    assume *: "atyp = 3" "body = n # t" "length t = unat n + 2"
    have "op_bind (read_exact 1) (\<lambda>len. op_bind (read_exact (unat (len ! 0) + 2)) (\<lambda>rest.
        op_return (Ok ([3] @ [len ! 0] @ rest)))) (s\<lparr>bi_recv := body @ rest\<rparr>) =
      (Ok (3 # body), s\<lparr>bi_recv := rest\<rparr>)"
      using *(3) by (simp add: op_bind_def read_exact_def *(2))
    with * addr show ?thesis
      by (simp add: read_request_def op_bind_step [where m = "op_bind _ _"] op_bind_def [of "read_exact 4"] head)
  qed (use fixed addr in \<open>simp_all add: read_request_def op_bind_step [where m = "op_bind _ _"]
      op_bind_def [of "read_exact 4"] head\<close>)
qed

text \<open>A set bit of the accumulator moves up by eight for every further byte.\<close>

lemma foldl_shift_in_keeps:
  "bit (x :: u64) i \<Longrightarrow> i + 8 * length bs < 64 \<Longrightarrow> bit (foldl shift_in x bs) (i + 8 * length bs)"
proof (induction bs arbitrary: x i)
  case (Cons b bs)
  have "bit (shift_in x b) (i + 8)" using Cons.prems by (simp add: shift_in_def bit_simps)
  from Cons.IH [OF this] Cons.prems show ?case by (simp add: algebra_simps)
qed simp

lemma bit_lower_bound: "bit (v :: u64) i \<Longrightarrow> 8 \<le> i \<Longrightarrow> 256 \<le> unat v"
proof -
  assume i: "bit v i" "8 \<le> i"
  then have "bit (unat v) i" by (simp add: bit_unsigned_iff)
  then have "odd (unat v div 2 ^ i)" by (rule bit_iff_odd [THEN iffD1])
  then have "2 ^ i \<le> unat v" by (metis div_less dvd_0_right not_le)
  moreover have "(2 :: nat) ^ 8 \<le> 2 ^ i" using i(2) by (intro power_increasing) simp_all
  ultimately show ?thesis by simp
qed

text \<open>
  Read as a varint, the length byte of a longer domain swallows bytes of the name, and the value is
  larger than any name.
\<close>

lemma long_length_misread:
  assumes n: "65 \<le> n" "n < 256" and d0: "d0 \<noteq> 0"
    and dec: "decode_varint (of_nat n # d0 # t) = Ok (v, used)"
  shows "256 \<le> unat v"
proof -
  let ?b = "of_nat n :: u8"
  have nb: "unat ?b = n" using n by (simp add: unat_of_nat)
  from dec have used: "used = 2 ^ unat (drop_bit 6 ?b)" "used \<le> Suc (Suc (length t))"
    and v: "v = foldl shift_in (ucast (?b AND 0x3F)) (take (used - 1) (d0 # t))"
    by (auto simp: decode_varint_def get_or_eof_def slice_range_def Let_def push_bit_eq_mult split: if_splits)
  have tag: "unat (drop_bit 6 ?b) = n div 64" by (simp add: drop_bit_eq_div unat_div nb)
  from d0 obtain j where "bit d0 j" by (metis bit_eqI bit_0_eq bot_apply bot_bool_def)
  then have j: "j < 8" "bit d0 j" using bit_imp_le_length [of d0 j] by auto
  have big: "256 \<le> unat v" if "used = Suc (Suc k)" "1 \<le> k" "k \<le> 6" for k
  proof -
    have "bit (shift_in (ucast (?b AND 0x3F)) d0 :: u64) j" using j by (simp add: shift_in_def bit_simps)
    moreover have "length (take k t) = k" using used(2) that(1) by simp
    ultimately have "bit v (j + 8 * k)"
      using foldl_shift_in_keeps [of _ j "take k t"] j(1) that(1,3) by (simp add: v)
    then show ?thesis using that(2) by (intro bit_lower_bound) auto
  qed
  consider "n < 128" | "128 \<le> n" "n < 192" | "192 \<le> n" by linarith
  then show ?thesis
  proof cases
    case 1
    with n have "n div 64 = 1" by (simp add: div_nat_eqI)
    with used have u: "used = 2" by (simp add: tag)
    have "?b AND 0x3F \<noteq> 0"
    proof
      assume "?b AND 0x3F = 0"
      then have "take_bit 6 ?b = 0" by (simp add: take_bit_eq_mask mask_eq_exp_minus_1)
      then have "take_bit 6 n = 0" using nb by (metis unsigned_take_bit_eq unsigned_0)
      with 1 n show False by (simp add: take_bit_eq_mod, presburger)
    qed
    then obtain i where i: "bit (?b AND 0x3F) i" by (metis bit_eqI bit_0_eq bot_apply bot_bool_def)
    then have "i < 8" using bit_imp_le_length by fastforce
    have "v = foldl shift_in (ucast (?b AND 0x3F)) [d0]" by (simp add: v u)
    moreover have "bit (ucast (?b AND 0x3F) :: u64) i" using i by (simp add: bit_simps)
    ultimately have "bit v (i + 8 * length [d0])"
      using foldl_shift_in_keeps [of _ i "[d0]"] \<open>i < 8\<close> by simp
    then show ?thesis by (intro bit_lower_bound) auto
  next
    case 2
    then have "n div 64 = 2" by (simp add: div_nat_eqI)
    with used have "used = 4" by (simp add: tag)
    then show ?thesis using big [of 2] by simp
  next
    case 3
    with n have "n div 64 = 3" by (simp add: div_nat_eqI)
    with used have "used = 8" by (simp add: tag)
    then show ?thesis using big [of 6] by simp
  qed
qed

lemma read_request_rfc:
  assumes "bi_recv s = rfc1928_request cmd a @ rest"
    and "case a of Domain d _ \<Rightarrow> length d < 256 | _ \<Rightarrow> True"
  shows "read_request s =
    (and_then (decode_address (rfc1928_address a)) (\<lambda>(a, used). Ok \<lparr>sr_cmd = cmd, sr_address = a\<rparr>),
     s\<lparr>bi_recv := rest\<rparr>)"
proof (cases a rule: rfc1928_address.cases)
  case (3 d p)
  with assms(2) have "unat (of_nat (length d) :: u8) = length d" by (simp add: unat_of_nat)
  with 3 assms(1) show ?thesis
    by (subst read_request_parts [of s cmd 0 3 "of_nat (length d) # d @ be_bytes 2 p" rest])
      (simp_all add: rfc1928_request_def)
next
  case (1 ip p)
  with assms(1) show ?thesis
    by (subst read_request_parts [of s cmd 0 1 "be_bytes 4 ip @ be_bytes 2 p" rest])
      (simp_all add: rfc1928_request_def)
next
  case (2 ip p)
  with assms(1) show ?thesis
    by (subst read_request_parts [of s cmd 0 4 "be_bytes 16 ip @ be_bytes 2 p" rest])
      (simp_all add: rfc1928_request_def)
qed

lemma decode_long_domain:
  assumes "65 \<le> length d" "length d < 256" "d ! 0 \<noteq> 0"
  shows "decode_address (rfc1928_address (Domain d p)) = Fail UnexpectedEof"
proof -
  from assms(1) obtain d0 ds where d: "d = d0 # ds" by (cases d) auto
  let ?t = "of_nat (length d) # d0 # ds @ be_bytes 2 p"
  show ?thesis
  proof (cases "decode_varint ?t")
    case (Inl e)
    then have "e = Err UnexpectedEof" by (cases ?t rule: decode_varint_cases) simp_all
    with Inl d show ?thesis by (simp add: decode_address_eq)
  next
    case (Inr x)
    then obtain v used where v: "decode_varint ?t = Ok (v, used)" by (cases x) auto
    have "256 \<le> unat v" using assms by (intro long_length_misread [OF _ _ _ v]) (simp_all add: d)
    moreover have "1 \<le> used" using decode_varint_value [OF v] by auto
    ultimately have "length ?t < used + unat v + 2" using assms(2) d by simp
    with v d show ?thesis by (simp add: decode_address_eq Let_def)
  qed
qed

subsection \<open>Negotiation and login\<close>

lemma invalid_not_Ok [simp]: "invalid text s \<noteq> (Ok x, s')"
  by (simp add: invalid_def)

lemma negotiate_method_OkD:
  assumes "negotiate_method require_auth s = (Ok (Some m), s')"
  shows "\<exists>methods. bi_recv s = [5, of_nat (length methods)] @ methods @ bi_recv s' \<and>
    m \<in> set methods \<and> length methods \<le> 32 \<and>
    m = (if require_auth then METHOD_USERPASS else METHOD_NO_AUTH) \<and> bi_sent s' = bi_sent s @ [5, m]"
proof -
  let ?want = "if require_auth then METHOD_USERPASS else METHOD_NO_AUTH"
  from assms obtain head s1 methods s2
    where 1: "read_exact 2 s = (Ok head, s1)" "head ! 0 = 5" "\<not> unat (head ! 1) > 32"
      and 2: "read_exact (unat (head ! 1)) s1 = (Ok methods, s2)"
      and 3: "?want \<in> set methods" "write_all [5, ?want] s2 = (Ok (), s')" "m = ?want"
    unfolding negotiate_method_def Let_def
    by (elim op_bind_OkE) (auto split: if_splits elim!: op_bind_OkE)
  have "head = [5, of_nat (length methods)]"
    using read_exact_OkD(1) [OF 1(1)] 1(2) read_exact_OkD(1) [OF 2]
    by (auto simp: numeral_2_eq_2 length_Suc_conv)
  moreover have "bi_sent s2 = bi_sent s"
    using 1(1) 2 by (auto simp: read_exact_def split: if_splits)
  ultimately show ?thesis
    using read_exact_OkD(2) [OF 1(1)] read_exact_OkD [OF 2] write_all_OkD [OF 3(2)] 1(3) 3(1,3)
    by (intro exI [of _ methods]) simp
qed

lemma verify_userpass_OkD:
  assumes "verify_userpass user pass s = (Ok True, s')"
  shows "bi_recv s = rfc1929_login user pass @ bi_recv s'"
proof -
  from assms obtain head s1 u s2 plen s3 p s4
    where 1: "read_exact 2 s = (Ok head, s1)" "head ! 0 = 1"
      and 2: "read_exact (unat (head ! 1)) s1 = (Ok u, s2)"
      and 3: "read_exact 1 s2 = (Ok plen, s3)"
      and 4: "read_exact (unat (plen ! 0)) s3 = (Ok p, s4)" "ct_eq u user \<and> ct_eq p pass"
      and 5: "write_all [1, 0] s4 = (Ok (), s')"
    unfolding verify_userpass_def Let_def
    by (elim op_bind_OkE) (auto split: if_splits elim!: op_bind_OkE)
  have "head = [1, of_nat (length u)]" "plen = [of_nat (length p)]"
    using read_exact_OkD(1) [OF 1(1)] 1(2) read_exact_OkD(1) [OF 2] read_exact_OkD(1) [OF 3]
      read_exact_OkD(1) [OF 4(1)]
    by (auto simp: numeral_2_eq_2 length_Suc_conv)
  with read_exact_OkD(2) [OF 1(1)] read_exact_OkD(2) [OF 2] read_exact_OkD(2) [OF 3]
    read_exact_OkD(2) [OF 4(1)] 4(2) write_all_OkD [OF 5] show ?thesis
    by (simp add: rfc1929_login_def ct_eq_iff)
qed

subsection \<open>UDP headers\<close>

text \<open>The relay writes its replies in hydr's own address format, behind three zero bytes.\<close>

lemma parse_udp_packet_reply:
  assumes "wf_address a" "length (encode_address [] a @ payload) \<le> isize_max"
  shows "parse_udp_packet ([0, 0, 0] @ encode_address [] a @ payload) = Ok (a, payload)"
proof -
  have "encode_address [] a \<noteq> []"
    by (auto simp: encode_address_def encode_varint_append [of "[_]"] split: address.splits ip_addr.splits)
  then show ?thesis
    using assms decode_encode_address [OF assms(1), of payload] isize_max_le_usize_max
    by (auto simp: parse_udp_packet_def slice_from_def usize_add_def numeral_3_eq_3 isize_max_def usize_max_def)
qed

lemma parse_udp_packet_no_panic: "length buf \<le> isize_max \<Longrightarrow> parse_udp_packet buf \<noteq> Crash"
  using decode_address_bound [of "drop 3 buf"]
  by (auto simp: parse_udp_packet_def and_then_eq_Inl slice_from_def usize_add_def decode_address_no_panic
      isize_max_def usize_max_def split: if_splits)

subsection \<open>Properties\<close>

text \<open>
  A SOCKS5 request for an IPv4 address or a domain of at most 63 bytes is read as RFC 1928 means
  it, and the stream is left at the first byte of the client's payload.
\<close>

theorem socks5_reads_rfc_requests:
  assumes "bi_recv s = rfc1928_request cmd a @ rest" and "common_format a"
  shows "read_request s = (Ok \<lparr>sr_cmd = cmd, sr_address = a\<rparr>, s\<lparr>bi_recv := rest\<rparr>)"
proof -
  from common_format_encode [OF assms(2)]
  have "decode_address (rfc1928_address a) = Ok (a, length (encode_address [] a))"
    using decode_encode_address [of a "[]"] by simp
  then show ?thesis
    using assms by (subst read_request_rfc) (auto split: address.splits)
qed

theorem socks5_reads_rfc_requests_witness:
  "fst (read_request \<lparr>bi_recv = rfc1928_request CMD_CONNECT (Domain (lit ''hydr.example'') 443) @ [22, 3],
       bi_read_error = [], bi_sent = [], bi_write_error = None\<rparr>) =
   Ok \<lparr>sr_cmd = CMD_CONNECT, sr_address = Domain (lit ''hydr.example'') 443\<rparr>"
proof -
  have "valid_utf8 (lit ''hydr.example'')" by code_simp
  then show ?thesis
    by (subst socks5_reads_rfc_requests [where rest = "[22, 3]"]) simp_all
qed

text \<open>
  Every request for an IPv6 address (type 4) is refused, and so is every one for a domain of 65
  to 255 bytes: hydr's own address format has type 2 for IPv6 and reads the length byte as a varint.
\<close>

theorem socks5_misses_ipv6_and_long_domains:
  assumes "bi_recv s = rfc1928_request cmd a @ rest"
    and "foreign_format a"
  shows "\<exists>e. read_request s = (Fail e, s\<lparr>bi_recv := rest\<rparr>)"
proof (cases a rule: rfc1928_address.cases)
  case (2 ip p)
  then have "decode_address (rfc1928_address a) = Fail (InvalidData (lit ''bad address type''))"
    by (simp add: decode_address_eq)
  with assms 2 show ?thesis by (subst read_request_rfc) auto
next
  case (3 d p)
  with assms(2) have "decode_address (rfc1928_address a) = Fail UnexpectedEof"
    using decode_long_domain [of d p] by simp
  with assms 3 show ?thesis by (subst read_request_rfc) auto
qed (use assms(2) in simp)

theorem socks5_misses_ipv6_and_long_domains_witness:
  "\<exists>e. fst (read_request \<lparr>bi_recv = rfc1928_request CMD_CONNECT (Ip (V6 1) 443) @ [22, 3],
       bi_read_error = [], bi_sent = [], bi_write_error = None\<rparr>) = Fail e"
proof -
  let ?s = "\<lparr>bi_recv = rfc1928_request CMD_CONNECT (Ip (V6 1) 443) @ [22, 3],
       bi_read_error = [], bi_sent = [], bi_write_error = None\<rparr>"
  have "\<exists>e. read_request ?s = (Fail e, ?s\<lparr>bi_recv := [22, 3]\<rparr>)"
    by (rule socks5_misses_ipv6_and_long_domains [where a = "Ip (V6 1) 443"]) simp_all
  then show ?thesis by auto
qed

text \<open>
  A domain of exactly 64 bytes can be taken for another host and port: with the digit 4 in
  front, the name and the port are cut out of the middle of the requested name.
\<close>

theorem socks5_domain_misread:
  "let d = CHR ''4'' # replicate 63 (CHR ''a'') in
   fst (read_request \<lparr>bi_recv = rfc1928_request CMD_CONNECT (Domain (lit d) 443),
       bi_read_error = [], bi_sent = [], bi_write_error = None\<rparr>) =
   Ok \<lparr>sr_cmd = CMD_CONNECT, sr_address = Domain (lit (replicate 52 (CHR ''a''))) 0x6161\<rparr>"
proof -
  let ?a = "Domain (lit (CHR ''4'' # replicate 63 (CHR ''a''))) 443"
  have v: "decode_varint (64 # 52 # t) = Ok (52, 2)" for t
    by (simp add: decode_varint_def get_or_eof_def slice_range_def Let_def shift_in_def)
  have "rfc1928_address ?a = 3 # 64 # 52 # replicate 63 0x61 @ [1, 187]"
    by (simp add: lit_def of_char_def) code_simp
  moreover have "from_utf8_lossy (replicate 52 0x61) = replicate 52 0x61"
    by (intro from_utf8_lossy_valid valid_utf8_ascii) (simp add: list_all_iff)
  ultimately have "decode_address (rfc1928_address ?a) = Ok (Domain (replicate 52 0x61) 0x6161, 57)"
    by (simp add: decode_address_eq v Let_def nth_append from_be_def shift_in_def)
  then show ?thesis
    unfolding Let_def by (subst read_request_rfc [where a = ?a and cmd = CMD_CONNECT and rest = "[]"]) (simp_all add: lit_def)
qed

end
