(* ===== verification/Udp_Relay.thy ===== *)
theory Udp_Relay
  imports Socks5 "HOL-Library.Finite_Map"
begin

section \<open>The client's UDP relay\<close>

text \<open>
  \<open>src/crates/hydr-client/src/udp_relay.rs\<close>. Every SOCKS5 UDP association gets a loopback socket
  and a session number; a task per session forwards the packets of the socket into the tunnel, and
  \<open>route_reply\<close> brings the answers back. A socket is named by the address it is bound to. What the
  system does (binding, the tunnel accepting a datagram, the TCP connection) are arguments.
\<close>

record relay_session =
  rl_socket :: socket_addr
  rl_client :: "socket_addr option"

record udp_relay =
  ur_sessions :: "(u32, relay_session) fmap"
  ur_next_session :: u32

definition udp_relay_new :: udp_relay where
  "udp_relay_new = \<lparr>ur_sessions = fmempty, ur_next_session = 1\<rparr>"

subsection \<open>The operations\<close>

text \<open>
  \<open>associate\<close> up to the spawning of the task: \<open>local\<close> is the outcome of binding, the answer is
  written on the TCP connection. The entry is in the table by then, so looking it up cannot fail.
\<close>

definition associate ::
  "socket_addr result \<Rightarrow> udp_relay \<Rightarrow> bi_stream \<Rightarrow> (u32 result \<times> udp_relay) \<times> bi_stream" where
  "associate bound r tcp =
     (case bound of
        Inl e \<Rightarrow> ((Inl e, r), tcp)
      | Inr addr \<Rightarrow>
          let sid = ur_next_session r;
              r = r\<lparr>ur_next_session := sid + 1,
                    ur_sessions := fmupd sid \<lparr>rl_socket = addr, rl_client = None\<rparr> (ur_sessions r)\<rparr>;
              resp = encode_address [5, 0, 0] (Ip (fst addr) (snd addr))
          in case write_all resp tcp of
               (Inl e, tcp) \<Rightarrow> ((Inl e, r), tcp)
             | (Inr _, tcp) \<Rightarrow> ((Ok sid, r), tcp))"

definition remove_relay :: "u32 \<Rightarrow> udp_relay \<Rightarrow> udp_relay" where
  "remove_relay sid r = r\<lparr>ur_sessions := fmdrop sid (ur_sessions r)\<rparr>"

text \<open>
  The task of session \<open>sid\<close> on one packet: whether its loop goes on (it ends by removing the
  session), the datagram it handed to the tunnel, the new state.
\<close>

definition relay_packet ::
  "(datagram \<Rightarrow> unit result) \<Rightarrow> u32 \<Rightarrow> bytes \<Rightarrow> socket_addr \<Rightarrow> udp_relay
     \<Rightarrow> (bool \<times> datagram option \<times> udp_relay) result" where
  "relay_packet send sid buf from r =
     (case parse_udp_packet buf of
        Inl Panic \<Rightarrow> Crash
      | Inl (Err _) \<Rightarrow> Ok (True, None, r)
      | Inr (target, payload) \<Rightarrow>
          (case fmlookup (ur_sessions r) sid of
             None \<Rightarrow> Crash
           | Some s \<Rightarrow>
               let ca = (if rl_client s = None then Some from else rl_client s);
                   r = r\<lparr>ur_sessions := fmupd sid (s\<lparr>rl_client := ca\<rparr>) (ur_sessions r)\<rparr>;
                   dg = datagram_new sid target payload
               in case send dg of
                    Inr _ \<Rightarrow> Ok (True, Some dg, r)
                  | Inl (Err _) \<Rightarrow> Ok (False, None, remove_relay sid r)
                  | Inl Panic \<Rightarrow> Crash))"

text \<open>The packet a reply becomes, with the socket it leaves from and its destination.\<close>

definition route_reply :: "datagram \<Rightarrow> udp_relay \<Rightarrow> (socket_addr \<times> bytes \<times> socket_addr) option" where
  "route_reply dg r =
     (case fmlookup (ur_sessions r) (dg_session_id dg) of
        None \<Rightarrow> None
      | Some s \<Rightarrow>
          (case rl_client s of
             None \<Rightarrow> None
           | Some addr \<Rightarrow>
               let pkt = encode_address [0, 0, 0] (dg_address dg) @ dg_payload dg
               in Some (rl_socket s, pkt, addr)))"

subsection \<open>The relay at work\<close>

text \<open>
  What can happen to the relay: a new association, a packet at the socket of a session whose task
  runs (\<open>ok\<close>: the tunnel takes the datagram), a failing socket, a reply from the tunnel, and the end
  of the TCP connection of an association. For the last one the code does nothing.
\<close>

datatype relay_event =
    Associated socket_addr
  | Packet u32 bytes socket_addr bool
  | Socket_failed u32
  | Reply datagram
  | Tcp_closed u32

datatype relay_effect = To_tunnel datagram | To_client u32 socket_addr bytes socket_addr

fun relay_step :: "relay_event \<Rightarrow> udp_relay \<Rightarrow> (relay_effect list \<times> udp_relay) option" where
  "relay_step (Associated addr) r =
     Some ([], snd (fst (associate (Ok addr) r
       \<lparr>bi_recv = [], bi_read_error = [], bi_sent = [], bi_write_error = None\<rparr>)))"
| "relay_step (Packet sid buf from ok) r =
     (if sid |\<in>| fmdom (ur_sessions r) then
        case relay_packet (\<lambda>dg. if ok then Ok () else Fail StreamClosed) sid buf from r of
          Inr (go_on, dg, r) \<Rightarrow> Some (case dg of None \<Rightarrow> [] | Some dg \<Rightarrow> [To_tunnel dg], r)
        | Inl _ \<Rightarrow> None
      else None)"
| "relay_step (Socket_failed sid) r = Some ([], remove_relay sid r)"
| "relay_step (Reply dg) r =
     Some (case route_reply dg r of None \<Rightarrow> [] | Some (socket, pkt, addr) \<Rightarrow> [To_client (dg_session_id dg) socket pkt addr], r)"
| "relay_step (Tcp_closed sid) r = Some ([], r)"

fun relay_run :: "relay_event list \<Rightarrow> udp_relay \<Rightarrow> (relay_effect list \<times> udp_relay) option" where
  "relay_run [] r = Some ([], r)"
| "relay_run (e # es) r =
     (case relay_step e r of
        None \<Rightarrow> None
      | Some (effs, r) \<Rightarrow>
          (case relay_run es r of None \<Rightarrow> None | Some (effs', r) \<Rightarrow> Some (effs @ effs', r)))"

text \<open>The session numbers the associations of a run will get.\<close>

fun new_sids :: "u32 \<Rightarrow> relay_event list \<Rightarrow> u32 list" where
  "new_sids next [] = []"
| "new_sids next (Associated _ # es) = next # new_sids (next + 1) es"
| "new_sids next (_ # es) = new_sids next es"

subsection \<open>Lemmas\<close>

lemma fmlookup_remove_relay [simp]:
  "fmlookup (ur_sessions (remove_relay sid r)) k = (if k = sid then None else fmlookup (ur_sessions r) k)"
  by (simp add: remove_relay_def)

lemma ur_next_remove_relay [simp]: "ur_next_session (remove_relay sid r) = ur_next_session r"
  by (simp add: remove_relay_def)

lemma relay_step_associated:
  "relay_step (Associated addr) r =
     Some ([], r\<lparr>ur_next_session := ur_next_session r + 1,
       ur_sessions := fmupd (ur_next_session r) \<lparr>rl_socket = addr, rl_client = None\<rparr> (ur_sessions r)\<rparr>)"
  by (simp add: associate_def Let_def write_all_def)

text \<open>A session that has its client keeps it, as long as it exists.\<close>

definition pinned :: "u32 \<Rightarrow> relay_session \<Rightarrow> udp_relay \<Rightarrow> bool" where
  "pinned sid s r \<longleftrightarrow> fmlookup (ur_sessions r) sid \<in> {None, Some s} \<and> rl_client s \<noteq> None"

lemma relay_step_pinned:
  assumes p: "pinned sid s r" and step: "relay_step e r = Some (effs, r')"
    and fresh: "sid \<notin> set (new_sids (ur_next_session r) [e])"
  shows "pinned sid s r' \<and>
    (\<forall>socket pkt addr. To_client sid socket pkt addr \<in> set effs \<longrightarrow>
       socket = rl_socket s \<and> Some addr = rl_client s)"
proof (cases e)
  case (Associated addr)
  with assms show ?thesis
    by (auto simp: relay_step_associated pinned_def simp del: relay_step.simps)
next
  case (Packet k buf src ok)
  with assms show ?thesis
    by (auto simp: relay_packet_def pinned_def Let_def split: if_splits sum.splits failure.splits option.splits)
next
  case (Reply dg)
  with assms show ?thesis
    by (auto simp: route_reply_def pinned_def Let_def split: option.splits)
next
  case (Socket_failed k)
  with assms show ?thesis by (auto simp: pinned_def split: if_splits)
next
  case (Tcp_closed k)
  with assms show ?thesis by (auto simp: pinned_def)
qed

lemma relay_step_next:
  "relay_step e r = Some (effs, r') \<Longrightarrow>
     new_sids (ur_next_session r) (e # es) = new_sids (ur_next_session r) [e] @ new_sids (ur_next_session r') es"
  by (cases e) (auto simp: relay_step_associated relay_packet_def Let_def simp del: relay_step.simps(1)
      split: if_splits sum.splits failure.splits option.splits)

lemma relay_run_pinned:
  "pinned sid s r \<Longrightarrow> relay_run es r = Some (effs, r') \<Longrightarrow>
     sid \<notin> set (new_sids (ur_next_session r) es) \<Longrightarrow>
     To_client sid socket pkt addr \<in> set effs \<Longrightarrow> socket = rl_socket s \<and> Some addr = rl_client s"
proof (induction es arbitrary: r effs)
  case (Cons e es)
  from Cons.prems(2) obtain effs1 r1 effs2 where step: "relay_step e r = Some (effs1, r1)"
    and run: "relay_run es r1 = Some (effs2, r')" and effs: "effs = effs1 @ effs2"
    by (auto split: option.splits)
  from Cons.prems(3) have fresh: "sid \<notin> set (new_sids (ur_next_session r) [e])"
    "sid \<notin> set (new_sids (ur_next_session r1) es)"
    using relay_step_next [OF step, of es] by simp_all
  from relay_step_pinned [OF Cons.prems(1) step fresh(1)]
  have "pinned sid s r1" and now: "\<And>socket pkt addr. To_client sid socket pkt addr \<in> set effs1 \<Longrightarrow>
     socket = rl_socket s \<and> Some addr = rl_client s" by blast+
  from Cons.prems(4) have "To_client sid socket pkt addr \<in> set effs1 \<union> set effs2"
    by (simp add: effs)
  then show ?case using now Cons.IH [OF \<open>pinned sid s r1\<close> run fresh(2)] by blast
qed simp

lemma parse_udp_packet_rfc:
  assumes "common_format a" "length (rfc1928_udp a payload) \<le> isize_max"
  shows "parse_udp_packet (rfc1928_udp a payload) = Ok (a, payload)"
  using parse_udp_packet_reply [of a payload] common_format_encode [OF assms(1)] assms(2)
  by (simp add: rfc1928_udp_def)

subsection \<open>Properties\<close>

text \<open>
  (C17) The first sender owns a session: from the first well-formed packet of a session on, every
  reply for it leaves from the session's own socket and goes to the sender of that packet, whatever
  other packets, sessions and replies follow, until the 32-bit session number is used again.
\<close>

theorem relay_replies_to_first_sender:
  assumes "fmlookup (ur_sessions r) sid = Some \<lparr>rl_socket = sock, rl_client = None\<rparr>"
    and "parse_udp_packet buf = Ok (target, payload)"
    and "relay_run (Packet sid buf from ok # es) r = Some (effs, r')"
    and "sid \<notin> set (new_sids (ur_next_session r) es)"
    and "To_client sid socket pkt addr \<in> set effs"
  shows "socket = sock \<and> addr = from"
proof -
  from assms(3) obtain effs1 r1 effs2 where step: "relay_step (Packet sid buf from ok) r = Some (effs1, r1)"
    and run: "relay_run es r1 = Some (effs2, r')" and effs: "effs = effs1 @ effs2"
    by (auto simp del: relay_step.simps split: option.splits)
  let ?s = "\<lparr>rl_socket = sock, rl_client = Some from\<rparr>"
  from step assms(1,2) have "pinned sid ?s r1" "ur_next_session r1 = ur_next_session r"
    "To_client sid socket pkt addr \<notin> set effs1"
    by (auto simp: relay_packet_def pinned_def Let_def split: if_splits option.splits)
  with relay_run_pinned [OF this(1) run] assms(4,5) show ?thesis by (auto simp: effs)
qed

theorem relay_replies_to_first_sender_witness:
  "\<exists>effs r'. relay_run
      [Packet 1 (rfc1928_udp (Ip (V4 9) 53) [7]) (V4 1, 5000) True,
       Packet 1 (rfc1928_udp (Ip (V4 9) 53) [7]) (V4 2, 6000) True, Reply (datagram_new 1 (Ip (V4 9) 53) [8])]
      (snd (the (relay_step (Associated (V4 1, 4000)) udp_relay_new))) = Some (effs, r') \<and>
    (\<forall>socket pkt addr. To_client 1 socket pkt addr \<in> set effs \<longrightarrow> addr = (V4 1, 5000)) \<and>
    (\<exists>socket pkt. To_client 1 socket pkt (V4 1, 5000) \<in> set effs)"
proof -
  let ?r = "snd (the (relay_step (Associated (V4 1, 4000)) udp_relay_new))"
  let ?p = "rfc1928_udp (Ip (V4 9) 53) [7]"
  let ?es = "[Packet 1 ?p (V4 2, 6000) True, Reply (datagram_new 1 (Ip (V4 9) 53) [8])]"
  have r: "?r = \<lparr>ur_sessions = fmupd 1 \<lparr>rl_socket = (V4 1, 4000), rl_client = None\<rparr> fmempty, ur_next_session = 2\<rparr>"
    by (simp add: relay_step_associated udp_relay_new_def del: relay_step.simps)
  have p: "parse_udp_packet ?p = Ok (Ip (V4 9) 53, [7])"
    by (rule parse_udp_packet_rfc) (simp, rule small_isize, code_simp)
  obtain effs r' where run: "relay_run (Packet 1 ?p (V4 1, 5000) True # ?es) ?r = Some (effs, r')"
    and out: "\<exists>socket pkt. To_client 1 socket pkt (V4 1, 5000) \<in> set effs"
    unfolding r by (simp add: relay_packet_def p Let_def route_reply_def datagram_new_def)
  have "addr = (V4 1, 5000)" if "To_client 1 socket pkt addr \<in> set effs" for socket pkt addr
    by (rule relay_replies_to_first_sender [OF _ p run _ that, THEN conjunct2]) (simp_all only: r, simp_all)
  with run out show ?thesis by blast
qed

text \<open>
  The end of the TCP connection of an association has no effect, although RFC 1928 ends the
  association with it: every run goes on as if the connection had stayed open.
\<close>

theorem relay_ignores_tcp_close:
  "relay_run (filter (\<lambda>e. \<not> (\<exists>sid. e = Tcp_closed sid)) es) r = relay_run es r"
proof (induction es arbitrary: r)
  case (Cons e es)
  then show ?case by (cases e) (auto split: option.splits prod.splits)
qed simp

text \<open>
  Both directions of an association speak the format of RFC 1928 for IPv4 addresses and domains
  below 64 bytes: a packet is forwarded with its target and payload, and an answer reaches the
  client behind the header the RFC prescribes.
\<close>

theorem relay_speaks_rfc:
  assumes "common_format a" and "length (rfc1928_udp a payload) \<le> isize_max"
    and "fmlookup (ur_sessions r) sid = Some s" and "rl_client s = Some client"
  shows "(\<exists>r'. relay_step (Packet sid (rfc1928_udp a payload) from True) r =
      Some ([To_tunnel (datagram_new sid a payload)], r')) \<and>
    relay_step (Reply (datagram_new sid a payload)) r =
      Some ([To_client sid (rl_socket s) (rfc1928_udp a payload) client], r)"
  using assms parse_udp_packet_rfc [OF assms(1,2)] common_format_encode [OF assms(1)]
  by (auto simp: relay_packet_def route_reply_def datagram_new_def Let_def rfc1928_udp_def
      encode_address_append [of "[0, 0, 0]"] fmlookup_dom_iff)

theorem relay_speaks_rfc_witness:
  "relay_step (Reply (datagram_new 1 (Ip (V4 9) 53) [8]))
     \<lparr>ur_sessions = fmupd 1 \<lparr>rl_socket = (V4 1, 4000), rl_client = Some (V4 1, 5000)\<rparr> fmempty,
      ur_next_session = 2\<rparr> =
   Some ([To_client 1 (V4 1, 4000) [0, 0, 0, 1, 0, 0, 0, 9, 0, 53, 8] (V4 1, 5000)],
     \<lparr>ur_sessions = fmupd 1 \<lparr>rl_socket = (V4 1, 4000), rl_client = Some (V4 1, 5000)\<rparr> fmempty,
      ur_next_session = 2\<rparr>)"
proof -
  have "length (rfc1928_udp (Ip (V4 9) 53) [8]) \<le> isize_max"
    by (rule small_isize) code_simp
  moreover have "rfc1928_udp (Ip (V4 9) 53) [8] = [0, 0, 0, 1, 0, 0, 0, 9, 0, 53, 8]" by code_simp
  ultimately show ?thesis
    using relay_speaks_rfc [of "Ip (V4 9) 53" "[8]"
        "\<lparr>ur_sessions = fmupd 1 \<lparr>rl_socket = (V4 1, 4000), rl_client = Some (V4 1, 5000)\<rparr> fmempty,
          ur_next_session = 2\<rparr>" 1] by simp
qed

end
