(* ===== verification/Frames.thy ===== *)
theory Frames
  imports Wire_Reader
begin

section \<open>Frames\<close>

text \<open>
  \<open>src/crates/hydr-core/src/frame.rs\<close>: the frames a WebSocket tunnel multiplexes its streams
  with. A frame is a stream number, a type byte and a length-prefixed body of at most 64 KiB.
\<close>

subsection \<open>Constants\<close>

definition FRAME_OPEN_STREAM :: u8 where [code_consts]: "FRAME_OPEN_STREAM = 0x01"
definition FRAME_OPEN_STREAM_ACK :: u8 where [code_consts]: "FRAME_OPEN_STREAM_ACK = 0x02"
definition FRAME_STREAM_DATA :: u8 where [code_consts]: "FRAME_STREAM_DATA = 0x03"
definition FRAME_STREAM_CLOSE :: u8 where [code_consts]: "FRAME_STREAM_CLOSE = 0x04"
definition FRAME_DATAGRAM :: u8 where [code_consts]: "FRAME_DATAGRAM = 0x05"
definition FRAME_PING :: u8 where [code_consts]: "FRAME_PING = 0x06"
definition FRAME_PONG :: u8 where [code_consts]: "FRAME_PONG = 0x07"
definition FRAME_AUTH_REQUEST :: u8 where [code_consts]: "FRAME_AUTH_REQUEST = 0x08"
definition FRAME_AUTH_RESPONSE :: u8 where [code_consts]: "FRAME_AUTH_RESPONSE = 0x09"
definition FRAME_SESSION_CLOSE :: u8 where [code_consts]: "FRAME_SESSION_CLOSE = 0x0a"
definition FRAME_STREAM_CREDIT :: u8 where [code_consts]: "FRAME_STREAM_CREDIT = 0x0b"
definition CONTROL_STREAM :: u64 where [code_consts]: "CONTROL_STREAM = 0"
definition MAX_BODY_LEN :: nat where [code_consts]: "MAX_BODY_LEN = 64 * 1024"

definition max_frame_len :: nat where
  "max_frame_len = MAX_VARINT + 1 + MAX_VARINT + MAX_BODY_LEN"

subsection \<open>\<open>Frame\<close>\<close>

record frame =
  fr_stream_id :: u64
  fr_frame_type :: u8
  fr_body :: bytes

definition frame_new :: "u64 \<Rightarrow> u8 \<Rightarrow> bytes \<Rightarrow> frame" where
  "frame_new stream_id frame_type body =
     \<lparr>fr_stream_id = stream_id, fr_frame_type = frame_type, fr_body = body\<rparr>"

definition frame_data :: "u64 \<Rightarrow> bytes \<Rightarrow> frame" where
  "frame_data stream_id body = frame_new stream_id FRAME_STREAM_DATA body"

definition frame_ping :: frame where
  "frame_ping = frame_new CONTROL_STREAM FRAME_PING []"

definition encode_frame :: "bytes \<Rightarrow> frame \<Rightarrow> bytes" where
  "encode_frame buf self =
     (let buf = encode_varint buf (fr_stream_id self);
          buf = buf @ [fr_frame_type self];
          buf = encode_varint buf (of_nat (length (fr_body self)));
          buf = buf @ fr_body self
      in buf)"

definition decode_frame :: "bytes \<Rightarrow> (frame \<times> nat) result" where
  "decode_frame buf =
     and_then (decode_varint buf) (\<lambda>(stream_id, used).
       let pos = used in
       and_then (get_or_eof buf pos) (\<lambda>frame_type.
       and_then (usize_add pos 1) (\<lambda>pos.
       and_then (slice_from buf pos) (\<lambda>tail.
       and_then (decode_varint tail) (\<lambda>(body_len, used2).
       and_then (usize_add pos used2) (\<lambda>pos.
       let body_len = unat body_len in
       if body_len > MAX_BODY_LEN then Fail (InvalidData (lit ''frame body too large''))
       else (case usize_checked_add pos body_len of
           None \<Rightarrow> Fail (InvalidData (lit ''frame length overflow''))
         | Some end \<Rightarrow>
             if length buf < end then Fail UnexpectedEof
             else and_then (slice_range buf pos end) (\<lambda>body.
               Ok (\<lparr>fr_stream_id = stream_id, fr_frame_type = frame_type, fr_body = body\<rparr>,
                   end)))))))))"

subsection \<open>The decoder as a sequence of reader steps\<close>

definition frame_body :: "u64 \<Rightarrow> bytes reading" where
  "frame_body v =
     (if unat v > MAX_BODY_LEN then (\<lambda>rd. Fail (InvalidData (lit ''frame body too large'')))
      else take_bytes v)"

definition read_frame :: "frame reading" where
  "read_frame =
     read_then reader_varint (\<lambda>stream_id.
     read_then reader_u8 (\<lambda>frame_type.
     read_then (read_then reader_varint frame_body) (\<lambda>body.
       read_return \<lparr>fr_stream_id = stream_id, fr_frame_type = frame_type, fr_body = body\<rparr>)))"

lemma well_behaved_frame_body: "well_behaved (frame_body v)"
proof (cases "unat v > MAX_BODY_LEN")
  case True
  then show ?thesis by (simp add: frame_body_def well_behaved_def)
next
  case False
  then have "v < 2 ^ 62" by (simp add: code_consts word_less_nat_alt)
  with False show ?thesis by (simp add: frame_body_def well_behaved_take_bytes)
qed

lemma well_behaved_frame: "well_behaved read_frame"
  unfolding read_frame_def
  by (intro well_behaved_steps well_behaved_frame_body)

lemma decode_frame_reader:
  assumes len: "length buf \<le> isize_max"
  shows "decode_frame buf = run_reader read_frame buf"
proof (cases "decode_varint buf")
  case (Inl e)
  then show ?thesis
    by (simp add: decode_frame_def run_reader_def read_frame_def read_then_def reader_varint_def
        reader_new_def slice_from_def)
next
  case (Inr p)
  then obtain sid n where p: "decode_varint buf = Ok (sid, n)" by (cases p) simp
  have n: "n \<le> length buf" using decode_varint_value [OF p] by simp
  show ?thesis
  proof (cases "decode_varint (drop (Suc n) buf)")
    case (Inl e)
    then show ?thesis using p n len
      by (simp add: decode_frame_def run_reader_def read_frame_def read_then_def reader_varint_def
          reader_u8_def reader_new_def access_defs isize_max_def usize_max_def)
  next
    case (Inr q)
    then obtain v m where q: "decode_varint (drop (Suc n) buf) = Ok (v, m)" by (cases q) simp
    have m: "m \<le> length buf - Suc n" using decode_varint_value [OF q] by simp
    show ?thesis using p q n m len
      by (auto simp: decode_frame_def run_reader_def read_frame_def read_then_def reader_varint_def
          reader_u8_def reader_new_def access_defs isize_max_def usize_max_def frame_body_def
          take_bytes_def usize_checked_add_def code_consts Let_def read_return_def)
  qed
qed


subsection \<open>The frame codec\<close>

definition wf_frame :: "frame \<Rightarrow> bool" where
  "wf_frame f \<longleftrightarrow> fr_stream_id f < 2 ^ 62 \<and> length (fr_body f) \<le> MAX_BODY_LEN"

lemma encode_frame_append:
  "encode_frame buf f =
     buf @ encode_varint [] (fr_stream_id f) @ [fr_frame_type f] @ encode_bytes (fr_body f)"
  unfolding encode_frame_def Let_def encode_varint_bytes encode_varint_append [of buf] append_assoc ..

lemma body_len_less: "length (fr_body f) \<le> MAX_BODY_LEN \<Longrightarrow> length (fr_body f) < 2 ^ 62"
  by (simp add: code_consts)

lemma reads_frame_body:
  "length bs \<le> MAX_BODY_LEN \<Longrightarrow> reads (frame_body (of_nat (length bs))) bs bs"
  by (simp add: frame_body_def unat_of_nat_length reads_take_bytes code_consts)

lemma reads_frame:
  assumes "wf_frame f"
  shows "reads read_frame f (encode_frame [] f)"
proof -
  from assms have sid: "fr_stream_id f < 2 ^ 62" and len: "length (fr_body f) \<le> MAX_BODY_LEN"
    by (simp_all add: wf_frame_def)
  have eq: "encode_frame [] f = encode_varint [] (fr_stream_id f) @ [fr_frame_type f] @
      (encode_varint [] (of_nat (length (fr_body f))) @ fr_body f) @ []"
    by (simp add: encode_frame_append encode_bytes_def)
  have body: "reads (read_then reader_varint frame_body) (fr_body f)
      (encode_varint [] (of_nat (length (fr_body f))) @ fr_body f)"
    by (rule reads_then [where g = frame_body, OF reads_varint [OF of_nat_length_less
          [OF body_len_less [OF len]]] reads_frame_body [OF len]])
  have "reads read_frame
      \<lparr>fr_stream_id = fr_stream_id f, fr_frame_type = fr_frame_type f, fr_body = fr_body f\<rparr>
      (encode_frame [] f)"
    unfolding read_frame_def eq
    by (rule reads_then, rule reads_varint [OF sid], rule reads_then, rule reads_u8,
        rule reads_then, rule body, rule reads_return)
  then show ?thesis by (cases f) simp
qed

interpretation frame_reader: prefix_codec "encode_frame []" "run_reader read_frame" wf_frame
  by (rule run_reader_codec [OF well_behaved_frame reads_frame])

interpretation frame_codec: prefix_codec "encode_frame []" decode_frame wf_frame
  using frame_reader.decode_encode frame_reader.decode_bound frame_reader.decode_no_panic
    frame_reader.decode_extend
  by unfold_locales (simp_all add: decode_frame_reader)

lemma length_encode_frame: "wf_frame f \<Longrightarrow> length (encode_frame [] f) \<le> isize_max"
  using encode_varint_len_bounds [of "fr_stream_id f"] encode_varint_len_bounds [of "of_nat (length (fr_body f))"]
  by (simp add: encode_frame_append encode_bytes_def wf_frame_def encode_varint_len_eq code_consts isize_max_def)

lemma decode_frame_body_bound:
  assumes "decode_frame buf = Ok (f, n)"
  shows "length (fr_body f) \<le> MAX_BODY_LEN"
  using assms
  by (auto simp: decode_frame_def Let_def access_defs usize_checked_add_def
      split: if_splits option.splits)


lemma decode_frame_oversize:
  assumes "sid < 2 ^ 62" "v < 2 ^ 62" "unat v > MAX_BODY_LEN"
    and len: "length (encode_varint [] sid @ [t] @ encode_varint [] v @ rest) \<le> isize_max"
  shows "decode_frame (encode_varint [] sid @ [t] @ encode_varint [] v @ rest)
     = Fail (InvalidData (lit ''frame body too large''))"
proof -
  let ?b = "encode_varint [] sid @ [t] @ encode_varint [] v @ rest"
  have "reader_varint (reader_new ?b) = Ok (sid, \<lparr>rd_buf = ?b, rd_pos = length (encode_varint [] sid)\<rparr>)"
    using readsD [OF reads_varint [OF assms(1)], of "[]" "[t] @ encode_varint [] v @ rest"] len
    by (simp add: reader_new_def)
  moreover have "reader_u8 \<lparr>rd_buf = ?b, rd_pos = length (encode_varint [] sid)\<rparr>
      = Ok (t, \<lparr>rd_buf = ?b, rd_pos = length (encode_varint [] sid @ [t])\<rparr>)"
    using readsD [OF reads_u8, of "encode_varint [] sid" t "encode_varint [] v @ rest"] len by simp
  moreover have "reader_varint \<lparr>rd_buf = ?b, rd_pos = length (encode_varint [] sid @ [t])\<rparr>
      = Ok (v, \<lparr>rd_buf = ?b, rd_pos = length (encode_varint [] sid @ [t] @ encode_varint [] v)\<rparr>)"
    using readsD [OF reads_varint [OF assms(2)], of "encode_varint [] sid @ [t]" rest] len by simp
  ultimately show ?thesis
    using assms(3) len
    by (simp add: decode_frame_reader run_reader_def read_frame_def read_then_def frame_body_def)
qed

subsection \<open>Properties\<close>

text \<open>
  (C24) A frame decodes to itself in front of anything: several frames can be written to one
  buffer and read back one after the other.
\<close>

theorem frame_roundtrip:
  assumes "wf_frame f" and "length (encode_frame [] f @ rest) \<le> isize_max"
  shows "decode_frame (encode_frame [] f @ rest) = Ok (f, length (encode_frame [] f))"
  by (rule frame_codec.decode_encode_rest [OF assms])

theorem frame_roundtrip_witness:
  "decode_frame (encode_frame [] (frame_data 5 [1, 2, 3]) @ encode_frame [] frame_ping)
     = Ok (frame_data 5 [1, 2, 3], length (encode_frame [] (frame_data 5 [1, 2, 3])))"
  by (rule frame_roundtrip)
    (simp add: wf_frame_def frame_data_def frame_new_def code_consts, rule small_isize, code_simp)

text \<open>
  The denial-of-service guard: a frame that announces a body above 64 KiB is refused on its
  header alone, whatever follows, and no accepted frame carries a larger body.
\<close>

theorem frame_body_limit:
  assumes "sid < 2 ^ 62" "v < 2 ^ 62" "unat v > MAX_BODY_LEN"
    and "length (encode_varint [] sid @ [t] @ encode_varint [] v @ rest) \<le> isize_max"
  shows "decode_frame (encode_varint [] sid @ [t] @ encode_varint [] v @ rest)
           = Fail (InvalidData (lit ''frame body too large''))
       \<and> (\<forall>buf f n. decode_frame buf = Ok (f, n) \<longrightarrow> length (fr_body f) \<le> MAX_BODY_LEN)"
  using decode_frame_oversize [OF assms] decode_frame_body_bound by blast

theorem frame_body_limit_witness:
  "decode_frame (encode_varint [] 1 @ [3] @ encode_varint [] 65537 @ [])
     = Fail (InvalidData (lit ''frame body too large''))"
  by (rule frame_body_limit [THEN conjunct1])
    (simp_all add: code_consts, rule small_isize, code_simp)

end
