(* ===== verification/Guards.thy ===== *)
theory Guards
  imports Main
begin

section \<open>Guards\<close>

text \<open>
  The replay filter, the nonce cache and the rate limiter are guards: they decide about the
  calls of an untrusted peer one after the other and remember something of each. Two contracts
  for them: never accepting a key twice, and deciding exactly as a specification that forgets
  nothing.
\<close>

subsection \<open>Runs\<close>

text \<open>The decisions a guard takes on a list of keys, and its state after them.\<close>

fun run_guard :: "('s \<Rightarrow> 'k \<Rightarrow> bool \<times> 's) \<Rightarrow> 's \<Rightarrow> 'k list \<Rightarrow> bool list \<times> 's" where
  "run_guard step s [] = ([], s)"
| "run_guard step s (k # ks) =
     (let (ok, s1) = step s k; (oks, s2) = run_guard step s1 ks in (ok # oks, s2))"

lemma run_guard_simps [simp]:
  "fst (run_guard step s (k # ks)) = fst (step s k) # fst (run_guard step (snd (step s k)) ks)"
  "snd (run_guard step s (k # ks)) = snd (run_guard step (snd (step s k)) ks)"
  by (simp_all add: split_beta Let_def)

declare run_guard.simps(2) [simp del]

lemma run_guard_append:
  "fst (run_guard step s (ks @ js)) = fst (run_guard step s ks) @ fst (run_guard step (snd (run_guard step s ks)) js)"
  "snd (run_guard step s (ks @ js)) = snd (run_guard step (snd (run_guard step s ks)) js)"
  by (induction ks arbitrary: s) simp_all

text \<open>The keys a run accepts.\<close>

definition accepted :: "('s \<Rightarrow> 'k \<Rightarrow> bool \<times> 's) \<Rightarrow> 's \<Rightarrow> 'k list \<Rightarrow> 'k list" where
  "accepted step s ks = map snd (filter fst (zip (fst (run_guard step s ks)) ks))"

lemma accepted_simps [simp]:
  "accepted step s [] = []"
  "accepted step s (k # ks) =
     (if fst (step s k) then k # accepted step (snd (step s k)) ks
      else accepted step (snd (step s k)) ks)"
  by (simp_all add: accepted_def)

subsection \<open>Never twice\<close>

text \<open>
  A guard decides about keys one after the other. \<open>spent s k\<close> says that the guard in state
  \<open>s\<close> refuses the key \<open>k\<close>. What its clients rely on: a key is accepted exactly when it is
  not spent, accepting it spends it, and nothing is ever un-spent.
\<close>

locale replay_guard =
  fixes step :: "'s \<Rightarrow> 'k \<Rightarrow> bool \<times> 's"
    and inv :: "'s \<Rightarrow> bool"
    and spent :: "'s \<Rightarrow> 'k \<Rightarrow> bool"
  assumes accepts_iff: "inv s \<Longrightarrow> fst (step s k) \<longleftrightarrow> \<not> spent s k"
    and step_inv: "inv s \<Longrightarrow> inv (snd (step s k))"
    and accept_spends: "inv s \<Longrightarrow> fst (step s k) \<Longrightarrow> spent (snd (step s k)) k"
    and spent_stays: "inv s \<Longrightarrow> spent s j \<Longrightarrow> spent (snd (step s k)) j"
begin

lemma run_inv: "inv s \<Longrightarrow> inv (snd (run_guard step s ks))"
  by (induction ks arbitrary: s) (simp_all add: step_inv)

lemma run_spent: "inv s \<Longrightarrow> spent s j \<Longrightarrow> spent (snd (run_guard step s ks)) j"
  by (induction ks arbitrary: s) (simp_all add: step_inv spent_stays)

lemma spent_not_accepted: "inv s \<Longrightarrow> spent s j \<Longrightarrow> j \<notin> set (accepted step s ks)"
  by (induction ks arbitrary: s) (auto simp: step_inv spent_stays accepts_iff)

lemma accepted_distinct: "inv s \<Longrightarrow> distinct (accepted step s ks)"
proof (induction ks arbitrary: s)
  case (Cons k ks)
  then show ?case
    using spent_not_accepted [of "snd (step s k)" k ks] by (simp add: step_inv accept_spends)
qed simp

text \<open>Once accepted, a key is refused however the guard is used in between.\<close>

lemma no_second_accept:
  assumes "inv s" "fst (step s k)"
  shows "\<not> fst (step (snd (run_guard step (snd (step s k)) ks)) k)"
  using assms by (simp add: accepts_iff run_inv run_spent step_inv accept_spends)

end

subsection \<open>Deciding as a specification\<close>

text \<open>
  \<open>ok t k\<close> is what the calls have to respect, seen from the specification's state \<open>t\<close>; for
  the guards that read the clock it is that time does not run backwards.
\<close>

fun calls_ok :: "('t \<Rightarrow> 'k \<Rightarrow> bool \<times> 't) \<Rightarrow> ('t \<Rightarrow> 'k \<Rightarrow> bool) \<Rightarrow> 't \<Rightarrow> 'k list \<Rightarrow> bool" where
  "calls_ok spec ok t [] = True"
| "calls_ok spec ok t (k # ks) = (ok t k \<and> calls_ok spec ok (snd (spec t k)) ks)"

lemma calls_ok_True: "calls_ok spec (\<lambda>t k. True) t ks"
  by (induction ks arbitrary: t) auto

locale guard_refinement =
  fixes step :: "'s \<Rightarrow> 'k \<Rightarrow> bool \<times> 's"
    and spec :: "'t \<Rightarrow> 'k \<Rightarrow> bool \<times> 't"
    and R :: "'s \<Rightarrow> 't \<Rightarrow> bool"
    and ok :: "'t \<Rightarrow> 'k \<Rightarrow> bool"
  assumes simulates:
    "R s t \<Longrightarrow> ok t k \<Longrightarrow> fst (step s k) = fst (spec t k) \<and> R (snd (step s k)) (snd (spec t k))"
begin

lemma same_decisions:
  "R s t \<Longrightarrow> calls_ok spec ok t ks \<Longrightarrow> fst (run_guard step s ks) = fst (run_guard spec t ks)"
  by (induction ks arbitrary: s t)
    (simp, simp add: simulates)

lemma related_after:
  "R s t \<Longrightarrow> calls_ok spec ok t ks \<Longrightarrow> R (snd (run_guard step s ks)) (snd (run_guard spec t ks))"
  by (induction ks arbitrary: s t)
    (simp, simp add: simulates)

end

subsection \<open>Time\<close>

text \<open>
  A specification that reads the clock keeps the time of its last call beside its history;
  \<open>timed\<close> adds that component, and the calls are pairs of a time and a key.
\<close>

definition timed :: "('h \<Rightarrow> nat \<times> 'k \<Rightarrow> bool \<times> 'h) \<Rightarrow> nat \<times> 'h \<Rightarrow> nat \<times> 'k \<Rightarrow> bool \<times> nat \<times> 'h" where
  "timed spec s call = (let (ok, h) = spec (snd s) call in (ok, fst call, h))"

definition forward :: "nat \<times> 'h \<Rightarrow> nat \<times> 'k \<Rightarrow> bool" where
  "forward s call \<longleftrightarrow> fst s \<le> fst call"

lemma timed_simps:
  "fst (timed spec s call) = fst (spec (snd s) call)"
  "snd (timed spec s call) = (fst call, snd (spec (snd s) call))"
  by (simp_all add: timed_def split_beta)

lemma calls_ok_forward:
  "calls_ok (timed spec) forward s calls \<longleftrightarrow> sorted (fst s # map fst calls)"
  by (induction calls arbitrary: s) (auto simp: forward_def timed_simps)

lemma run_timed:
  "fst (run_guard (timed spec) (t, h) calls) = fst (run_guard spec h calls)"
  by (induction calls arbitrary: t h)
    (simp, simp add: run_guard_simps timed_simps)

end
