(* ===== verification/Obfuscation.thy ===== *)
theory Obfuscation
  imports Messages Metrics Guards "HOL-Library.FSet"
begin

section \<open>Obfuscation and replay protection\<close>

text \<open>
  \<open>src/crates/hydr-core/src/obfuscation.rs\<close>. \<open>ReplayFilter\<close> is the sliding window of
  sequence numbers, \<open>Obfuscator\<close> masks and tags the WebSocket messages of a tunnel. BLAKE3
  is a parameter: \<open>hash m\<close> is the 32-byte hash of \<open>m\<close> (a \<open>Hasher\<close> fed in several
  updates hashes their concatenation) and \<open>keyed k m\<close> the keyed hash. The atomic send counter
  and the filter behind its lock are fields of the state an operation takes and returns. The
  \<open>u64\<close> arithmetic wraps, as in a release build.
\<close>

definition SALT_LEN :: nat where [code_consts]: "SALT_LEN = 8"

subsection \<open>\<open>ReplayFilter\<close>\<close>

record filter_inner =
  fi_last :: u64
  fi_floor :: u64
  fi_seen :: "u64 fset"
  fi_window :: u64

definition replay_filter_new :: "u64 \<Rightarrow> filter_inner" where
  "replay_filter_new window = \<lparr>fi_last = 0, fi_floor = 0, fi_seen = {||}, fi_window = window\<rparr>"

definition saturating_sub :: "'a::len word \<Rightarrow> 'a word \<Rightarrow> 'a word" where
  "saturating_sub a b = (if a < b then 0 else a - b)"

definition observe :: "filter_inner \<Rightarrow> u64 \<Rightarrow> bool \<times> filter_inner" where
  "observe g seq =
     (if seq < fi_floor g then (False, g)
      else if seq |\<in>| fi_seen g then (False, g)
      else
        let g = g\<lparr>fi_seen := finsert seq (fi_seen g)\<rparr>;
            g = (if seq > fi_last g
                 then g\<lparr>fi_last := seq, fi_floor := saturating_sub seq (fi_window g)\<rparr>
                 else g);
            g = (if of_nat (fcard (fi_seen g)) > fi_window g * 2
                 then g\<lparr>fi_seen := ffilter (\<lambda>x. x \<ge> fi_floor g) (fi_seen g)\<rparr>
                 else g)
        in (True, g))"

subsection \<open>\<open>Obfuscator\<close>\<close>

type_synonym hash_fn = "bytes \<Rightarrow> bytes"

record obfuscator =
  ob_key :: bytes
  ob_key32 :: bytes
  ob_send_seq :: u64
  ob_recv :: filter_inner

definition obfuscator_new :: "hash_fn \<Rightarrow> bytes \<Rightarrow> obfuscator" where
  "obfuscator_new hash key =
     \<lparr>ob_key = key, ob_key32 = hash key, ob_send_seq = 0, ob_recv = replay_filter_new (2 ^ 16)\<rparr>"

definition obfuscator_tag :: "keyed_hash_fn \<Rightarrow> obfuscator \<Rightarrow> bytes \<Rightarrow> bytes result" where
  "obfuscator_tag keyed self body = slice_range (keyed (ob_key32 self) body) 0 TAG_LEN"

text \<open>\<open>xor_in_place\<close>; an empty key stream would divide by zero, a panic.\<close>

fun xor_with :: "bytes \<Rightarrow> nat \<Rightarrow> bytes \<Rightarrow> bytes result" where
  "xor_with key_stream i [] = Ok []"
| "xor_with key_stream i (b # bs) =
     (if length key_stream = 0 then Crash
      else and_then (index key_stream (i mod length key_stream)) (\<lambda>k.
           and_then (xor_with key_stream (i + 1) bs) (\<lambda>rest. Ok ((b XOR k) # rest))))"

definition xor_in_place :: "hash_fn \<Rightarrow> obfuscator \<Rightarrow> bytes \<Rightarrow> bytes \<Rightarrow> bytes result" where
  "xor_in_place hash self buf salt = xor_with (hash (ob_key self @ salt)) 0 buf"

text \<open>\<open>random\<close> are the bytes \<open>getrandom::fill\<close> delivers; \<open>None\<close> is its failure, a panic.\<close>

definition encrypt ::
  "hash_fn \<Rightarrow> keyed_hash_fn \<Rightarrow> bytes option \<Rightarrow> obfuscator \<Rightarrow> bytes \<Rightarrow> (bytes \<times> obfuscator) result" where
  "encrypt hash keyed random self buf =
     (let seq = ob_send_seq self;
          self = self\<lparr>ob_send_seq := seq + 1\<rparr>;
          plaintext = be_bytes 8 seq @ buf
      in (case random of
            None \<Rightarrow> Crash
          | Some salt \<Rightarrow>
              and_then (xor_in_place hash self plaintext salt) (\<lambda>body.
              and_then (obfuscator_tag keyed self body) (\<lambda>tag.
                Ok (salt @ body @ tag, self)))))"

datatype outcome = OutcomeOk bytes | Replay | Invalid

definition decrypt_outcome ::
  "hash_fn \<Rightarrow> keyed_hash_fn \<Rightarrow> metrics \<Rightarrow> obfuscator \<Rightarrow> bytes
     \<Rightarrow> (outcome \<times> metrics \<times> obfuscator) result" where
  "decrypt_outcome hash keyed m self buf =
     (if length buf < SALT_LEN + TAG_LEN + 8
      then Ok (Invalid, m\<lparr>mt_obfus_invalid := mt_obfus_invalid m + 1\<rparr>, self)
      else
        let salt = take SALT_LEN buf; rest = drop SALT_LEN buf;
            body = take (length rest - TAG_LEN) rest; tag = drop (length rest - TAG_LEN) rest
        in and_then (obfuscator_tag keyed self body) (\<lambda>t.
             if t \<noteq> tag
             then Ok (Invalid, m\<lparr>mt_obfus_invalid := mt_obfus_invalid m + 1\<rparr>, self)
             else and_then (xor_in_place hash self body salt) (\<lambda>plain.
               let seq_bytes = take 8 plain; payload = drop 8 plain;
                   seq = from_be seq_bytes;
                   (fresh, recv) = observe (ob_recv self) seq;
                   self = self\<lparr>ob_recv := recv\<rparr>
               in if \<not> fresh
                  then Ok (Replay, m\<lparr>mt_obfus_replay_dropped := mt_obfus_replay_dropped m + 1\<rparr>, self)
                  else Ok (OutcomeOk payload, m, self))))"

definition decrypt ::
  "hash_fn \<Rightarrow> keyed_hash_fn \<Rightarrow> metrics \<Rightarrow> obfuscator \<Rightarrow> bytes
     \<Rightarrow> (bytes option \<times> metrics \<times> obfuscator) result" where
  "decrypt hash keyed m self buf =
     and_then (decrypt_outcome hash keyed m self buf) (\<lambda>(r, s).
       Ok (case r of OutcomeOk v \<Rightarrow> Some v | _ \<Rightarrow> None, s))"

subsection \<open>\<open>ReplayFilter\<close> is a replay guard\<close>

text \<open>The window hangs below the highest sequence number seen.\<close>

definition filter_inv :: "filter_inner \<Rightarrow> bool" where
  "filter_inv g \<longleftrightarrow> fi_floor g = saturating_sub (fi_last g) (fi_window g)"

definition filter_spent :: "filter_inner \<Rightarrow> u64 \<Rightarrow> bool" where
  "filter_spent g x \<longleftrightarrow> x < fi_floor g \<or> x |\<in>| fi_seen g"

lemma unat_saturating_sub: "unat (saturating_sub a b) = unat a - unat b"
  by (auto simp: saturating_sub_def word_less_nat_alt unat_sub_if')

lemma saturating_sub_mono: "a \<le> c \<Longrightarrow> saturating_sub a b \<le> saturating_sub c b"
  by (simp add: word_le_nat_alt unat_saturating_sub)

text \<open>The two branches of \<open>observe\<close>: refuse, or insert, advance and prune.\<close>

definition advanced :: "filter_inner \<Rightarrow> u64 \<Rightarrow> filter_inner" where
  "advanced g seq =
     g\<lparr>fi_seen := finsert seq (fi_seen g), fi_last := max seq (fi_last g),
       fi_floor := (if seq > fi_last g then saturating_sub seq (fi_window g) else fi_floor g)\<rparr>"

definition pruned :: "filter_inner \<Rightarrow> filter_inner" where
  "pruned g =
     (if of_nat (fcard (fi_seen g)) > fi_window g * 2
      then g\<lparr>fi_seen := ffilter (\<lambda>x. x \<ge> fi_floor g) (fi_seen g)\<rparr> else g)"

lemma observe_eq:
  "observe g seq = (if filter_spent g seq then (False, g) else (True, pruned (advanced g seq)))"
  by (simp add: observe_def filter_spent_def advanced_def pruned_def Let_def max_def)

lemma pruned_simps [simp]:
  "fi_last (pruned g) = fi_last g" "fi_floor (pruned g) = fi_floor g"
  "fi_window (pruned g) = fi_window g"
  by (simp_all add: pruned_def)

lemma pruned_seen: "x |\<in>| fi_seen (pruned g) \<Longrightarrow> x |\<in>| fi_seen g"
  by (auto simp: pruned_def split: if_splits)

lemma pruned_spent: "filter_spent (pruned g) x \<longleftrightarrow> filter_spent g x"
  by (auto simp: pruned_def filter_spent_def not_le)

lemma advanced_simps [simp]:
  "fi_last (advanced g seq) = max seq (fi_last g)"
  "fi_window (advanced g seq) = fi_window g"
  "fi_seen (advanced g seq) = finsert seq (fi_seen g)"
  by (simp_all add: advanced_def)

lemma advanced_floor:
  "filter_inv g \<Longrightarrow> fi_floor (advanced g seq) = saturating_sub (max seq (fi_last g)) (fi_window g)"
  by (auto simp: advanced_def filter_inv_def max_def not_less)

lemma filter_inv_new: "filter_inv (replay_filter_new w)"
  by (auto simp: filter_inv_def replay_filter_new_def saturating_sub_def word_gt_0)

interpretation window: replay_guard observe filter_inv filter_spent
proof unfold_locales
  fix g seq x
  assume inv: "filter_inv g"
  show "fst (observe g seq) \<longleftrightarrow> \<not> filter_spent g seq" by (simp add: observe_eq)
  show "filter_inv (snd (observe g seq))"
    using inv advanced_floor [OF inv, of seq] by (simp add: observe_eq filter_inv_def)
  show "filter_spent (snd (observe g seq)) seq" if "fst (observe g seq)"
    using that pruned_spent [of "advanced g seq" seq]
    by (simp add: observe_eq split: if_splits) (simp add: filter_spent_def)
  show "filter_spent (snd (observe g seq)) x" if "filter_spent g x"
  proof -
    have "fi_floor g \<le> fi_floor (advanced g seq)"
      using inv unfolding advanced_floor [OF inv]
      by (simp add: filter_inv_def saturating_sub_mono)
    with that show ?thesis
      by (simp add: observe_eq pruned_spent) (auto simp: filter_spent_def)
  qed
qed

subsection \<open>Refinement: an unbounded history\<close>

text \<open>
  The specification keeps every accepted number for ever. It accepts a number that is not older
  than the window, counted from the highest one accepted, and that was not accepted before. The
  code keeps a bounded part of that history and decides the same.
\<close>

definition highest :: "u64 list \<Rightarrow> u64" where
  "highest h = foldr max h 0"

definition ideal_observe :: "u64 \<Rightarrow> u64 list \<Rightarrow> u64 \<Rightarrow> bool \<times> u64 list" where
  "ideal_observe w h seq =
     (if unat seq + unat w < unat (highest h) \<or> seq \<in> set h then (False, h) else (True, seq # h))"

definition tracks :: "u64 \<Rightarrow> filter_inner \<Rightarrow> u64 list \<Rightarrow> bool" where
  "tracks w g h \<longleftrightarrow>
     filter_inv g \<and> fi_window g = w \<and> fi_last g = highest h \<and> fset (fi_seen g) \<subseteq> set h \<and>
     (\<forall>x \<in> set h. filter_spent g x)"

lemma less_saturating_sub: "x < saturating_sub a b \<longleftrightarrow> unat x + unat b < unat a"
  by (auto simp: word_less_nat_alt unat_saturating_sub)

lemma tracks_spent:
  assumes "tracks w g h"
  shows "filter_spent g seq \<longleftrightarrow> unat seq + unat w < unat (highest h) \<or> seq \<in> set h"
  using assms unfolding tracks_def filter_inv_def
  by (auto simp: filter_spent_def less_saturating_sub)

lemma tracks_step:
  assumes t: "tracks w g h"
  shows "fst (observe g seq) = fst (ideal_observe w h seq) \<and>
     tracks w (snd (observe g seq)) (snd (ideal_observe w h seq))"
proof (cases "filter_spent g seq")
  case True
  with t tracks_spent [OF t] show ?thesis by (simp add: observe_eq ideal_observe_def)
next
  case False
  let ?g = "snd (observe g seq)"
  from t have inv: "filter_inv g" by (simp add: tracks_def)
  have g: "?g = pruned (advanced g seq)" using False by (simp add: observe_eq)
  have "filter_spent ?g x" if "x \<in> set (seq # h)" for x
    using that t False window.accept_spends [OF inv, of seq] window.spent_stays [OF inv, of x seq]
    by (auto simp: tracks_def window.accepts_iff [OF inv])
  moreover have "fset (fi_seen ?g) \<subseteq> set (seq # h)"
    using t pruned_seen [of _ "advanced g seq"] by (auto simp: g tracks_def)
  ultimately have "tracks w ?g (seq # h)"
    using t window.step_inv [OF inv, of seq]
    by (simp add: tracks_def g highest_def)
  with False tracks_spent [OF t] show ?thesis by (simp add: observe_eq ideal_observe_def)
qed

lemma tracks_new: "tracks w (replay_filter_new w) []"
  using filter_inv_new [of w] by (simp add: tracks_def replay_filter_new_def highest_def)

interpretation window_history: guard_refinement observe "ideal_observe w" "tracks w" "\<lambda>h seq. True"
  by unfold_locales (erule tracks_step)

subsection \<open>The filter's memory\<close>

definition filter_bounded :: "u64 \<Rightarrow> filter_inner \<Rightarrow> bool" where
  "filter_bounded w g \<longleftrightarrow>
     filter_inv g \<and> fi_window g = w \<and> (\<forall>x \<in> fset (fi_seen g). x \<le> fi_last g) \<and>
     fcard (fi_seen g) \<le> 2 * unat w + 1"

lemma card_window:
  fixes S :: "u64 set"
  assumes "\<forall>x \<in> S. saturating_sub l w \<le> x \<and> x \<le> l"
  shows "card S \<le> unat w + 1"
proof -
  have "unat ` S \<subseteq> {unat l - unat w .. unat l}"
    using assms by (auto simp: word_le_nat_alt unat_saturating_sub)
  from card_mono [OF _ this] have "card (unat ` S) \<le> unat w + 1" by simp
  moreover have "inj_on unat S" by (auto simp: inj_on_def word_unat_eq_iff)
  ultimately show ?thesis by (simp add: card_image)
qed

lemma pruned_card:
  assumes inv: "filter_inv g" and le: "\<forall>x \<in> fset (fi_seen g). x \<le> fi_last g"
    and card: "fcard (fi_seen g) \<le> 2 * unat (fi_window g) + 2" and w: "unat (fi_window g) < 2 ^ 62"
  shows "fcard (fi_seen (pruned g)) \<le> 2 * unat (fi_window g) + 1"
proof -
  have "unat (of_nat (fcard (fi_seen g)) :: u64) = fcard (fi_seen g)"
    using card w by (simp add: unat_of_nat)
  moreover have "unat (fi_window g * 2) = unat (fi_window g) * 2"
    using w by (simp add: unat_word_ariths)
  moreover have "fcard (ffilter (\<lambda>x. x \<ge> fi_floor g) (fi_seen g)) \<le> unat (fi_window g) + 1"
    using le inv unfolding fcard.rep_eq filter_inv_def
    by (intro card_window [where l = "fi_last g"]) auto
  ultimately show ?thesis by (auto simp: pruned_def word_less_nat_alt)
qed

lemma bounded_step:
  assumes b: "filter_bounded w g" and w: "unat w < 2 ^ 62"
  shows "filter_bounded w (snd (observe g seq))"
proof (cases "filter_spent g seq")
  case True
  with b show ?thesis by (simp add: observe_eq)
next
  case False
  from b have inv: "filter_inv g" and card: "fcard (fi_seen g) \<le> 2 * unat w + 1"
    and win: "fi_window g = w" and le: "\<forall>x \<in> fset (fi_seen g). x \<le> fi_last g"
    by (simp_all add: filter_bounded_def)
  have inv': "filter_inv (advanced g seq)"
    using advanced_floor [OF inv, of seq] by (simp add: filter_inv_def)
  have le': "\<forall>x \<in> fset (fi_seen (advanced g seq)). x \<le> fi_last (advanced g seq)"
    using le by (auto simp: le_max_iff_disj)
  have "fcard (finsert seq (fi_seen g)) \<le> 2 * unat w + 2"
    using card by (simp add: fcard_finsert_if)
  then have "fcard (fi_seen (pruned (advanced g seq))) \<le> 2 * unat w + 1"
    using pruned_card [OF inv' le'] w win by simp
  moreover have "filter_inv (pruned (advanced g seq))" using inv' by (simp add: filter_inv_def)
  moreover have "\<forall>x \<in> fset (fi_seen (pruned (advanced g seq))). x \<le> fi_last (advanced g seq)"
    using le' pruned_seen by blast
  ultimately show ?thesis
    using False win by (simp add: observe_eq filter_bounded_def)
qed

lemma bounded_run:
  "filter_bounded w g \<Longrightarrow> unat w < 2 ^ 62 \<Longrightarrow> filter_bounded w (snd (run_guard observe g seqs))"
  by (induction seqs arbitrary: g)
    (simp_all add: bounded_step)

lemma bounded_new: "filter_bounded w (replay_filter_new w)"
  using filter_inv_new [of w] by (simp add: filter_bounded_def replay_filter_new_def fcard.rep_eq)

subsection \<open>Masking and tagging\<close>

text \<open>What the code relies on: BLAKE3's outputs are 32 bytes long.\<close>

definition blake3_lengths :: "hash_fn \<Rightarrow> keyed_hash_fn \<Rightarrow> bool" where
  "blake3_lengths hash keyed \<longleftrightarrow>
     (\<forall>m. length (hash m) = 32) \<and> (\<forall>k m. length (keyed k m) = 32)"

lemma xor_with_involution:
  assumes "ks \<noteq> []"
  shows "\<exists>cs. xor_with ks i bs = Ok cs \<and> length cs = length bs \<and> xor_with ks i cs = Ok bs"
proof (induction bs arbitrary: i)
  case Nil
  show ?case by simp
next
  case (Cons b bs)
  from Cons [of "i + 1"] obtain cs where
    "xor_with ks (i + 1) bs = Ok cs" "length cs = length bs" "xor_with ks (i + 1) cs = Ok bs"
    by blast
  with assms show ?case
    by (intro exI [of _ "(b XOR ks ! (i mod length ks)) # cs"])
      (simp add: index_def xor.assoc)
qed

lemma xor_in_place_involution:
  assumes "blake3_lengths hash keyed"
  shows "\<exists>cs. xor_in_place hash self bs salt = Ok cs \<and> length cs = length bs \<and>
     xor_in_place hash self cs salt = Ok bs"
proof -
  from assms have "length (hash (ob_key self @ salt)) = 32" by (simp add: blake3_lengths_def)
  then have "hash (ob_key self @ salt) \<noteq> []" by auto
  then show ?thesis unfolding xor_in_place_def by (rule xor_with_involution)
qed

definition frame_tag :: "keyed_hash_fn \<Rightarrow> obfuscator \<Rightarrow> bytes \<Rightarrow> bytes" where
  "frame_tag keyed self body = take TAG_LEN (keyed (ob_key32 self) body)"

lemma obfuscator_tag_Ok:
  "blake3_lengths hash keyed \<Longrightarrow> obfuscator_tag keyed self body = Ok (frame_tag keyed self body)"
  by (simp add: obfuscator_tag_def frame_tag_def blake3_lengths_def slice_range_def code_consts)

lemma length_frame_tag:
  "blake3_lengths hash keyed \<Longrightarrow> length (frame_tag keyed self body) = TAG_LEN"
  by (simp add: frame_tag_def blake3_lengths_def code_consts)

text \<open>A received message, cut into salt, body and tag.\<close>

definition judge :: "keyed_hash_fn \<Rightarrow> metrics \<Rightarrow> obfuscator \<Rightarrow> bytes \<Rightarrow> bytes \<Rightarrow> bytes \<Rightarrow>
    outcome \<times> metrics \<times> obfuscator" where
  "judge keyed m self body tag plain =
     (if frame_tag keyed self body \<noteq> tag
      then (Invalid, m\<lparr>mt_obfus_invalid := mt_obfus_invalid m + 1\<rparr>, self)
      else
        let (fresh, recv) = observe (ob_recv self) (from_be (take 8 plain));
            self = self\<lparr>ob_recv := recv\<rparr>
        in if fresh then (OutcomeOk (drop 8 plain), m, self)
           else (Replay, m\<lparr>mt_obfus_replay_dropped := mt_obfus_replay_dropped m + 1\<rparr>, self))"

lemma decrypt_outcome_parts:
  assumes b: "blake3_lengths hash keyed"
    and len: "length salt = SALT_LEN" "length tag = TAG_LEN" "8 \<le> length body"
    and x: "xor_in_place hash self body salt = Ok plain"
  shows "decrypt_outcome hash keyed m self (salt @ body @ tag) = Ok (judge keyed m self body tag plain)"
  using len x
  by (simp add: decrypt_outcome_def judge_def Let_def obfuscator_tag_Ok [OF b] split: prod.split)

lemma split_message:
  assumes "length buf \<ge> SALT_LEN + TAG_LEN + 8"
  obtains salt body tag where "buf = salt @ body @ tag" "length salt = SALT_LEN"
    "length tag = TAG_LEN" "8 \<le> length body"
proof
  let ?rest = "drop SALT_LEN buf"
  show "buf = take SALT_LEN buf @ take (length ?rest - TAG_LEN) ?rest @ drop (length ?rest - TAG_LEN) ?rest"
    by (simp only: append_take_drop_id)
qed (use assms in simp_all)

lemma decrypt_outcome_short:
  "length buf < SALT_LEN + TAG_LEN + 8 \<Longrightarrow> decrypt_outcome hash keyed m self buf
     = Ok (Invalid, m\<lparr>mt_obfus_invalid := mt_obfus_invalid m + 1\<rparr>, self)"
  by (simp add: decrypt_outcome_def)

text \<open>Every message gets an outcome, and only the filter of the receiver changes, by one step.\<close>

lemma decrypt_outcome_total:
  assumes b: "blake3_lengths hash keyed"
  obtains out m' self' where "decrypt_outcome hash keyed m self buf = Ok (out, m', self')"
    "ob_key self' = ob_key self" "ob_key32 self' = ob_key32 self"
    "ob_recv self' = ob_recv self \<or> (\<exists>seq. ob_recv self' = snd (observe (ob_recv self) seq))"
proof (cases "length buf < SALT_LEN + TAG_LEN + 8")
  case True
  with that show thesis by (simp add: decrypt_outcome_short)
next
  case False
  then have "SALT_LEN + TAG_LEN + 8 \<le> length buf" by simp
  then obtain salt body tag where buf: "buf = salt @ body @ tag" and len: "length salt = SALT_LEN"
    "length tag = TAG_LEN" "8 \<le> length body" by (rule split_message)
  from xor_in_place_involution [OF b, of self body salt] obtain plain where
    x: "xor_in_place hash self body salt = Ok plain" by blast
  show thesis
    using that decrypt_outcome_parts [OF b len x, of m]
    by (auto simp: buf judge_def Let_def split_beta split: if_splits)
qed

subsection \<open>A stream of messages\<close>

text \<open>A sender that masks messages one after the other, and a receiver that unmasks them.\<close>

fun encrypt_all ::
  "hash_fn \<Rightarrow> keyed_hash_fn \<Rightarrow> obfuscator \<Rightarrow> (bytes \<times> bytes) list \<Rightarrow> (bytes list \<times> obfuscator) result" where
  "encrypt_all hash keyed self [] = Ok ([], self)"
| "encrypt_all hash keyed self ((salt, buf) # xs) =
     and_then (encrypt hash keyed (Some salt) self buf) (\<lambda>(b, self).
     and_then (encrypt_all hash keyed self xs) (\<lambda>(bs, self). Ok (b # bs, self)))"

fun decrypt_all ::
  "hash_fn \<Rightarrow> keyed_hash_fn \<Rightarrow> metrics \<Rightarrow> obfuscator \<Rightarrow> bytes list
     \<Rightarrow> (outcome list \<times> metrics \<times> obfuscator) result" where
  "decrypt_all hash keyed m self [] = Ok ([], m, self)"
| "decrypt_all hash keyed m self (b # bs) =
     and_then (decrypt_outcome hash keyed m self b) (\<lambda>(out, m, self).
     and_then (decrypt_all hash keyed m self bs) (\<lambda>(outs, m, self). Ok (out # outs, m, self)))"

text \<open>
  Sender and receiver share the key, and the receiver has accepted only numbers below \<open>n\<close>, the
  next one of the sender.
\<close>

definition in_step :: "nat \<Rightarrow> obfuscator \<Rightarrow> obfuscator \<Rightarrow> bool" where
  "in_step n s r \<longleftrightarrow>
     ob_key r = ob_key s \<and> ob_key32 r = ob_key32 s \<and> ob_send_seq s = of_nat n \<and>
     filter_inv (ob_recv r) \<and> unat (fi_last (ob_recv r)) \<le> n \<and>
     (\<forall>x \<in> fset (fi_seen (ob_recv r)). unat x < n)"

lemma in_step_fresh:
  assumes "in_step n s r" "n < 2 ^ 64"
  shows "\<not> filter_spent (ob_recv r) (of_nat n)"
proof -
  have "unat (of_nat n :: u64) = n" using assms(2) by (simp add: unat_of_nat)
  with assms(1) show ?thesis
    by (auto simp: in_step_def filter_spent_def filter_inv_def less_saturating_sub)
qed

lemma in_step_observe:
  assumes i: "in_step n s r" and n: "n < 2 ^ 64"
  shows "in_step (Suc n) (s\<lparr>ob_send_seq := ob_send_seq s + 1\<rparr>)
     (r\<lparr>ob_recv := snd (observe (ob_recv r) (of_nat n))\<rparr>)"
proof -
  let ?g = "ob_recv r"
  have u: "unat (of_nat n :: u64) = n" using n by (simp add: unat_of_nat)
  from i have "filter_inv (snd (observe ?g (of_nat n)))"
    by (intro window.step_inv) (simp add: in_step_def)
  moreover have "snd (observe ?g (of_nat n)) = pruned (advanced ?g (of_nat n))"
    using in_step_fresh [OF i n] by (simp add: observe_eq)
  moreover have "\<forall>x \<in> fset (fi_seen (pruned (advanced ?g (of_nat n)))). unat x < Suc n"
    using i u pruned_seen [of _ "advanced ?g (of_nat n)"] by (fastforce simp: in_step_def)
  moreover have "unat (max (of_nat n) (fi_last ?g)) \<le> Suc n"
    using i u by (simp add: in_step_def max_def)
  ultimately show ?thesis using i by (simp add: in_step_def add.commute)
qed

lemma encrypt_decrypt:
  assumes b: "blake3_lengths hash keyed" and i: "in_step n s r" and n: "n < 2 ^ 64"
    and salt: "length salt = SALT_LEN"
  obtains msg where
    "encrypt hash keyed (Some salt) s buf = Ok (msg, s\<lparr>ob_send_seq := ob_send_seq s + 1\<rparr>)"
    "decrypt_outcome hash keyed m r msg
       = Ok (OutcomeOk buf, m, r\<lparr>ob_recv := snd (observe (ob_recv r) (of_nat n))\<rparr>)"
proof -
  let ?s = "s\<lparr>ob_send_seq := ob_send_seq s + 1\<rparr>"
  let ?plain = "be_bytes 8 (ob_send_seq s) @ buf"
  obtain body where x: "xor_in_place hash ?s ?plain salt = Ok body"
    and len: "length body = length ?plain" and y: "xor_in_place hash ?s body salt = Ok ?plain"
    using xor_in_place_involution [OF b] by blast
  have z: "xor_in_place hash r body salt = Ok ?plain"
    using y i by (simp add: xor_in_place_def in_step_def)
  have t: "frame_tag keyed ?s body = frame_tag keyed r body"
    using i by (simp add: frame_tag_def in_step_def)
  have "encrypt hash keyed (Some salt) s buf = Ok (salt @ body @ frame_tag keyed r body, ?s)"
    using x by (simp add: encrypt_def Let_def obfuscator_tag_Ok [OF b] t)
  moreover have "decrypt_outcome hash keyed m r (salt @ body @ frame_tag keyed r body)
     = Ok (OutcomeOk buf, m, r\<lparr>ob_recv := snd (observe (ob_recv r) (of_nat n))\<rparr>)"
    using in_step_fresh [OF i n] i len
    by (subst decrypt_outcome_parts [OF b salt length_frame_tag [OF b] _ z])
      (simp_all add: judge_def observe_eq from_be_bytes in_step_def)
  ultimately show thesis by (rule that)
qed

lemma stream_delivered:
  assumes b: "blake3_lengths hash keyed"
  shows "in_step n s r \<Longrightarrow> n + length xs \<le> 2 ^ 64 \<Longrightarrow> \<forall>x \<in> set xs. length (fst x) = SALT_LEN \<Longrightarrow>
    \<exists>msgs s' r'. encrypt_all hash keyed s xs = Ok (msgs, s') \<and>
      decrypt_all hash keyed m r msgs = Ok (map (\<lambda>x. OutcomeOk (snd x)) xs, m, r')"
proof (induction xs arbitrary: n s r)
  case Nil
  then show ?case by simp
next
  case (Cons x xs)
  obtain salt buf where x: "x = (salt, buf)" by (cases x)
  from Cons.prems have n: "n < 2 ^ 64" and salt: "length salt = SALT_LEN" by (auto simp: x)
  note i = Cons.prems(1)
  obtain msg where 1: "encrypt hash keyed (Some salt) s buf = Ok (msg, s\<lparr>ob_send_seq := ob_send_seq s + 1\<rparr>)"
    "decrypt_outcome hash keyed m r msg
       = Ok (OutcomeOk buf, m, r\<lparr>ob_recv := snd (observe (ob_recv r) (of_nat n))\<rparr>)"
    using encrypt_decrypt [OF b i n salt] by blast
  from Cons.IH [OF in_step_observe [OF i n]] Cons.prems obtain msgs s' r' where
    "encrypt_all hash keyed (s\<lparr>ob_send_seq := ob_send_seq s + 1\<rparr>) xs = Ok (msgs, s')"
    "decrypt_all hash keyed m (r\<lparr>ob_recv := snd (observe (ob_recv r) (of_nat n))\<rparr>) msgs
       = Ok (map (\<lambda>x. OutcomeOk (snd x)) xs, m, r')"
    by auto
  with 1 show ?case by (simp add: x)
qed

lemma in_step_new: "in_step 0 (obfuscator_new hash key) (obfuscator_new hash key)"
  using filter_inv_new [of "2 ^ 16"]
  by (simp add: in_step_def obfuscator_new_def) (simp add: replay_filter_new_def)

subsection \<open>A delivered message is not delivered again\<close>

text \<open>The message \<open>buf\<close> unmasks to a number the receiver \<open>r\<close> has spent.\<close>

lemma decrypt_outcome_state:
  assumes b: "blake3_lengths hash keyed" and ok: "decrypt_outcome hash keyed m r buf = Ok (out, m', r')"
  shows "ob_key r' = ob_key r \<and> ob_key32 r' = ob_key32 r \<and>
     (ob_recv r' = ob_recv r \<or> (\<exists>seq. ob_recv r' = snd (observe (ob_recv r) seq)))"
  by (rule decrypt_outcome_total [OF b, of m r buf]) (use ok in simp)

lemma decrypt_all_state:
  assumes b: "blake3_lengths hash keyed"
  shows "decrypt_all hash keyed m r bufs = Ok (outs, m', r') \<Longrightarrow> filter_inv (ob_recv r) \<Longrightarrow>
     ob_key r' = ob_key r \<and> ob_key32 r' = ob_key32 r \<and> filter_inv (ob_recv r') \<and>
     (\<forall>x. filter_spent (ob_recv r) x \<longrightarrow> filter_spent (ob_recv r') x)"
proof (induction bufs arbitrary: m r outs)
  case Nil
  then show ?case by simp
next
  case (Cons buf bufs)
  from Cons.prems(1) obtain out outs' m1 r1 where
    1: "decrypt_outcome hash keyed m r buf = Ok (out, m1, r1)"
    and 2: "decrypt_all hash keyed m1 r1 bufs = Ok (outs', m', r')"
    by auto
  from decrypt_outcome_state [OF b 1] Cons.prems(2)
  have k: "ob_key r1 = ob_key r" "ob_key32 r1 = ob_key32 r" "filter_inv (ob_recv r1)"
    and sp: "\<forall>x. filter_spent (ob_recv r) x \<longrightarrow> filter_spent (ob_recv r1) x"
    by (auto simp: window.step_inv window.spent_stays)
  from Cons.IH [OF 2 k(3)] k sp show ?case by simp
qed

lemma delivered_then_replay:
  assumes b: "blake3_lengths hash keyed" and inv: "filter_inv (ob_recv r)"
    and 1: "decrypt_outcome hash keyed m r buf = Ok (OutcomeOk p, m1, r1)"
    and 2: "decrypt_all hash keyed m1 r1 bufs = Ok (outs, m2, r2)"
  shows "decrypt_outcome hash keyed m2 r2 buf
     = Ok (Replay, m2\<lparr>mt_obfus_replay_dropped := mt_obfus_replay_dropped m2 + 1\<rparr>, r2)"
proof (cases "length buf < SALT_LEN + TAG_LEN + 8")
  case True
  with 1 show ?thesis by (simp add: decrypt_outcome_short)
next
  case False
  then have "SALT_LEN + TAG_LEN + 8 \<le> length buf" by simp
  then obtain salt body tag where buf: "buf = salt @ body @ tag" and len: "length salt = SALT_LEN"
    "length tag = TAG_LEN" "8 \<le> length body" by (rule split_message)
  from xor_in_place_involution [OF b, of r body salt] obtain plain where
    x: "xor_in_place hash r body salt = Ok plain" by blast
  let ?seq = "from_be (take 8 plain) :: u64"
  from 1 decrypt_outcome_parts [OF b len x, of m] have
    t: "frame_tag keyed r body = tag" and fresh: "fst (observe (ob_recv r) ?seq)"
    and r1: "r1 = r\<lparr>ob_recv := snd (observe (ob_recv r) ?seq)\<rparr>"
    by (auto simp: buf judge_def Let_def split_beta split: if_splits)
  from window.accept_spends [OF inv fresh] have "filter_spent (ob_recv r1) ?seq" by (simp add: r1)
  moreover have "filter_inv (ob_recv r1)" using window.step_inv [OF inv] by (simp add: r1)
  ultimately have "filter_spent (ob_recv r2) ?seq"
    and k: "ob_key r2 = ob_key r" "ob_key32 r2 = ob_key32 r"
    using decrypt_all_state [OF b 2] by (simp_all add: r1)
  moreover have "xor_in_place hash r2 body salt = Ok plain" "frame_tag keyed r2 body = tag"
    using x t k by (simp_all add: xor_in_place_def frame_tag_def)
  ultimately show ?thesis
    using decrypt_outcome_parts [OF b len, of r2 plain m2] by (simp add: buf judge_def observe_eq)
qed

subsection \<open>Properties\<close>

text \<open>
  (C14) The replay filter decides, for every sequence of numbers, exactly as a filter that keeps
  the whole history of accepted numbers: discarding old entries never changes a decision.
\<close>

theorem replay_filter_refines_history:
  "fst (run_guard observe (replay_filter_new w) seqs) = fst (run_guard (ideal_observe w) [] seqs)"
  by (rule window_history.same_decisions [OF tracks_new calls_ok_True])

text \<open>No sequence number is ever accepted twice.\<close>

theorem replay_filter_accepts_once:
  "distinct (accepted observe (replay_filter_new w) seqs)"
  by (rule window.accepted_distinct [OF filter_inv_new])

text \<open>
  The filter's memory is bounded by twice its window (plus one for the empty window),
  however many numbers it is shown.
\<close>

theorem replay_filter_bounded:
  assumes "unat w < 2 ^ 62"
  shows "fcard (fi_seen (snd (run_guard observe (replay_filter_new w) seqs))) \<le> 2 * unat w + 1"
  using bounded_run [OF bounded_new assms, of seqs] by (simp add: filter_bounded_def)

theorem replay_filter_bounded_witness:
  "fcard (fi_seen (snd (run_guard observe (replay_filter_new 2) [5, 6, 7, 8, 9, 10]))) \<le> 2 * unat (2 :: u64) + 1"
  by (rule replay_filter_bounded) simp

text \<open>
  What one end of a tunnel masks, the other end unmasks: up to \<open>2 ^ 64\<close> messages in
  order arrive unchanged, and neither end panics or counts an error.
\<close>

theorem obfuscated_stream_delivered:
  assumes "blake3_lengths hash keyed" and "length xs \<le> 2 ^ 64"
    and "\<forall>x \<in> set xs. length (fst x) = SALT_LEN"
  shows "\<exists>msgs s' r'. encrypt_all hash keyed (obfuscator_new hash key) xs = Ok (msgs, s') \<and>
    decrypt_all hash keyed m (obfuscator_new hash key) msgs = Ok (map (\<lambda>x. OutcomeOk (snd x)) xs, m, r')"
  using stream_delivered [OF assms(1) in_step_new [of hash key]] assms(2,3) by simp

theorem obfuscated_stream_delivered_witness:
  "let hash = (\<lambda>m. replicate 32 (last (0 # m))); keyed = (\<lambda>k m. replicate 32 (hd (m @ [0])))
   in \<exists>msgs s' r'.
     encrypt_all hash keyed (obfuscator_new hash [1]) [(replicate 8 5, [7, 8]), (replicate 8 6, [])]
       = Ok (msgs, s') \<and>
     decrypt_all hash keyed metrics_new (obfuscator_new hash [1]) msgs
       = Ok ([OutcomeOk [7, 8], OutcomeOk []], metrics_new, r')"
  using obfuscated_stream_delivered [of "\<lambda>m. replicate 32 (last (0 # m))"
      "\<lambda>k m. replicate 32 (hd (m @ [0]))" "[(replicate 8 5, [7, 8]), (replicate 8 6, [])]" "[1]" metrics_new]
  by (simp add: blake3_lengths_def code_consts)

text \<open>
  A message that was delivered once is reported as a replay whenever it arrives again,
  whatever was received in between; only the replay counter moves.
\<close>

theorem obfuscator_delivers_once:
  assumes "blake3_lengths hash keyed"
    and "decrypt_all hash keyed metrics_new (obfuscator_new hash key) before = Ok (outs0, m, r)"
    and "decrypt_outcome hash keyed m r buf = Ok (OutcomeOk p, m1, r1)"
    and "decrypt_all hash keyed m1 r1 bufs = Ok (outs, m2, r2)"
  shows "decrypt_outcome hash keyed m2 r2 buf
     = Ok (Replay, m2\<lparr>mt_obfus_replay_dropped := mt_obfus_replay_dropped m2 + 1\<rparr>, r2)"
proof -
  have "filter_inv (ob_recv (obfuscator_new hash key))"
    by (simp add: obfuscator_new_def filter_inv_new)
  with decrypt_all_state [OF assms(1,2)] have "filter_inv (ob_recv r)" by blast
  from delivered_then_replay [OF assms(1) this assms(3,4)] show ?thesis .
qed

theorem obfuscator_delivers_once_witness:
  "let hash = (\<lambda>m. replicate 32 3); keyed = (\<lambda>k m. replicate 32 7) in
   \<exists>buf m1 r1.
     decrypt_outcome hash keyed metrics_new (obfuscator_new hash [1]) buf = Ok (OutcomeOk [9], m1, r1) \<and>
     decrypt_outcome hash keyed m1 r1 buf
       = Ok (Replay, m1\<lparr>mt_obfus_replay_dropped := mt_obfus_replay_dropped m1 + 1\<rparr>, r1)"
proof -
  let ?hash = "\<lambda>m :: bytes. replicate 32 3 :: bytes" and ?keyed = "\<lambda>k m :: bytes. replicate 32 7 :: bytes"
  have b: "blake3_lengths ?hash ?keyed" by (simp add: blake3_lengths_def)
  obtain buf r1 where 1: "decrypt_outcome ?hash ?keyed metrics_new (obfuscator_new ?hash [1]) buf
      = Ok (OutcomeOk [9], metrics_new, r1)"
    by (rule encrypt_decrypt [OF b in_step_new, of "replicate 8 5" ?hash "[1]" "[9]" metrics_new])
      (simp_all add: code_consts)
  from obfuscator_delivers_once [OF b _ 1, of "[1]" "[]" "[]" "[]"] 1 show ?thesis
    unfolding Let_def by (intro exI conjI) simp_all
qed

text \<open>
  The tag covers the masked body but not the salt: whoever replaces the salt of a genuine
  message by any other eight bytes still passes the integrity check, so the message is never
  reported as invalid; its sequence number and payload are unmasked with the wrong key stream.
\<close>

theorem obfuscator_salt_unauthenticated:
  assumes "blake3_lengths hash keyed" and "length salt = SALT_LEN" and "length salt' = SALT_LEN"
    and "decrypt_outcome hash keyed m r (salt @ rest) = Ok (OutcomeOk p, m1, r1)"
  shows "\<exists>out m' r'. decrypt_outcome hash keyed m r (salt' @ rest) = Ok (out, m', r') \<and> out \<noteq> Invalid"
proof -
  note b = assms(1)
  have "\<not> length (salt @ rest) < SALT_LEN + TAG_LEN + 8"
    using assms(4) decrypt_outcome_short [of "salt @ rest" hash keyed m r] by auto
  then have "SALT_LEN + TAG_LEN + 8 \<le> length (salt @ rest)" by simp
  then obtain s body tag where "salt @ rest = s @ body @ tag" "length s = SALT_LEN" and
    len: "length tag = TAG_LEN" "8 \<le> length body" by (rule split_message)
  then have rest: "rest = body @ tag" using assms(2) by simp
  obtain plain where x: "xor_in_place hash r body salt = Ok plain"
    using xor_in_place_involution [OF b] by blast
  obtain plain' where x': "xor_in_place hash r body salt' = Ok plain'"
    using xor_in_place_involution [OF b] by blast
  have "frame_tag keyed r body = tag"
    using assms(4) decrypt_outcome_parts [OF b assms(2) len x, of m]
    by (auto simp: rest judge_def split: if_splits)
  then show ?thesis
    using decrypt_outcome_parts [OF b assms(3) len x', of m]
    by (simp add: rest judge_def Let_def split_beta)
qed

theorem obfuscator_salt_unauthenticated_witness:
  "let hash = (\<lambda>m. replicate 32 (last (0 # m))); keyed = (\<lambda>k m. replicate 32 7);
       r = obfuscator_new hash [1]; msg = replicate 8 5 @ [12] @ replicate 16 7
   in decrypt_outcome hash keyed metrics_new r (replicate 8 5 @ msg)
        = Ok (OutcomeOk [9], metrics_new, r\<lparr>ob_recv := snd (observe (ob_recv r) 0)\<rparr>) \<and>
      (\<exists>out m' r'. decrypt_outcome hash keyed metrics_new r (replicate 8 6 @ msg) = Ok (out, m', r') \<and>
         out \<noteq> Invalid)"
proof -
  let ?hash = "\<lambda>m :: bytes. replicate 32 (last (0 # m))" and ?keyed = "\<lambda>k m :: bytes. replicate 32 7 :: bytes"
  let ?r = "obfuscator_new ?hash [1]"
    and ?msg = "replicate 8 5 @ [12] @ replicate 16 7"
  have b: "blake3_lengths ?hash ?keyed" by (simp add: blake3_lengths_def)
  have x: "xor_in_place ?hash ?r (replicate 8 5 @ [12]) (replicate 8 5) = Ok (be_bytes 8 (0 :: u64) @ [9])"
    by code_simp
  have 1: "decrypt_outcome ?hash ?keyed metrics_new ?r (replicate 8 5 @ ?msg)
        = Ok (OutcomeOk [9], metrics_new, ?r\<lparr>ob_recv := snd (observe (ob_recv ?r) 0)\<rparr>)"
    using decrypt_outcome_parts [OF b _ _ _ x, of "replicate 16 7" metrics_new]
    by (simp add: code_consts judge_def frame_tag_def from_be_bytes observe_eq
        obfuscator_new_def replay_filter_new_def filter_spent_def)
  from obfuscator_salt_unauthenticated [OF b _ _ 1, of "replicate 8 6"] 1 show ?thesis
    by (simp add: code_consts)
qed

end
