(* ===== verification/Ws_Tunnel.thy ===== *)
theory Ws_Tunnel
  imports Messages Frames Obfuscation "HOL-Library.Finite_Map"
begin

section \<open>The WebSocket tunnel\<close>

text \<open>
  \<open>src/crates/hydr-transport/src/ws.rs\<close>: many streams multiplexed over one WebSocket
  connection. The connection task \<open>run\<close> owns the tables; \<open>handle_frame\<close> processes one
  incoming frame. Here the tables are the record \<open>ws_conn\<close>, and what a step hands to other
  tasks (frames for the writer, answers through one-shot channels, events, stream data) is the
  list of its effects, in order.

  Shared objects are numbered: a \<open>StreamCredit\<close> is an index into \<open>wc_outstanding\<close>, so that
  the credit table and the pump of a stream refer to the same counter even after the table
  dropped it; a channel to a stream writer and a pair of in-memory pipes are numbers. A one-shot
  sender is present or taken. The validator of a server is an argument that threads its own
  state; \<open>up\<close> says whether the writer task still takes frames.
\<close>

definition RECV_WINDOW :: u64 where [code_consts]: "RECV_WINDOW = 512 * 1024"
definition CREDIT_BATCH :: u64 where [code_consts]: "CREDIT_BATCH = RECV_WINDOW div 2"

subsection \<open>State and effects\<close>

datatype ws_event = WsOpen u64 address nat | WsDatagram datagram

datatype out_msg = OutFrame frame | WsPong bytes

datatype effect =
    Queue out_msg
  | AuthDone auth_request
  | AuthAnswer "auth_response result"
  | SessionAnswer u64 "auth_response result"
  | Event ws_event
  | OpenAnswer u64 "unit result"
  | Relay u64 nat nat nat
  | Deliver nat bytes

text \<open>
  \<open>Relay id credit channel pipe\<close> are the two tasks \<open>pump_stream\<close> and \<open>stream_writer\<close> spawned
  for stream \<open>id\<close>.
\<close>

record ws_conn =
  wc_streams :: "(u64, nat) fmap"
  wc_channels :: nat
  wc_pending :: "(u64, nat) fmap"
  wc_credits :: "(u64, nat) fmap"
  wc_outstanding :: "u64 list"
  wc_auth_response :: bool
  wc_sessions :: "u64 fset option"
  wc_server_auth_done :: bool
  wc_pending_auth :: "u64 fset option"
  wc_pipes :: nat

text \<open>The state \<open>run\<close> starts in, for the two callers \<open>connect_with_tls\<close> and \<open>accept_with_obfuscation\<close>.\<close>

definition run_init :: "bool \<Rightarrow> u64 fset option \<Rightarrow> bool \<Rightarrow> u64 fset option \<Rightarrow> ws_conn" where
  "run_init auth_response sessions server_auth_done pending_auth =
     \<lparr>wc_streams = fmempty, wc_channels = 0, wc_pending = fmempty, wc_credits = fmempty,
      wc_outstanding = [], wc_auth_response = auth_response, wc_sessions = sessions,
      wc_server_auth_done = server_auth_done, wc_pending_auth = pending_auth, wc_pipes = 0\<rparr>"

definition client_conn :: ws_conn where
  "client_conn = run_init True None False (Some {||})"

definition server_conn :: "bool \<Rightarrow> ws_conn" where
  "server_conn mux = run_init False (if mux then Some {||} else None) True None"

subsection \<open>Steps\<close>

type_synonym 'v validator = "'v \<Rightarrow> auth_request \<Rightarrow> auth_response result \<times> 'v"
type_synonym 'v outcome_of_step = "unit result \<times> effect list \<times> 'v \<times> ws_conn"

text \<open>A match on a \<open>Result\<close>; a panic ends the step.\<close>

definition on_result ::
  "'a result \<Rightarrow> 'v \<Rightarrow> ws_conn \<Rightarrow> ('a \<Rightarrow> 'v outcome_of_step) \<Rightarrow> (hydr_error \<Rightarrow> 'v outcome_of_step)
     \<Rightarrow> 'v outcome_of_step" where
  "on_result r v conn ok err =
     (case r of
        Inr x \<Rightarrow> ok x
      | Inl (Err e) \<Rightarrow> err e
      | Inl Panic \<Rightarrow> (Crash, [], v, conn))"

text \<open>\<open>frame_tx.send(..).await.map_err(|_| StreamClosed)?\<close> as the last action of a step.\<close>

definition queue_frame :: "bool \<Rightarrow> effect list \<Rightarrow> frame \<Rightarrow> 'v \<Rightarrow> ws_conn \<Rightarrow> 'v outcome_of_step" where
  "queue_frame up effs f v conn =
     (if up then (Ok (), effs @ [Queue (OutFrame f)], v, conn)
      else (Fail StreamClosed, effs, v, conn))"

text \<open>A stream starts: a fresh credit counter, the two tasks, and the channel to the writer.\<close>

definition start_relay :: "u64 \<Rightarrow> nat \<Rightarrow> ws_conn \<Rightarrow> effect list \<times> ws_conn" where
  "start_relay sid pipe conn =
     (let credit = length (wc_outstanding conn); channel = wc_channels conn
      in ([Relay sid credit channel pipe],
          conn\<lparr>wc_outstanding := wc_outstanding conn @ [0],
               wc_credits := fmupd sid credit (wc_credits conn),
               wc_channels := channel + 1,
               wc_streams := fmupd sid channel (wc_streams conn)\<rparr>))"

text \<open>\<open>StreamCredit::grant\<close>.\<close>

definition grant_credit :: "nat \<Rightarrow> u64 \<Rightarrow> ws_conn \<Rightarrow> ws_conn" where
  "grant_credit credit n conn =
     conn\<lparr>wc_outstanding :=
       (wc_outstanding conn)[credit := saturating_sub (wc_outstanding conn ! credit) n]\<rparr>"

definition session_denied :: "ws_conn \<Rightarrow> u64 \<Rightarrow> bool" where
  "session_denied conn sid =
     (sid \<noteq> 0 \<and> (case wc_sessions conn of None \<Rightarrow> False | Some s \<Rightarrow> sid |\<notin>| s))"

text \<open>
  What an answered request leaves behind: the first one of the control stream wakes the caller of
  \<open>accept\<close>, a good one of another stream registers that stream as a session.
\<close>

definition register_auth ::
  "u64 \<Rightarrow> auth_request \<Rightarrow> auth_response result \<Rightarrow> ws_conn \<Rightarrow> effect list \<times> ws_conn" where
  "register_auth sid req resp conn =
     (if sid = 0 then
        if wc_server_auth_done conn
        then ([AuthDone req], conn\<lparr>wc_server_auth_done := False\<rparr>) else ([], conn)
      else (case wc_sessions conn of
          None \<Rightarrow> ([], conn)
        | Some s \<Rightarrow>
            (case resp of
               Inl _ \<Rightarrow> ([], conn)
             | Inr r \<Rightarrow>
                 if ar_status r = STATUS_OK
                 then ([], conn\<lparr>wc_sessions := Some (finsert sid s)\<rparr>) else ([], conn))))"

definition send_auth_response ::
  "bool \<Rightarrow> u64 \<Rightarrow> auth_response \<Rightarrow> effect list \<Rightarrow> 'v \<Rightarrow> ws_conn \<Rightarrow> 'v outcome_of_step" where
  "send_auth_response up sid resp effs v conn =
     queue_frame up effs (frame_new sid FRAME_AUTH_RESPONSE (encode_auth_response [] resp)) v conn"

definition handle_auth_request ::
  "'v validator option \<Rightarrow> bool \<Rightarrow> 'v \<Rightarrow> ws_conn \<Rightarrow> frame \<Rightarrow> 'v outcome_of_step" where
  "handle_auth_request auth up v conn fr =
     (let sid = fr_stream_id fr in
      case auth of
        None \<Rightarrow> (Ok (), [], v, conn)
      | Some validate \<Rightarrow>
          on_result (decode_auth_request (fr_body fr)) v conn
            (\<lambda>(req, used).
               let (resp, v) = validate v req;
                   (effs, conn) = register_auth sid req resp conn
               in on_result resp v conn
                    (\<lambda>resp. send_auth_response up sid resp effs v conn)
                    (\<lambda>e. send_auth_response up sid (auth_response_error (error_to_string e)) effs v conn))
            (\<lambda>e. send_auth_response up sid (auth_response_error (lit ''bad request'')) [] v conn))"

definition handle_auth_response :: "'v \<Rightarrow> ws_conn \<Rightarrow> frame \<Rightarrow> 'v outcome_of_step" where
  "handle_auth_response v conn fr =
     (let resp = and_then (decode_auth_response (fr_body fr)) (\<lambda>(r, used). Ok r) in
      if fr_stream_id fr = 0 \<and> wc_auth_response conn then
        (if resp = Crash then (Crash, [], v, conn)
         else (Ok (), [AuthAnswer resp], v, conn\<lparr>wc_auth_response := False\<rparr>))
      else (case wc_pending_auth conn of
          None \<Rightarrow> (Ok (), [], v, conn)
        | Some pa \<Rightarrow>
            if fr_stream_id fr |\<in>| pa
            then if resp = Crash then (Crash, [], v, conn)
              else (Ok (), [SessionAnswer (fr_stream_id fr) resp], v,
                  conn\<lparr>wc_pending_auth := Some (pa |-| {|fr_stream_id fr|})\<rparr>)
            else (Ok (), [], v, conn)))"

definition handle_open_stream :: "bool \<Rightarrow> 'v \<Rightarrow> ws_conn \<Rightarrow> frame \<Rightarrow> 'v outcome_of_step" where
  "handle_open_stream up v conn fr =
     (if session_denied conn (fr_stream_id fr) then
        let ack = open_stream_ack_error_with_code ERR_PROTOCOL (lit ''session not authenticated'')
        in queue_frame up []
             (frame_new (fr_stream_id fr) FRAME_OPEN_STREAM_ACK (encode_open_stream_ack [] ack)) v conn
      else on_result (decode_open_stream (fr_body fr)) v conn
        (\<lambda>(req, used).
           let pipe = wc_pipes conn
           in (Ok (), [Event (WsOpen (fr_stream_id fr) (os_address req) pipe)], v,
               conn\<lparr>wc_pipes := pipe + 1\<rparr>))
        (\<lambda>e. (Ok (), [], v, conn)))"

definition handle_open_stream_ack :: "'v \<Rightarrow> ws_conn \<Rightarrow> frame \<Rightarrow> 'v outcome_of_step" where
  "handle_open_stream_ack v conn fr =
     (let sid = fr_stream_id fr in
      case fmlookup (wc_pending conn) sid of
        None \<Rightarrow> (Ok (), [], v, conn)
      | Some pipe \<Rightarrow>
          let conn = conn\<lparr>wc_pending := fmdrop sid (wc_pending conn)\<rparr>
          in on_result (decode_open_stream_ack (fr_body fr)) v conn
               (\<lambda>(ack, used).
                  if oa_status ack = STATUS_OK then
                    let (effs, conn) = start_relay sid pipe conn
                    in (Ok (), effs @ [OpenAnswer sid (Ok ())], v, conn)
                  else (Ok (), [OpenAnswer sid (Fail (Message (from_utf8_lossy (oa_message ack))))], v, conn))
               (\<lambda>e. (Ok (), [OpenAnswer sid (Fail e)], v, conn)))"

definition handle_stream_data :: "'v \<Rightarrow> ws_conn \<Rightarrow> frame \<Rightarrow> 'v outcome_of_step" where
  "handle_stream_data v conn fr =
     (case fmlookup (wc_streams conn) (fr_stream_id fr) of
        None \<Rightarrow> (Ok (), [], v, conn)
      | Some channel \<Rightarrow> (Ok (), [Deliver channel (fr_body fr)], v, conn))"

definition handle_stream_credit :: "'v \<Rightarrow> ws_conn \<Rightarrow> frame \<Rightarrow> 'v outcome_of_step" where
  "handle_stream_credit v conn fr =
     (if fr_stream_id fr = 0 then (Ok (), [], v, conn)
      else on_result (decode_varint (fr_body fr)) v conn
        (\<lambda>(amt, used).
           case fmlookup (wc_credits conn) (fr_stream_id fr) of
             None \<Rightarrow> (Ok (), [], v, conn)
           | Some c \<Rightarrow> (Ok (), [], v, grant_credit c amt conn))
        (\<lambda>e. (Ok (), [], v, conn)))"

definition handle_stream_close :: "'v \<Rightarrow> ws_conn \<Rightarrow> frame \<Rightarrow> 'v outcome_of_step" where
  "handle_stream_close v conn fr =
     (Ok (), [], v,
      conn\<lparr>wc_credits := fmdrop (fr_stream_id fr) (wc_credits conn),
           wc_streams := fmdrop (fr_stream_id fr) (wc_streams conn)\<rparr>)"

definition handle_datagram_frame :: "'v \<Rightarrow> ws_conn \<Rightarrow> frame \<Rightarrow> 'v outcome_of_step" where
  "handle_datagram_frame v conn fr =
     (if session_denied conn (fr_stream_id fr) then (Ok (), [], v, conn)
      else on_result (decode_datagram (fr_body fr)) v conn
        (\<lambda>(dg, used). (Ok (), [Event (WsDatagram dg)], v, conn))
        (\<lambda>e. (Ok (), [], v, conn)))"

definition dispatch_frame ::
  "'v validator option \<Rightarrow> bool \<Rightarrow> 'v \<Rightarrow> ws_conn \<Rightarrow> frame \<Rightarrow> 'v outcome_of_step" where
  "dispatch_frame auth up v conn fr =
     (let t = fr_frame_type fr in
      if t = FRAME_AUTH_REQUEST then handle_auth_request auth up v conn fr
      else if t = FRAME_AUTH_RESPONSE then handle_auth_response v conn fr
      else if t = FRAME_OPEN_STREAM then handle_open_stream up v conn fr
      else if t = FRAME_OPEN_STREAM_ACK then handle_open_stream_ack v conn fr
      else if t = FRAME_STREAM_DATA then handle_stream_data v conn fr
      else if t = FRAME_STREAM_CREDIT then handle_stream_credit v conn fr
      else if t = FRAME_STREAM_CLOSE then handle_stream_close v conn fr
      else if t = FRAME_DATAGRAM then handle_datagram_frame v conn fr
      else if t = FRAME_PING then queue_frame up [] (frame_new 0 FRAME_PONG (fr_body fr)) v conn
      else (Ok (), [], v, conn))"

definition handle_frame ::
  "'v validator option \<Rightarrow> bool \<Rightarrow> 'v \<Rightarrow> ws_conn \<Rightarrow> bytes \<Rightarrow> 'v outcome_of_step" where
  "handle_frame auth up v conn raw =
     (case decode_frame raw of
        Inl e \<Rightarrow> (Inl e, [], v, conn)
      | Inr (fr, used) \<Rightarrow> dispatch_frame auth up v conn fr)"

subsection \<open>The connection loop\<close>

datatype ws_cmd =
    SendFrame frame
  | OpenCmd u64 address nat
  | ReplyOpen u64 u8 u8 bytes nat
  | CloseCmd

text \<open>What the WebSocket library delivers; \<open>None\<close> is a broken connection.\<close>

datatype ws_message = Binary bytes | PingMessage bytes | OtherMessage

datatype run_input = WriterEnded | Command ws_cmd | Incoming "ws_message option" | Tick

datatype inbound = InFrame bytes | InDrop | InClose

definition inbound_message ::
  "hash_fn \<Rightarrow> keyed_hash_fn \<Rightarrow> metrics \<Rightarrow> obfuscator option \<Rightarrow> bytes
     \<Rightarrow> (inbound \<times> metrics \<times> obfuscator option) result" where
  "inbound_message hash keyed m ob raw =
     (case ob of
        Some ob \<Rightarrow>
          and_then (decrypt_outcome hash keyed m ob raw) (\<lambda>(out, m, ob).
            Ok (case out of OutcomeOk v \<Rightarrow> InFrame v | Replay \<Rightarrow> InDrop | Invalid \<Rightarrow> InClose, m, Some ob))
      | None \<Rightarrow> Ok (InFrame raw, m, None))"

definition outbound_message ::
  "hash_fn \<Rightarrow> keyed_hash_fn \<Rightarrow> bytes option \<Rightarrow> obfuscator option \<Rightarrow> frame
     \<Rightarrow> (bytes \<times> obfuscator option) result" where
  "outbound_message hash keyed random ob f =
     (let b = encode_frame [] f
      in case ob of
           Some ob \<Rightarrow> and_then (encrypt hash keyed random ob b) (\<lambda>(b, ob). Ok (b, Some ob))
         | None \<Rightarrow> Ok (b, None))"

record 'v run_state =
  rs_conn :: ws_conn
  rs_ob :: "obfuscator option"
  rs_metrics :: metrics
  rs_validator :: 'v

text \<open>Whether the loop goes on, the effects, and the state.\<close>

type_synonym 'v run_result = "(bool \<times> effect list \<times> 'v run_state) result"

definition run_queue :: "bool \<Rightarrow> frame \<Rightarrow> 'v run_state \<Rightarrow> 'v run_result" where
  "run_queue up f s = (if up then Ok (True, [Queue (OutFrame f)], s) else Ok (False, [], s))"

definition run_command :: "bool \<Rightarrow> ws_cmd \<Rightarrow> 'v run_state \<Rightarrow> 'v run_result" where
  "run_command up cmd s =
     (case cmd of
        SendFrame f \<Rightarrow> run_queue up f s
      | OpenCmd sid addr pipe \<Rightarrow>
          let body = encode_open_stream [] \<lparr>os_address = addr\<rparr>;
              conn = rs_conn s
          in if up
             then Ok (True, [Queue (OutFrame (frame_new sid FRAME_OPEN_STREAM body))],
                      s\<lparr>rs_conn := conn\<lparr>wc_pending := fmupd sid pipe (wc_pending conn)\<rparr>\<rparr>)
             else Ok (False, [], s)
      | ReplyOpen sid status error_code message pipe \<Rightarrow>
          let body = encode_open_stream_ack []
                \<lparr>oa_status = status, oa_error_code = error_code, oa_message = message\<rparr>;
              ack = Queue (OutFrame (frame_new sid FRAME_OPEN_STREAM_ACK body))
          in if up then
               if status = STATUS_OK then
                 let (effs, conn) = start_relay sid pipe (rs_conn s)
                 in Ok (True, ack # effs, s\<lparr>rs_conn := conn\<rparr>)
               else Ok (True, [ack], s)
             else Ok (False, [], s)
      | CloseCmd \<Rightarrow> Ok (False, [], s))"

definition run_incoming ::
  "hash_fn \<Rightarrow> keyed_hash_fn \<Rightarrow> 'v validator option \<Rightarrow> bool \<Rightarrow> bytes \<Rightarrow> 'v run_state \<Rightarrow> 'v run_result" where
  "run_incoming hash keyed auth up raw s =
     and_then (inbound_message hash keyed (rs_metrics s) (rs_ob s) raw) (\<lambda>(inb, m, ob).
       let s = s\<lparr>rs_metrics := m, rs_ob := ob\<rparr> in
       case inb of
         InFrame b \<Rightarrow>
           (let (res, effs, v, conn) = handle_frame auth up (rs_validator s) (rs_conn s) b;
                s = s\<lparr>rs_validator := v, rs_conn := conn\<rparr>
            in case res of
                 Inr _ \<Rightarrow> Ok (True, effs, s)
               | Inl (Err _) \<Rightarrow> Ok (False, effs, s)
               | Inl Panic \<Rightarrow> Crash)
       | InDrop \<Rightarrow> Ok (True, [], s)
       | InClose \<Rightarrow> Ok (False, [], s))"

text \<open>
  One turn of the \<open>select!\<close>: \<open>up\<close> as above, \<open>room\<close> whether a \<open>try_send\<close> finds space.
\<close>

definition run_step ::
  "hash_fn \<Rightarrow> keyed_hash_fn \<Rightarrow> 'v validator option \<Rightarrow> bool \<Rightarrow> bool \<Rightarrow> run_input \<Rightarrow> 'v run_state
     \<Rightarrow> 'v run_result" where
  "run_step hash keyed auth up room inp s =
     (case inp of
        WriterEnded \<Rightarrow> Ok (False, [], s)
      | Command cmd \<Rightarrow> run_command up cmd s
      | Incoming None \<Rightarrow> Ok (False, [], s)
      | Incoming (Some (Binary raw)) \<Rightarrow> run_incoming hash keyed auth up raw s
      | Incoming (Some (PingMessage payload)) \<Rightarrow>
          Ok (True, if up \<and> room then [Queue (WsPong payload)] else [], s)
      | Incoming (Some OtherMessage) \<Rightarrow> Ok (True, [], s)
      | Tick \<Rightarrow> run_queue up frame_ping s)"

text \<open>
  After the loop every opener still waiting is told, in the order \<open>ids\<close> the hash map has them,
  and so is the client waiting for its authentication.
\<close>

definition run_finish :: "u64 list \<Rightarrow> ws_conn \<Rightarrow> effect list" where
  "run_finish ids conn =
     map (\<lambda>sid. OpenAnswer sid (Fail StreamClosed)) ids @
     (if wc_auth_response conn then [AuthAnswer (Fail StreamClosed)] else [])"

text \<open>
  What \<open>connect_with_tls\<close> and \<open>accept_with_obfuscation\<close> return, from the first answer on their
  one-shot channel; \<open>None\<close> while there is none.
\<close>

fun accept_outcome :: "effect list \<Rightarrow> auth_request option" where
  "accept_outcome [] = None"
| "accept_outcome (AuthDone req # effs) = Some req"
| "accept_outcome (_ # effs) = accept_outcome effs"

definition connect_answer :: "auth_response result \<Rightarrow> unit result" where
  "connect_answer r =
     and_then r (\<lambda>resp.
       if ar_status resp \<noteq> STATUS_OK then Fail (Message (from_utf8_lossy (ar_message resp)))
       else Ok ())"

fun connect_outcome :: "effect list \<Rightarrow> unit result option" where
  "connect_outcome [] = None"
| "connect_outcome (AuthAnswer r # effs) = Some (connect_answer r)"
| "connect_outcome (_ # effs) = connect_outcome effs"

subsection \<open>No step panics\<close>

lemma on_result_crash:
  "fst (on_result r v conn ok err) = Crash \<longleftrightarrow>
     r = Crash \<or> (\<exists>x. r = Ok x \<and> fst (ok x) = Crash) \<or> (\<exists>e. r = Fail e \<and> fst (err e) = Crash)"
  by (auto simp: on_result_def split: sum.splits failure.splits)

lemma queue_frame_not_crash [simp]: "fst (queue_frame up effs f v conn) \<noteq> Crash"
  by (simp add: queue_frame_def)

definition validator_total :: "'v validator option \<Rightarrow> bool" where
  "validator_total auth \<longleftrightarrow> (\<forall>validate v req. auth = Some validate \<longrightarrow> fst (validate v req) \<noteq> Crash)"

lemma handle_frame_not_crash:
  assumes len: "length raw \<le> isize_max" and auth: "validator_total auth"
  shows "fst (handle_frame auth up v conn raw) \<noteq> Crash"
proof (cases "decode_frame raw")
  case (Inl e)
  with frame_codec.decode_no_panic [OF len] show ?thesis by (simp add: handle_frame_def)
next
  case (Inr p)
  then obtain fr n where p: "decode_frame raw = Ok (fr, n)" by (cases p) simp
  have "MAX_BODY_LEN \<le> isize_max" by (simp add: code_consts isize_max_def)
  with decode_frame_body_bound [OF p] have body: "length (fr_body fr) \<le> isize_max" by linarith
  note no_panic = auth_request_codec.decode_no_panic [OF body]
    auth_response_codec.decode_no_panic [OF body] open_stream_codec.decode_no_panic [OF body]
    open_stream_ack_codec.decode_no_panic [OF body] datagram_codec.decode_no_panic [OF body]
  have "fst (handle_auth_request auth up v conn fr) \<noteq> Crash"
  proof (cases auth)
    case (Some validate)
    then have "fst (validate v req) \<noteq> Crash" for req using auth by (simp add: validator_total_def)
    then show ?thesis
      by (simp add: handle_auth_request_def Some on_result_crash no_panic split_beta Let_def
          send_auth_response_def)
  qed (simp add: handle_auth_request_def)
  moreover have "fst (handle_auth_response v conn fr) \<noteq> Crash"
    using no_panic(2)
    by (auto simp: handle_auth_response_def Let_def and_then_eq_Inl split: option.split)
  moreover have "fst (handle_open_stream up v conn fr) \<noteq> Crash"
    by (simp add: handle_open_stream_def on_result_crash no_panic split_beta Let_def)
  moreover have "fst (handle_open_stream_ack v conn fr) \<noteq> Crash"
    by (auto simp: handle_open_stream_ack_def on_result_crash no_panic split_beta Let_def
        split: option.split if_splits)
  moreover have "fst (handle_stream_data v conn fr) \<noteq> Crash"
    by (simp add: handle_stream_data_def split: option.split)
  moreover have "fst (handle_stream_credit v conn fr) \<noteq> Crash"
    using decode_varint_no_panic [of "fr_body fr"]
    by (auto simp: handle_stream_credit_def on_result_crash split: option.splits)
  moreover have "fst (handle_datagram_frame v conn fr) \<noteq> Crash"
    by (simp add: handle_datagram_frame_def on_result_crash no_panic split_beta)
  ultimately show ?thesis
    by (simp add: handle_frame_def p dispatch_frame_def Let_def handle_stream_close_def
        queue_frame_def)
qed

subsection \<open>Who holds a credit counter\<close>

text \<open>What a step can do to the credit table and the counters, and to the table of channels.\<close>

inductive credit_change :: "ws_conn \<Rightarrow> ws_conn \<Rightarrow> bool" where
  same: "wc_credits conn' = wc_credits conn \<Longrightarrow> wc_outstanding conn' = wc_outstanding conn \<Longrightarrow>
     wc_streams conn' = wc_streams conn \<Longrightarrow> wc_channels conn' = wc_channels conn \<Longrightarrow>
     credit_change conn conn'"
| started: "wc_credits conn' = fmupd sid (length (wc_outstanding conn)) (wc_credits conn) \<Longrightarrow>
     wc_outstanding conn' = wc_outstanding conn @ [0] \<Longrightarrow>
     wc_streams conn' = fmupd sid (wc_channels conn) (wc_streams conn) \<Longrightarrow>
     wc_channels conn' = wc_channels conn + 1 \<Longrightarrow> credit_change conn conn'"
| granted: "fmlookup (wc_credits conn) sid = Some c \<Longrightarrow> wc_credits conn' = wc_credits conn \<Longrightarrow>
     wc_outstanding conn' = (wc_outstanding conn)[c := saturating_sub (wc_outstanding conn ! c) n] \<Longrightarrow>
     wc_streams conn' = wc_streams conn \<Longrightarrow> wc_channels conn' = wc_channels conn \<Longrightarrow>
     credit_change conn conn'"
| closed: "wc_credits conn' = fmdrop sid (wc_credits conn) \<Longrightarrow>
     wc_outstanding conn' = wc_outstanding conn \<Longrightarrow>
     wc_streams conn' = fmdrop sid (wc_streams conn) \<Longrightarrow> wc_channels conn' = wc_channels conn \<Longrightarrow>
     credit_change conn conn'"

lemma start_relay_change:
  "start_relay sid pipe conn = (effs, conn') \<Longrightarrow> credit_change conn conn'"
  by (rule credit_change.started [of _ sid]) (auto simp: start_relay_def Let_def)

lemma start_relay_snd: "credit_change conn (snd (start_relay sid pipe conn))"
  by (rule start_relay_change) (rule prod.collapse [symmetric])

lemma credit_change_congs:
  "credit_change (conn\<lparr>wc_pending := p\<rparr>) conn' \<longleftrightarrow> credit_change conn conn'"
  by (simp add: credit_change.simps)

lemma credit_change_refl: "credit_change conn conn"
  by (simp add: credit_change.same)

lemma queue_frame_change: "snd (snd (snd (queue_frame up effs f v conn))) = conn"
  by (simp add: queue_frame_def)

lemma register_auth_change: "credit_change conn (snd (register_auth sid req resp conn))"
  by (rule credit_change.same) (auto simp: register_auth_def split: option.split sum.split)

lemma handle_frame_change: "credit_change conn (snd (snd (snd (handle_frame auth up v conn raw))))"
proof (cases "decode_frame raw")
  case (Inl e)
  then show ?thesis by (simp add: handle_frame_def credit_change_refl)
next
  case (Inr p)
  then obtain fr n where p: "decode_frame raw = Ok (fr, n)" by (cases p) simp
  have 1: "credit_change conn (snd (snd (snd (handle_auth_request auth up v conn fr))))"
    by (simp add: handle_auth_request_def on_result_def send_auth_response_def queue_frame_change
        credit_change_refl register_auth_change split_beta Let_def split: option.split sum.split failure.split)
  have 2: "credit_change conn (snd (snd (snd (handle_auth_response v conn fr))))"
    by (auto simp: handle_auth_response_def Let_def credit_change.simps split: option.split)
  have 3: "credit_change conn (snd (snd (snd (handle_open_stream up v conn fr))))"
    by (auto simp: handle_open_stream_def on_result_def queue_frame_change Let_def credit_change.simps
        split: sum.split failure.split prod.split)
  have 4: "credit_change conn (snd (snd (snd (handle_open_stream_ack v conn fr))))"
    by (auto simp: handle_open_stream_ack_def on_result_def Let_def credit_change_refl start_relay_change
        credit_change_congs credit_change.same
        split: option.split sum.split failure.split prod.split dest!: start_relay_change)
  have 5: "credit_change conn (snd (snd (snd (handle_stream_data v conn fr))))"
    by (simp add: handle_stream_data_def credit_change_refl split: option.split)
  have 6: "credit_change conn (snd (snd (snd (handle_stream_credit v conn fr))))"
    by (auto simp: handle_stream_credit_def on_result_def grant_credit_def credit_change_refl
        split: option.split sum.split failure.split prod.split intro: credit_change.granted)
  have 7: "credit_change conn (snd (snd (snd (handle_stream_close v conn fr))))"
    by (auto simp: handle_stream_close_def intro: credit_change.closed)
  have 8: "credit_change conn (snd (snd (snd (handle_datagram_frame v conn fr))))"
    by (auto simp: handle_datagram_frame_def on_result_def credit_change_refl
        split: sum.split failure.split prod.split)
  from 1 2 3 4 5 6 7 8 show ?thesis
    by (simp add: handle_frame_def p dispatch_frame_def Let_def queue_frame_change credit_change_refl)
qed

lemma run_incoming_change:
  assumes "run_incoming hash keyed auth up raw s = Ok (go, effs, s')"
  shows "credit_change (rs_conn s) (rs_conn s')"
proof -
  from assms obtain inb m ob where "inbound_message hash keyed (rs_metrics s) (rs_ob s) raw = Ok (inb, m, ob)"
    by (auto simp: run_incoming_def)
  note run = assms [unfolded run_incoming_def this and_then_simps prod.case Let_def]
  show ?thesis
  proof (cases inb)
    case (InFrame b)
    obtain res effs' v conn where h: "handle_frame auth up (rs_validator s) (rs_conn s) b = (res, effs', v, conn)"
      by (metis prod_cases4)
    from run have "rs_conn s' = conn" by (auto simp: InFrame h split: sum.splits failure.splits)
    with handle_frame_change [of "rs_conn s" auth up "rs_validator s" b] show ?thesis by (simp add: h)
  qed (use run in \<open>auto simp: credit_change_refl\<close>)
qed

lemma run_step_change:
  assumes "run_step hash keyed auth up room inp s = Ok (go, effs, s')"
  shows "credit_change (rs_conn s) (rs_conn s')"
proof -
  have q: "run_queue up f s = Ok (go, effs, s') \<Longrightarrow> credit_change (rs_conn s) (rs_conn s')" for f
    by (auto simp: run_queue_def credit_change_refl split: if_splits)
  have cmd: "credit_change (rs_conn s) (rs_conn s')" if "run_command up cmd s = Ok (go, effs, s')" for cmd
    using that
    by (cases cmd)
      (auto simp: run_command_def run_queue_def Let_def credit_change_refl split_beta credit_change.same
        start_relay_snd split: if_splits)
  have inc: "credit_change (rs_conn s) (rs_conn s')"
    if "run_incoming hash keyed auth up raw s = Ok (go, effs, s')" for raw
    using that by (rule run_incoming_change)
  show ?thesis
    using assms q cmd inc
    by (auto simp: run_step_def credit_change_refl split: run_input.splits option.splits ws_message.splits)
qed

text \<open>
  Distinct streams have distinct counters. A counter the table no longer refers to is an orphan:
  nothing that happens on the connection changes it any more.
\<close>

definition credits_ok :: "ws_conn \<Rightarrow> bool" where
  "credits_ok conn \<longleftrightarrow>
     (\<forall>sid c. fmlookup (wc_credits conn) sid = Some c \<longrightarrow> c < length (wc_outstanding conn)) \<and>
     (\<forall>sid sid' c. fmlookup (wc_credits conn) sid = Some c \<longrightarrow>
        fmlookup (wc_credits conn) sid' = Some c \<longrightarrow> sid = sid')"

definition orphan :: "nat \<Rightarrow> ws_conn \<Rightarrow> bool" where
  "orphan c conn \<longleftrightarrow>
     c < length (wc_outstanding conn) \<and> (\<forall>sid. fmlookup (wc_credits conn) sid \<noteq> Some c)"

lemma credits_ok_change: "credit_change conn conn' \<Longrightarrow> credits_ok conn \<Longrightarrow> credits_ok conn'"
proof (induction rule: credit_change.induct)
  case (started conn' sid conn)
  then show ?case by (fastforce simp: credits_ok_def less_Suc_eq)
next
  case (granted conn sid c conn' n)
  then show ?case by (simp add: credits_ok_def)
next
  case (closed conn' sid conn)
  then show ?case by (simp add: credits_ok_def)
qed (simp add: credits_ok_def)

lemma orphan_change:
  "credit_change conn conn' \<Longrightarrow> orphan c conn \<Longrightarrow>
     orphan c conn' \<and> wc_outstanding conn' ! c = wc_outstanding conn ! c"
proof (induction rule: credit_change.induct)
  case (granted conn sid d conn' n)
  then have "c \<noteq> d" by (auto simp: orphan_def)
  with granted show ?case by (simp add: orphan_def)
qed (auto simp: orphan_def nth_append)

text \<open>A connection running on any inputs.\<close>

fun run_loop ::
  "hash_fn \<Rightarrow> keyed_hash_fn \<Rightarrow> 'v validator option \<Rightarrow> (bool \<times> bool \<times> run_input) list \<Rightarrow> 'v run_state
     \<Rightarrow> 'v run_result" where
  "run_loop hash keyed auth [] s = Ok (True, [], s)"
| "run_loop hash keyed auth ((up, room, inp) # inps) s =
     and_then (run_step hash keyed auth up room inp s) (\<lambda>(go, effs, s).
       if go then and_then (run_loop hash keyed auth inps s) (\<lambda>(go, effs', s). Ok (go, effs @ effs', s))
       else Ok (False, effs, s))"

lemma run_loop_orphan:
  "run_loop hash keyed auth inps s = Ok (go, effs, s') \<Longrightarrow> orphan c (rs_conn s) \<Longrightarrow>
     orphan c (rs_conn s') \<and> wc_outstanding (rs_conn s') ! c = wc_outstanding (rs_conn s) ! c"
proof (induction inps arbitrary: s effs)
  case (Cons i inps)
  obtain up room inp where i: "i = (up, room, inp)" by (cases i)
  from Cons.prems(1) obtain go1 effs1 s1 where
    1: "run_step hash keyed auth up room inp s = Ok (go1, effs1, s1)"
    and 2: "if go1 then \<exists>effs2. run_loop hash keyed auth inps s1 = Ok (go, effs2, s') else s' = s1"
    by (auto simp: i split: if_splits)
  note o = orphan_change [OF run_step_change [OF 1] Cons.prems(2)]
  from 2 Cons.IH o show ?case by (cases go1) auto
qed simp

lemma run_loop_credits_ok:
  "run_loop hash keyed auth inps s = Ok (go, effs, s') \<Longrightarrow> credits_ok (rs_conn s) \<Longrightarrow>
     credits_ok (rs_conn s')"
proof (induction inps arbitrary: s effs)
  case (Cons i inps)
  obtain up room inp where i: "i = (up, room, inp)" by (cases i)
  from Cons.prems(1) obtain go1 effs1 s1 where
    1: "run_step hash keyed auth up room inp s = Ok (go1, effs1, s1)"
    and 2: "if go1 then \<exists>effs2. run_loop hash keyed auth inps s1 = Ok (go, effs2, s') else s' = s1"
    by (auto simp: i split: if_splits)
  from 2 Cons.IH credits_ok_change [OF run_step_change [OF 1] Cons.prems(2)] show ?case
    by (cases go1) auto
qed simp

text \<open>Processing a frame of a decodable message.\<close>

lemma handle_frame_encoded:
  assumes "wf_frame f" "length (encode_frame [] f) \<le> isize_max"
  shows "handle_frame auth up v conn (encode_frame [] f) = dispatch_frame auth up v conn f"
  using frame_codec.decode_encode [OF assms] by (simp add: handle_frame_def)

subsection \<open>Sessions of a multiplexed server\<close>

text \<open>The frame asks for authentication and the validator approves.\<close>

definition approval :: "'v validator \<Rightarrow> 'v \<Rightarrow> frame \<Rightarrow> bool" where
  "approval validate v fr \<longleftrightarrow>
     fr_frame_type fr = FRAME_AUTH_REQUEST \<and>
     (\<exists>req used r. decode_auth_request (fr_body fr) = Ok (req, used) \<and>
        fst (validate v req) = Ok r \<and> ar_status r = STATUS_OK)"

text \<open>
  A multiplexed server processing arbitrary messages; the third component collects the streams on
  which a request was approved. Other steps of the loop leave the sessions alone.
\<close>

inductive mux_run :: "'v validator \<Rightarrow> 'v \<Rightarrow> ws_conn \<times> 'v \<times> u64 set \<Rightarrow> bool" for validate v0 where
  start: "mux_run validate v0 (server_conn True, v0, {})"
| refused: "mux_run validate v0 (conn, v, A) \<Longrightarrow> decode_frame raw = Inl e \<Longrightarrow>
     mux_run validate v0 (conn, v, A)"
| frame: "mux_run validate v0 (conn, v, A) \<Longrightarrow> decode_frame raw = Ok (fr, used) \<Longrightarrow>
     handle_frame (Some validate) up v conn raw = (res, effs, v', conn') \<Longrightarrow>
     mux_run validate v0 (conn', v', if approval validate v fr then insert (fr_stream_id fr) A else A)"
| other: "mux_run validate v0 (conn, v, A) \<Longrightarrow> wc_sessions conn' = wc_sessions conn \<Longrightarrow>
     mux_run validate v0 (conn', v, A)"

lemma register_auth_sessions:
  "wc_sessions (snd (register_auth sid req resp conn)) = wc_sessions conn \<or>
     (\<exists>S r. wc_sessions conn = Some S \<and> resp = Ok r \<and> ar_status r = STATUS_OK \<and> sid \<noteq> 0 \<and>
        wc_sessions (snd (register_auth sid req resp conn)) = Some (finsert sid S))"
  by (auto simp: register_auth_def split: option.split sum.split)

lemma start_relay_sessions: "wc_sessions (snd (start_relay sid pipe conn)) = wc_sessions conn"
  by (simp add: start_relay_def Let_def)

lemma handle_auth_request_sessions:
  assumes "fr_frame_type fr = FRAME_AUTH_REQUEST"
  shows "wc_sessions (snd (snd (snd (handle_auth_request (Some validate) up v conn fr)))) = wc_sessions conn \<or>
     (approval validate v fr \<and>
      (\<exists>S. wc_sessions conn = Some S \<and>
         wc_sessions (snd (snd (snd (handle_auth_request (Some validate) up v conn fr))))
           = Some (finsert (fr_stream_id fr) S)))"
proof (cases "decode_auth_request (fr_body fr)")
  case (Inl e)
  then show ?thesis
    by (simp add: handle_auth_request_def on_result_def send_auth_response_def queue_frame_change
        Let_def split: failure.split)
next
  case (Inr p)
  then obtain req n where p: "decode_auth_request (fr_body fr) = Ok (req, n)" by (cases p) simp
  have "snd (snd (snd (handle_auth_request (Some validate) up v conn fr)))
      = snd (register_auth (fr_stream_id fr) req (fst (validate v req)) conn)"
    by (simp add: handle_auth_request_def on_result_def p send_auth_response_def queue_frame_change
        Let_def split_beta split: sum.split failure.split)
  with register_auth_sessions [of "fr_stream_id fr" req "fst (validate v req)" conn] assms p
  show ?thesis by (auto simp: approval_def)
qed

lemma handle_frame_sessions:
  assumes "decode_frame raw = Ok (fr, used)"
  shows "wc_sessions (snd (snd (snd (handle_frame (Some validate) up v conn raw)))) = wc_sessions conn \<or>
     (approval validate v fr \<and>
      (\<exists>S. wc_sessions conn = Some S \<and>
         wc_sessions (snd (snd (snd (handle_frame (Some validate) up v conn raw))))
           = Some (finsert (fr_stream_id fr) S)))"
proof (cases "fr_frame_type fr = FRAME_AUTH_REQUEST")
  case True
  with handle_auth_request_sessions [OF True, of validate up v conn] assms show ?thesis
    by (simp add: handle_frame_def dispatch_frame_def Let_def)
next
  case False
  have 2: "wc_sessions (snd (snd (snd (handle_auth_response v conn fr)))) = wc_sessions conn"
    by (simp add: handle_auth_response_def Let_def split: option.split)
  have 3: "wc_sessions (snd (snd (snd (handle_open_stream up v conn fr)))) = wc_sessions conn"
    by (simp add: handle_open_stream_def on_result_def queue_frame_change Let_def
        split: sum.split failure.split prod.split)
  have 4: "wc_sessions (snd (snd (snd (handle_open_stream_ack v conn fr)))) = wc_sessions conn"
    by (simp add: handle_open_stream_ack_def on_result_def Let_def start_relay_sessions split_beta
        split: option.split sum.split failure.split)
  have 5: "wc_sessions (snd (snd (snd (handle_stream_data v conn fr)))) = wc_sessions conn"
    by (simp add: handle_stream_data_def split: option.split)
  have 6: "wc_sessions (snd (snd (snd (handle_stream_credit v conn fr)))) = wc_sessions conn"
    by (simp add: handle_stream_credit_def on_result_def grant_credit_def
        split: option.split sum.split failure.split prod.split)
  have 7: "wc_sessions (snd (snd (snd (handle_stream_close v conn fr)))) = wc_sessions conn"
    by (simp add: handle_stream_close_def)
  have 8: "wc_sessions (snd (snd (snd (handle_datagram_frame v conn fr)))) = wc_sessions conn"
    by (simp add: handle_datagram_frame_def on_result_def split: sum.split failure.split prod.split)
  from False 2 3 4 5 6 7 8 assms show ?thesis
    by (simp add: handle_frame_def dispatch_frame_def Let_def queue_frame_change)
qed

lemma mux_sessions_approved:
  "mux_run validate v0 s \<Longrightarrow> \<exists>S. wc_sessions (fst s) = Some S \<and> fset S \<subseteq> snd (snd s)"
proof (induction rule: mux_run.induct)
  case (frame conn v A raw fr used up res effs v' conn')
  with handle_frame_sessions [OF frame.hyps(2), of validate up v conn] show ?case by auto
qed (auto simp: server_conn_def run_init_def)

text \<open>What may reach the application: only frames of streams that are not denied.\<close>

lemma queue_frame_events: "Event e \<in> set (fst (snd (queue_frame up effs f v conn))) \<Longrightarrow> Event e \<in> set effs"
  by (auto simp: queue_frame_def split: if_splits)

lemma register_auth_events: "Event e \<notin> set (fst (register_auth sid req resp conn))"
  by (auto simp: register_auth_def split: option.split sum.split)

lemma handle_frame_events:
  assumes "decode_frame raw = Ok (fr, used)"
    and "handle_frame auth up v conn raw = (res, effs, v', conn')" and "Event e \<in> set effs"
  shows "\<not> session_denied conn (fr_stream_id fr) \<and>
     (case e of WsOpen sid addr pipe \<Rightarrow> sid = fr_stream_id fr | WsDatagram dg \<Rightarrow> True)"
proof -
  have 1: "Event e \<notin> set (fst (snd (handle_auth_request auth up v conn fr)))"
    by (auto simp: handle_auth_request_def on_result_def send_auth_response_def Let_def split_beta
        register_auth_events split: option.split sum.split failure.split dest!: queue_frame_events)
  have 2: "Event e \<notin> set (fst (snd (handle_auth_response v conn fr)))"
    by (simp add: handle_auth_response_def Let_def split: option.split)
  have 4: "Event e \<notin> set (fst (snd (handle_open_stream_ack v conn fr)))"
    by (simp add: handle_open_stream_ack_def on_result_def Let_def start_relay_def
        split: option.split sum.split failure.split prod.split)
  have 5: "Event e \<notin> set (fst (snd (handle_stream_data v conn fr)))"
    by (simp add: handle_stream_data_def split: option.split)
  have 6: "Event e \<notin> set (fst (snd (handle_stream_credit v conn fr)))"
    by (simp add: handle_stream_credit_def on_result_def
        split: option.split sum.split failure.split prod.split)
  have 7: "Event e \<notin> set (fst (snd (handle_stream_close v conn fr)))"
    by (simp add: handle_stream_close_def)
  from assms have "effs = fst (snd (dispatch_frame auth up v conn fr))" by (simp add: handle_frame_def)
  with assms(3) 1 2 4 5 6 7 have
    "Event e \<in> set (fst (snd (handle_open_stream up v conn fr))) \<or>
     Event e \<in> set (fst (snd (handle_datagram_frame v conn fr)))"
    by (auto simp: dispatch_frame_def Let_def split: if_splits dest!: queue_frame_events)
  then show ?thesis
    by (auto simp: handle_open_stream_def handle_datagram_frame_def on_result_def Let_def
        split: if_splits sum.splits failure.splits dest!: queue_frame_events)
qed

subsection \<open>Frames across an obfuscated connection\<close>

text \<open>A writer that sends frames one after the other, and the reading end of the peer.\<close>

fun send_frames ::
  "hash_fn \<Rightarrow> keyed_hash_fn \<Rightarrow> obfuscator option \<Rightarrow> (bytes \<times> frame) list
     \<Rightarrow> (bytes list \<times> obfuscator option) result" where
  "send_frames hash keyed ob [] = Ok ([], ob)"
| "send_frames hash keyed ob ((salt, f) # fs) =
     and_then (outbound_message hash keyed (Some salt) ob f) (\<lambda>(b, ob).
     and_then (send_frames hash keyed ob fs) (\<lambda>(bs, ob). Ok (b # bs, ob)))"

fun receive_frames ::
  "hash_fn \<Rightarrow> keyed_hash_fn \<Rightarrow> metrics \<Rightarrow> obfuscator option \<Rightarrow> bytes list
     \<Rightarrow> (frame list \<times> metrics \<times> obfuscator option) result" where
  "receive_frames hash keyed m ob [] = Ok ([], m, ob)"
| "receive_frames hash keyed m ob (b # bs) =
     and_then (inbound_message hash keyed m ob b) (\<lambda>(inb, m, ob).
       case inb of
         InFrame raw \<Rightarrow>
           and_then (decode_frame raw) (\<lambda>(f, used).
           and_then (receive_frames hash keyed m ob bs) (\<lambda>(fs, m, ob). Ok (f # fs, m, ob)))
       | InDrop \<Rightarrow> receive_frames hash keyed m ob bs
       | InClose \<Rightarrow> Ok ([], m, ob))"

definition frame_sendable :: "bytes \<times> frame \<Rightarrow> bool" where
  "frame_sendable x \<longleftrightarrow> length (fst x) = SALT_LEN \<and> wf_frame (snd x)"

lemma frames_delivered:
  assumes b: "blake3_lengths hash keyed"
  shows "in_step n s r \<Longrightarrow> n + length fs \<le> 2 ^ 64 \<Longrightarrow> \<forall>x \<in> set fs. frame_sendable x \<Longrightarrow>
    \<exists>msgs s' r'. send_frames hash keyed (Some s) fs = Ok (msgs, s') \<and>
      receive_frames hash keyed m (Some r) msgs = Ok (map snd fs, m, r')"
proof (induction fs arbitrary: n s r)
  case Nil
  then show ?case by simp
next
  case (Cons x fs)
  obtain salt f where x: "x = (salt, f)" by (cases x)
  from Cons.prems have n: "n < 2 ^ 64" and salt: "length salt = SALT_LEN" and wf: "wf_frame f"
    by (auto simp: x frame_sendable_def)
  note i = Cons.prems(1)
  let ?s = "s\<lparr>ob_send_seq := ob_send_seq s + 1\<rparr>" and ?r = "r\<lparr>ob_recv := snd (observe (ob_recv r) (of_nat n))\<rparr>"
  obtain msg where 1: "encrypt hash keyed (Some salt) s (encode_frame [] f) = Ok (msg, ?s)"
    "decrypt_outcome hash keyed m r msg = Ok (OutcomeOk (encode_frame [] f), m, ?r)"
    using encrypt_decrypt [OF b i n salt] by blast
  from Cons.IH [OF in_step_observe [OF i n]] Cons.prems obtain msgs s' r' where
    "send_frames hash keyed (Some ?s) fs = Ok (msgs, s')"
    "receive_frames hash keyed m (Some ?r) msgs = Ok (map snd fs, m, r')"
    by auto
  with 1 frame_codec.decode_encode [OF wf length_encode_frame [OF wf]] show ?case
    by (simp add: x outbound_message_def inbound_message_def Let_def)
qed

subsection \<open>Examples\<close>

text \<open>Two concrete frames for the examples below.\<close>

definition sample_auth :: auth_request where
  "sample_auth =
     \<lparr>aq_version = 1, aq_auth_method = 1, aq_client_nonce = [1, 2, 3, 4, 5, 6, 7, 8],
      aq_auth_proof = [9], aq_cc_rx = 0, aq_features = 0, aq_padding = []\<rparr>"

definition auth_frame :: "u64 \<Rightarrow> frame" where
  "auth_frame sid = frame_new sid FRAME_AUTH_REQUEST (encode_auth_request [] sample_auth)"

definition open_frame :: "u64 \<Rightarrow> frame" where
  "open_frame sid =
     frame_new sid FRAME_OPEN_STREAM (encode_open_stream [] \<lparr>os_address = Ip (V4 0x01020304) 80\<rparr>)"

lemma sample_lengths:
  "length (encode_auth_request [] sample_auth) \<le> 100"
  "length (encode_open_stream [] \<lparr>os_address = Ip (V4 0x01020304) 80\<rparr>) \<le> 100"
  by code_simp+

lemma auth_frame_facts:
  assumes "sid < 2 ^ 62"
  shows "decode_frame (encode_frame [] (auth_frame sid)) = Ok (auth_frame sid, length (encode_frame [] (auth_frame sid)))"
    and "decode_auth_request (fr_body (auth_frame sid)) = Ok (sample_auth, length (fr_body (auth_frame sid)))"
    and "fr_frame_type (auth_frame sid) = FRAME_AUTH_REQUEST" and "fr_stream_id (auth_frame sid) = sid"
proof -
  have "wf_frame (auth_frame sid)"
    using assms sample_lengths(1) by (simp add: wf_frame_def auth_frame_def frame_new_def code_consts)
  from frame_codec.decode_encode [OF this length_encode_frame [OF this]]
  show "decode_frame (encode_frame [] (auth_frame sid)) = Ok (auth_frame sid, length (encode_frame [] (auth_frame sid)))" .
  show "decode_auth_request (fr_body (auth_frame sid)) = Ok (sample_auth, length (fr_body (auth_frame sid)))"
    using auth_request_codec.decode_encode [of sample_auth] small_isize [OF sample_lengths(1)]
    by (simp add: auth_frame_def frame_new_def wf_auth_request_def) (simp add: sample_auth_def)
qed (simp_all add: auth_frame_def frame_new_def)

lemma open_frame_facts:
  assumes "sid < 2 ^ 62"
  shows "decode_frame (encode_frame [] (open_frame sid)) = Ok (open_frame sid, length (encode_frame [] (open_frame sid)))"
    and "decode_open_stream (fr_body (open_frame sid))
           = Ok (\<lparr>os_address = Ip (V4 0x01020304) 80\<rparr>, length (fr_body (open_frame sid)))"
    and "fr_frame_type (open_frame sid) = FRAME_OPEN_STREAM" and "fr_stream_id (open_frame sid) = sid"
proof -
  have "wf_frame (open_frame sid)"
    using assms sample_lengths(2) by (simp add: wf_frame_def open_frame_def frame_new_def code_consts)
  from frame_codec.decode_encode [OF this length_encode_frame [OF this]]
  show "decode_frame (encode_frame [] (open_frame sid)) = Ok (open_frame sid, length (encode_frame [] (open_frame sid)))" .
  show "decode_open_stream (fr_body (open_frame sid))
           = Ok (\<lparr>os_address = Ip (V4 0x01020304) 80\<rparr>, length (fr_body (open_frame sid)))"
    using open_stream_codec.decode_encode [of "\<lparr>os_address = Ip (V4 0x01020304) 80\<rparr>"]
      small_isize [OF sample_lengths(2)]
    by (simp add: open_frame_def frame_new_def wf_open_stream_def)
qed (simp_all add: open_frame_def frame_new_def)

lemma handle_open_frame:
  assumes "sid < 2 ^ 62" "\<not> session_denied conn sid"
  shows "handle_frame auth up v conn (encode_frame [] (open_frame sid))
     = (Ok (), [Event (WsOpen sid (Ip (V4 0x01020304) 80) (wc_pipes conn))], v,
        conn\<lparr>wc_pipes := wc_pipes conn + 1\<rparr>)"
  using open_frame_facts [OF assms(1)] assms(2)
  by (simp add: handle_frame_def dispatch_frame_def handle_open_stream_def on_result_def Let_def code_consts)

lemma handle_auth_frame:
  assumes "sid < 2 ^ 62" "fst (validate v sample_auth) = Ok resp"
  shows "handle_frame (Some validate) True v conn (encode_frame [] (auth_frame sid))
     = (Ok (), fst (register_auth sid sample_auth (Ok resp) conn) @
          [Queue (OutFrame (frame_new sid FRAME_AUTH_RESPONSE (encode_auth_response [] resp)))],
        snd (validate v sample_auth), snd (register_auth sid sample_auth (Ok resp) conn))"
  using auth_frame_facts [OF assms(1)] assms(2)
  by (simp add: handle_frame_def dispatch_frame_def handle_auth_request_def on_result_def Let_def
      send_auth_response_def queue_frame_def split_beta)

subsection \<open>Properties\<close>

text \<open>
  (C27) Multiplexed sessions: on a multiplexing server no stream other than the control stream
  opens or delivers datagrams to the application unless the validator approved a request on that
  very stream before, whatever messages the peer sends in whatever order.
\<close>

theorem mux_sessions_authenticated:
  assumes "mux_run validate v0 (conn, v, A)"
    and "decode_frame raw = Ok (fr, used)"
    and "handle_frame (Some validate) up v conn raw = (res, effs, v', conn')"
    and "Event e \<in> set effs" and "fr_stream_id fr \<noteq> 0"
  shows "fr_stream_id fr \<in> A \<and> (\<forall>sid addr pipe. e = WsOpen sid addr pipe \<longrightarrow> sid = fr_stream_id fr)"
  using mux_sessions_approved [OF assms(1)] handle_frame_events [OF assms(2-4)] assms(5)
  by (auto simp: session_denied_def)

theorem mux_sessions_authenticated_witness:
  "let validate = (\<lambda>v req. (Ok (auth_response_ok 0 0), v));
       conn = snd (snd (snd (handle_frame (Some validate) True () (server_conn True) (encode_frame [] (auth_frame 5)))));
       effs = fst (snd (handle_frame (Some validate) True () conn (encode_frame [] (open_frame 5))))
   in effs = [Event (WsOpen 5 (Ip (V4 0x01020304) 80) 0)] \<and>
      fr_stream_id (open_frame 5)
        \<in> (if approval validate () (auth_frame 5) then insert (fr_stream_id (auth_frame 5)) {} else {})"
proof -
  let ?V = "\<lambda>v :: unit. \<lambda>req :: auth_request. (Ok (auth_response_ok 0 0) :: auth_response result, v)"
  let ?conn = "snd (register_auth 5 sample_auth (Ok (auth_response_ok 0 0)) (server_conn True))"
  have 1: "handle_frame (Some ?V) True () (server_conn True) (encode_frame [] (auth_frame 5)) =
      (Ok (), fst (register_auth 5 sample_auth (Ok (auth_response_ok 0 0)) (server_conn True)) @
          [Queue (OutFrame (frame_new 5 FRAME_AUTH_RESPONSE (encode_auth_response [] (auth_response_ok 0 0))))],
        (), ?conn)"
    by (subst handle_auth_frame [where resp = "auth_response_ok 0 0"]) simp_all
  have conn: "?conn = (server_conn True)\<lparr>wc_sessions := Some {|5|}\<rparr>"
    by (simp add: register_auth_def server_conn_def run_init_def auth_response_ok_def)
  have den: "\<not> session_denied ?conn 5" and pipes: "wc_pipes ?conn = 0"
    unfolding conn by (simp_all add: session_denied_def server_conn_def run_init_def)
  have 2: "handle_frame (Some ?V) True () ?conn (encode_frame [] (open_frame 5)) =
      (Ok (), [Event (WsOpen 5 (Ip (V4 0x01020304) 80) 0)], (), ?conn\<lparr>wc_pipes := 1\<rparr>)"
    using handle_open_frame [OF _ den, of "Some ?V" True "()"] by (simp add: pipes)
  have run: "mux_run ?V () (?conn, (),
      if approval ?V () (auth_frame 5) then insert (fr_stream_id (auth_frame 5)) {} else {})"
    by (rule mux_run.frame [OF mux_run.start auth_frame_facts(1) 1]) simp
  have "fr_stream_id (open_frame 5) \<in>
      (if approval ?V () (auth_frame 5) then insert (fr_stream_id (auth_frame 5)) {} else {})"
    using mux_sessions_authenticated [OF run open_frame_facts(1) 2, of "WsOpen 5 (Ip (V4 0x01020304) 80) 0"]
    by (simp add: open_frame_facts(4))
  then show ?thesis unfolding Let_def 1 snd_conv fst_conv 2 by simp
qed

text \<open>
  The control stream is exempt: a peer that never authenticated opens a stream on number 0 of a
  multiplexing server, and the application gets it.
\<close>

theorem control_stream_opens_unauthenticated:
  "handle_frame (Some validate) up v (server_conn True) (encode_frame [] (open_frame 0))
     = (Ok (), [Event (WsOpen 0 (Ip (V4 0x01020304) 80) 0)], v, (server_conn True)\<lparr>wc_pipes := 1\<rparr>)"
proof -
  have "\<not> session_denied (server_conn True) 0" and pipes: "wc_pipes (server_conn True) = 0"
    by (simp_all add: session_denied_def server_conn_def run_init_def)
  from handle_open_frame [OF _ this(1), of "Some validate" up v] show ?thesis by (simp add: pipes)
qed

text \<open>
  A server accepts a rejected login: whatever the validator answers to the request on the control
  stream, \<open>accept\<close> returns that request as a success, the connection stays up and the next
  frame opens a stream.
\<close>

theorem rejected_login_accepted:
  assumes "fst (validate v sample_auth) = Ok resp" and "ar_status resp \<noteq> STATUS_OK"
  shows "let (res, effs, v', conn) =
           handle_frame (Some validate) True v (server_conn False) (encode_frame [] (auth_frame 0))
         in res = Ok () \<and> accept_outcome effs = Some sample_auth \<and>
            fst (snd (handle_frame (Some validate) True v' conn (encode_frame [] (open_frame 1))))
              = [Event (WsOpen 1 (Ip (V4 0x01020304) 80) 0)]"
proof -
  let ?conn = "(server_conn False)\<lparr>wc_server_auth_done := False\<rparr>"
  have reg: "register_auth 0 sample_auth (Ok resp) (server_conn False) = ([AuthDone sample_auth], ?conn)"
    by (simp add: register_auth_def server_conn_def run_init_def)
  have den: "\<not> session_denied ?conn 1" and pipes: "wc_pipes ?conn = 0"
    by (simp_all add: session_denied_def server_conn_def run_init_def)
  show ?thesis
    using handle_auth_frame [of 0 validate v resp "server_conn False"] assms(1)
      handle_open_frame [OF _ den, of "Some validate" True "snd (validate v sample_auth)"]
    by (simp add: reg pipes)
qed

theorem rejected_login_accepted_witness:
  "let validate = (\<lambda>v req. (Ok (auth_response_error (lit ''invalid credentials'')), v));
       (res, effs, v', conn) =
         handle_frame (Some validate) True () (server_conn False) (encode_frame [] (auth_frame 0))
   in res = Ok () \<and> accept_outcome effs = Some sample_auth \<and>
      fst (snd (handle_frame (Some validate) True v' conn (encode_frame [] (open_frame 1))))
        = [Event (WsOpen 1 (Ip (V4 0x01020304) 80) 0)]"
  using rejected_login_accepted
    [of "\<lambda>v req. (Ok (auth_response_error (lit ''invalid credentials'')), v)" "()"
        "auth_response_error (lit ''invalid credentials'')"]
  by (simp add: auth_response_error_def auth_response_error_with_code_def code_consts Let_def)

text \<open>
  Half-closing freezes the window of the other direction: after the peer closed its direction of
  a stream, no frame, command or timer ever returns credit to the counter our own direction is
  waiting on.
\<close>

theorem half_close_freezes_window:
  assumes "credits_ok (rs_conn s)" and "fmlookup (wc_credits (rs_conn s)) sid = Some c"
    and "run_loop hash keyed auth inps
           (s\<lparr>rs_conn := snd (snd (snd (handle_stream_close v (rs_conn s) (frame_new sid FRAME_STREAM_CLOSE []))))\<rparr>)
         = Ok (go, effs, s')"
  shows "wc_outstanding (rs_conn s') ! c = wc_outstanding (rs_conn s) ! c"
proof -
  let ?conn = "snd (snd (snd (handle_stream_close v (rs_conn s) (frame_new sid FRAME_STREAM_CLOSE []))))"
  have "orphan c ?conn"
    using assms(1,2) by (auto simp: handle_stream_close_def frame_new_def orphan_def credits_ok_def)
  with run_loop_orphan [OF assms(3), of c]
  show ?thesis by (simp add: handle_stream_close_def)
qed

theorem half_close_freezes_window_witness:
  "let conn = (server_conn False)\<lparr>wc_credits := fmupd 1 0 fmempty, wc_outstanding := [524288]\<rparr>;
       s = \<lparr>rs_conn = conn, rs_ob = None, rs_metrics = metrics_new, rs_validator = ()\<rparr>;
       closed = snd (snd (snd (handle_stream_close () conn (frame_new 1 FRAME_STREAM_CLOSE []))))
   in \<exists>s'. run_loop (\<lambda>m. []) (\<lambda>k m. []) None [(True, True, Tick)] (s\<lparr>rs_conn := closed\<rparr>)
        = Ok (True, [Queue (OutFrame frame_ping)], s') \<and> wc_outstanding (rs_conn s') ! 0 = 524288"
proof -
  let ?conn = "(server_conn False)\<lparr>wc_credits := fmupd 1 0 fmempty, wc_outstanding := [524288]\<rparr>"
  let ?s = "\<lparr>rs_conn = ?conn, rs_ob = None, rs_metrics = metrics_new, rs_validator = ()\<rparr>"
  let ?s1 = "?s\<lparr>rs_conn := snd (snd (snd (handle_stream_close () ?conn (frame_new 1 FRAME_STREAM_CLOSE []))))\<rparr>"
  have run: "run_loop (\<lambda>m. []) (\<lambda>k m. []) None [(True, True, Tick)] ?s1
      = Ok (True, [Queue (OutFrame frame_ping)], ?s1)"
    by (simp add: run_step_def run_queue_def)
  have "credits_ok (rs_conn ?s)" "fmlookup (wc_credits (rs_conn ?s)) 1 = Some 0"
    by (simp_all add: credits_ok_def)
  from half_close_freezes_window [OF this, of "\<lambda>m. []" "\<lambda>k m. []" None, unfolded run_state.select_convs, OF run]
  have "wc_outstanding (rs_conn ?s1) ! 0 = 524288" by simp
  with run show ?thesis unfolding Let_def by (intro exI [of _ ?s1] conjI)
qed

text \<open>
  (C25) No message of a peer makes the connection task panic, whatever its bytes, as long as the
  validator does not.
\<close>

theorem frames_never_panic:
  assumes "length raw \<le> isize_max" and "validator_total auth"
  shows "fst (handle_frame auth up v conn raw) \<noteq> Crash"
  by (rule handle_frame_not_crash [OF assms])

theorem frames_never_panic_witness:
  "fst (handle_frame None True () client_conn [0xff, 1]) \<noteq> Crash"
  by (rule frames_never_panic) (simp_all add: isize_max_def validator_total_def)

text \<open>
  Frames cross an obfuscated connection in order and unchanged: encoding, masking, unmasking and
  decoding compose to the identity for up to \<open>2 ^ 64\<close> frames.
\<close>

theorem frames_cross_connection:
  assumes "blake3_lengths hash keyed" and "length fs \<le> 2 ^ 64" and "\<forall>x \<in> set fs. frame_sendable x"
  shows "\<exists>msgs s' r'. send_frames hash keyed (Some (obfuscator_new hash key)) fs = Ok (msgs, s') \<and>
      receive_frames hash keyed m (Some (obfuscator_new hash key)) msgs = Ok (map snd fs, m, r')"
  using frames_delivered [OF assms(1) in_step_new [of hash key]] assms(2,3) by simp

theorem frames_cross_connection_witness:
  "let hash = (\<lambda>m. replicate 32 (last (0 # m))); keyed = (\<lambda>k m. replicate 32 (hd (m @ [0])))
   in \<exists>msgs s' r'.
     send_frames hash keyed (Some (obfuscator_new hash [1])) [(replicate 8 5, frame_ping), (replicate 8 6, frame_data 3 [7])]
       = Ok (msgs, s') \<and>
     receive_frames hash keyed metrics_new (Some (obfuscator_new hash [1])) msgs
       = Ok ([frame_ping, frame_data 3 [7]], metrics_new, r')"
  using frames_cross_connection [of "\<lambda>m. replicate 32 (last (0 # m))"
      "\<lambda>k m. replicate 32 (hd (m @ [0]))" "[(replicate 8 5, frame_ping), (replicate 8 6, frame_data 3 [7])]"
      "[1]" metrics_new]
  by (simp add: blake3_lengths_def code_consts frame_sendable_def wf_frame_def frame_ping_def
      frame_data_def frame_new_def)

end
