(* ===== verification/Ws_Credit.thy ===== *)
theory Ws_Credit
  imports Ws_Tunnel
begin

section \<open>Flow control of one WebSocket stream\<close>

text \<open>
  One direction of one stream of \<open>src/crates/hydr-transport/src/ws.rs\<close>: the sender's
  \<open>pump_stream\<close> with its \<open>StreamCredit\<close>, everything between the two ends, and the receiver's
  \<open>CreditReader\<close>. The three run concurrently, so the system is a state machine whose events are
  their atomic actions:

  \<^item> \<open>Pass\<close>: \<open>wait_window\<close> finds the window open;
  \<^item> \<open>Send n\<close>: the pump reads \<open>n\<close> bytes (at most its buffer of 32 KiB) and queues them as a frame;
  \<^item> \<open>Count\<close>: the pump adds them to \<open>outstanding\<close>, a separate step after the queueing;
  \<^item> \<open>Read n ok\<close>: the application reads \<open>n\<close> bytes (at most the 64 KiB of the pipe); \<open>ok\<close> says
    whether a \<open>try_send\<close> on the command queue finds room;
  \<^item> \<open>Arrive\<close>: the next credit frame reaches the sender;
  \<^item> \<open>Peer_closes\<close>: the peer's \<open>STREAM_CLOSE\<close> for the other direction reaches the sender. The connection
    loop removes the counter from its table, and the pump goes on with its own reference to it.

  \<open>wire\<close> are the data bytes between the pump and the application, \<open>grants\<close> the credit frames
  on their way back, \<open>listed\<close> whether the counter is in the table of the connection loop.
\<close>

definition PUMP_BUFFER :: nat where [code_consts]: "PUMP_BUFFER = 32 * 1024"
definition PIPE_SIZE :: nat where [code_consts]: "PIPE_SIZE = 64 * 1024"
definition OUTBOUND_QUEUE :: nat where [code_consts]: "OUTBOUND_QUEUE = 256"

subsection \<open>The operations\<close>

definition window_open :: "u64 \<Rightarrow> bool" where
  "window_open outstanding = (outstanding < RECV_WINDOW)"

definition credit_sent :: "u64 \<Rightarrow> u64 \<Rightarrow> u64" where
  "credit_sent outstanding n = outstanding + n"

definition credit_grant :: "u64 \<Rightarrow> u64 \<Rightarrow> u64" where
  "credit_grant outstanding n = saturating_sub outstanding n"

text \<open>
  \<open>CreditReader::poll_read\<close> after \<open>n\<close> bytes were read: the new \<open>pending\<close> and the credit
  frame it queued.
\<close>

definition credit_poll :: "u64 \<Rightarrow> u64 \<Rightarrow> bool \<Rightarrow> u64 \<times> u64 option" where
  "credit_poll pending n try_ok =
     (if n > 0 then
        let pending = pending + n in
        if pending \<ge> CREDIT_BATCH then
          let amt = pending in
          if try_ok then (0, Some amt) else (pending, None)
        else (pending, None)
      else (pending, None))"

text \<open>\<open>wait_window\<close>: whether it returns at once, and the metrics.\<close>

definition wait_window :: "metrics \<Rightarrow> u64 \<Rightarrow> bool \<times> metrics" where
  "wait_window m outstanding =
     (if window_open outstanding then (True, m)
      else (False, m\<lparr>mt_ws_credit_waits := mt_ws_credit_waits m + 1\<rparr>))"

subsection \<open>The state machine\<close>

datatype pump_pc = Waiting | Reading | Counting u64

record flow =
  fl_pc :: pump_pc
  fl_outstanding :: u64
  fl_wire :: nat
  fl_pending :: u64
  fl_grants :: "u64 list"
  fl_listed :: bool

definition flow_init :: flow where
  "flow_init = \<lparr>fl_pc = Waiting, fl_outstanding = 0, fl_wire = 0, fl_pending = 0, fl_grants = [], fl_listed = True\<rparr>"

datatype flow_event = Pass | Send nat | Count | Read nat bool | Arrive | Peer_closes

fun flow_step :: "flow \<Rightarrow> flow_event \<Rightarrow> flow option" where
  "flow_step s Pass =
     (if fl_pc s = Waiting \<and> window_open (fl_outstanding s) then Some (s\<lparr>fl_pc := Reading\<rparr>) else None)"
| "flow_step s (Send n) =
     (if fl_pc s = Reading \<and> 0 < n \<and> n \<le> PUMP_BUFFER
      then Some (s\<lparr>fl_wire := fl_wire s + n, fl_pc := Counting (of_nat n)\<rparr>) else None)"
| "flow_step s Count =
     (case fl_pc s of
        Counting n \<Rightarrow> Some (s\<lparr>fl_outstanding := credit_sent (fl_outstanding s) n, fl_pc := Waiting\<rparr>)
      | _ \<Rightarrow> None)"
| "flow_step s (Read n ok) =
     (if 0 < n \<and> n \<le> PIPE_SIZE \<and> n \<le> fl_wire s
      then (let (pending, frame) = credit_poll (fl_pending s) (of_nat n) ok
            in Some (s\<lparr>fl_wire := fl_wire s - n, fl_pending := pending,
                       fl_grants := fl_grants s @ (case frame of None \<Rightarrow> [] | Some amt \<Rightarrow> [amt])\<rparr>))
      else None)"
| "flow_step s Arrive =
     (case fl_grants s of
        [] \<Rightarrow> None
      | g # gs \<Rightarrow>
          Some (s\<lparr>fl_outstanding := if fl_listed s then credit_grant (fl_outstanding s) g else fl_outstanding s,
                  fl_grants := gs\<rparr>))"
| "flow_step s Peer_closes = Some (s\<lparr>fl_listed := False\<rparr>)"

fun flow_run :: "flow \<Rightarrow> flow_event list \<Rightarrow> flow option" where
  "flow_run s [] = Some s"
| "flow_run s (e # es) = (case flow_step s e of None \<Rightarrow> None | Some s' \<Rightarrow> flow_run s' es)"

subsection \<open>The window bounds what is in flight\<close>

definition uncounted :: "flow \<Rightarrow> nat" where
  "uncounted s = (case fl_pc s of Counting n \<Rightarrow> unat n | _ \<Rightarrow> 0)"

definition in_flight :: "flow \<Rightarrow> nat" where
  "in_flight s = fl_wire s + unat (fl_pending s) + sum_list (map unat (fl_grants s))"

definition flow_inv :: "flow \<Rightarrow> bool" where
  "flow_inv s \<longleftrightarrow>
     in_flight s \<le> unat (fl_outstanding s) + uncounted s \<and>
     (case fl_pc s of
        Waiting \<Rightarrow> unat (fl_outstanding s) < 524288 + PUMP_BUFFER
      | Reading \<Rightarrow> unat (fl_outstanding s) < 524288
      | Counting n \<Rightarrow> unat (fl_outstanding s) < 524288 \<and> unat n \<le> PUMP_BUFFER)"

lemma flow_inv_listed [simp]: "flow_inv (s\<lparr>fl_listed := b\<rparr>) = flow_inv s"
  by (cases "fl_pc s") (simp_all add: flow_inv_def in_flight_def uncounted_def)

lemma unat_add_small: "unat (a :: u64) + unat b < 2 ^ 64 \<Longrightarrow> unat (a + b) = unat a + unat b"
  by (simp add: unat_word_ariths)

lemma unat_of_nat_small: "n < 2 ^ 64 \<Longrightarrow> unat (of_nat n :: u64) = n"
  by (simp add: unat_of_nat)

lemma credit_poll_amount:
  assumes "credit_poll p n ok = (p', f)" "unat p + unat n < 2 ^ 64"
  shows "unat p' + (case f of None \<Rightarrow> 0 | Some amt \<Rightarrow> unat amt) = unat p + unat n"
  using assms by (auto simp: credit_poll_def Let_def unat_add_small word_gt_0 split: if_splits)

lemma read_in_flight:
  assumes inv: "flow_inv s" and step: "flow_step s (Read n ok) = Some s'"
  shows "in_flight s' = in_flight s"
proof -
  obtain p f where pf: "credit_poll (fl_pending s) (of_nat n) ok = (p, f)" by (cases "credit_poll (fl_pending s) (of_nat n) ok")
  from step have n: "n \<le> PIPE_SIZE" "n \<le> fl_wire s"
    and s': "s' = s\<lparr>fl_wire := fl_wire s - n, fl_pending := p,
                fl_grants := fl_grants s @ (case f of None \<Rightarrow> [] | Some amt \<Rightarrow> [amt])\<rparr>"
    by (auto simp: pf split: if_splits)
  have u: "unat (of_nat n :: u64) = n" using n(1) by (simp add: code_consts unat_of_nat_small)
  have "unat (fl_pending s) \<le> 2 ^ 21"
    using inv by (auto simp: flow_inv_def in_flight_def uncounted_def code_consts split: pump_pc.splits)
  then have "unat p + (case f of None \<Rightarrow> 0 | Some amt \<Rightarrow> unat amt) = unat (fl_pending s) + n"
    using credit_poll_amount [OF pf] n(1) by (simp add: u code_consts)
  then show ?thesis
    using n(2) by (auto simp: in_flight_def s' split: option.splits)
qed

lemma flow_step_inv:
  assumes inv: "flow_inv s" and step: "flow_step s e = Some s'"
  shows "flow_inv s'"
proof (cases e)
  case Pass
  with assms show ?thesis
    by (auto simp: flow_inv_def in_flight_def uncounted_def window_open_def code_consts
        word_less_nat_alt split: if_splits)
next
  case (Send n)
  with assms show ?thesis
    by (auto simp: flow_inv_def in_flight_def uncounted_def code_consts unat_of_nat_small split: if_splits)
next
  case Count
  with assms obtain n where n: "fl_pc s = Counting n" by (auto split: pump_pc.splits)
  with inv have "unat (fl_outstanding s) < 524288" "unat n \<le> PUMP_BUFFER" by (auto simp: flow_inv_def)
  then have "unat (fl_outstanding s + n) = unat (fl_outstanding s) + unat n"
    by (intro unat_add_small) (simp add: code_consts)
  with Count n assms show ?thesis
    by (auto simp: flow_inv_def in_flight_def uncounted_def credit_sent_def)
next
  case (Read n ok)
  from step Read have "fl_outstanding s' = fl_outstanding s" "fl_pc s' = fl_pc s"
    by (auto simp: Let_def split: if_splits prod.splits)
  with inv read_in_flight [OF inv step [unfolded Read]] show ?thesis
    by (auto simp: flow_inv_def uncounted_def split: pump_pc.splits)
next
  case Arrive
  with step obtain g gs where g: "fl_grants s = g # gs"
    and s': "s' = s\<lparr>fl_outstanding := if fl_listed s then credit_grant (fl_outstanding s) g else fl_outstanding s,
      fl_grants := gs\<rparr>"
    by (auto split: list.splits)
  have "unat (credit_grant (fl_outstanding s) g) = unat (fl_outstanding s) - unat g"
    by (simp add: credit_grant_def unat_saturating_sub)
  with inv g show ?thesis
    by (auto simp: flow_inv_def in_flight_def uncounted_def s' split: pump_pc.splits)
next
  case Peer_closes
  with assms show ?thesis by auto
qed

lemma flow_run_inv: "flow_inv s \<Longrightarrow> flow_run s es = Some s' \<Longrightarrow> flow_inv s'"
  by (induction es arbitrary: s) (auto split: option.splits dest: flow_step_inv)

lemma flow_inv_init: "flow_inv flow_init"
  by (simp add: flow_inv_def flow_init_def in_flight_def uncounted_def code_consts)

subsection \<open>As long as credit frames find room, nothing gets stuck\<close>

text \<open>
  The pump counts a chunk only after queueing it, so its credit may come back before it was
  counted, and the saturating subtraction then forgets a part of that credit. The loss cannot pile
  up: the counter never exceeds what is in flight by more than one chunk.
\<close>

fun reads_credited :: "flow_event list \<Rightarrow> bool" where
  "reads_credited [] = True"
| "reads_credited (Read n ok # es) = (ok \<and> reads_credited es)"
| "reads_credited (_ # es) = reads_credited es"

definition tight :: "flow \<Rightarrow> bool" where
  "tight s \<longleftrightarrow> fl_listed s \<and> unat (fl_outstanding s) + uncounted s \<le> in_flight s + PUMP_BUFFER \<and>
     fl_pending s < CREDIT_BATCH"

lemma credit_poll_small:
  assumes "credit_poll p n True = (p', f)" "p < CREDIT_BATCH"
  shows "p' < CREDIT_BATCH"
  using assms by (auto simp: credit_poll_def Let_def code_consts split: if_splits)

lemma tight_read:
  assumes t: "tight s" and step: "flow_step s (Read n True) = Some s'"
  shows "tight s'"
proof -
  obtain p f where pf: "credit_poll (fl_pending s) (of_nat n) True = (p, f)"
    by (cases "credit_poll (fl_pending s) (of_nat n) True")
  from step have n: "n \<le> PIPE_SIZE" "n \<le> fl_wire s"
    and s': "s' = s\<lparr>fl_wire := fl_wire s - n, fl_pending := p,
                fl_grants := fl_grants s @ (case f of None \<Rightarrow> [] | Some amt \<Rightarrow> [amt])\<rparr>"
    by (auto simp: pf split: if_splits)
  have u: "unat (of_nat n :: u64) = n" using n(1) by (simp add: code_consts unat_of_nat_small)
  have "unat (fl_pending s) < 2 ^ 20"
    using t by (simp add: tight_def code_consts word_less_nat_alt)
  then have "unat p + (case f of None \<Rightarrow> 0 | Some amt \<Rightarrow> unat amt) = unat (fl_pending s) + n"
    using credit_poll_amount [OF pf] n(1) by (simp add: u code_consts)
  then have "in_flight s' = in_flight s"
    using n(2) by (auto simp: in_flight_def s' split: option.splits)
  moreover have "p < CREDIT_BATCH" using credit_poll_small [OF pf] t by (simp add: tight_def)
  ultimately show ?thesis using t by (simp add: tight_def uncounted_def s')
qed

lemma tight_arrive:
  assumes inv: "flow_inv s" and t: "tight s" and step: "flow_step s Arrive = Some s'"
  shows "tight s'"
proof -
  from step obtain g gs where g: "fl_grants s = g # gs"
    and s': "s' = s\<lparr>fl_outstanding := credit_grant (fl_outstanding s) g, fl_grants := gs\<rparr>"
    using t by (auto simp: tight_def split: list.splits)
  have "unat (credit_grant (fl_outstanding s) g) = unat (fl_outstanding s) - unat g"
    by (simp add: credit_grant_def unat_saturating_sub)
  moreover have "uncounted s \<le> PUMP_BUFFER"
    using inv by (auto simp: flow_inv_def uncounted_def split: pump_pc.splits)
  ultimately show ?thesis using t g by (auto simp: tight_def in_flight_def uncounted_def s')
qed

lemma tight_pump:
  assumes inv: "flow_inv s" and t: "tight s" and step: "flow_step s e = Some s'"
    and e: "e = Pass \<or> e = Send n \<or> e = Count"
  shows "tight s'"
  using e
proof (elim disjE)
  assume "e = Pass"
  with t step show ?thesis by (auto simp: tight_def in_flight_def uncounted_def split: if_splits)
next
  assume "e = Send n"
  with t step show ?thesis
    by (auto simp: tight_def in_flight_def uncounted_def code_consts unat_of_nat_small split: if_splits)
next
  assume e: "e = Count"
  with step obtain n where n: "fl_pc s = Counting n" by (auto split: pump_pc.splits)
  with inv have "unat (fl_outstanding s) < 524288" "unat n \<le> PUMP_BUFFER" by (auto simp: flow_inv_def)
  then have "unat (fl_outstanding s + n) = unat (fl_outstanding s) + unat n"
    by (intro unat_add_small) (simp add: code_consts)
  with e n t step show ?thesis by (auto simp: tight_def in_flight_def uncounted_def credit_sent_def)
qed

lemma tight_step:
  assumes "flow_inv s" "tight s" "flow_step s e = Some s'" "reads_credited [e]" "e \<noteq> Peer_closes"
  shows "tight s'"
proof (cases e)
  case (Read n ok)
  with assms show ?thesis by (auto intro: tight_read simp del: flow_step.simps)
next
  case Arrive
  with assms show ?thesis by (auto intro: tight_arrive simp del: flow_step.simps)
qed (use assms tight_pump in \<open>blast+\<close>)

lemma reads_credited_Cons: "reads_credited (e # es) \<longleftrightarrow> reads_credited [e] \<and> reads_credited es"
  by (cases e) auto

lemma tight_run:
  "reads_credited es \<Longrightarrow> Peer_closes \<notin> set es \<Longrightarrow> flow_inv s \<Longrightarrow> tight s \<Longrightarrow> flow_run s es = Some s' \<Longrightarrow> flow_inv s' \<and> tight s'"
proof (induction es arbitrary: s)
  case (Cons e es)
  from Cons.prems(5) obtain s1 where 1: "flow_step s e = Some s1" and run: "flow_run s1 es = Some s'"
    by (auto split: option.splits)
  from Cons.prems(1) have ok: "reads_credited [e]" "reads_credited es"
    using reads_credited_Cons by blast+
  from Cons.prems(2) have nc: "e \<noteq> Peer_closes" "Peer_closes \<notin> set es" by auto
  show ?case
    using Cons.IH [OF ok(2) nc(2) flow_step_inv [OF Cons.prems(3) 1]
        tight_step [OF Cons.prems(3,4) 1 ok(1) nc(1)] run] .
qed simp

lemma tight_init: "tight flow_init"
  by (simp add: tight_def flow_init_def in_flight_def uncounted_def code_consts)

text \<open>Somebody can act: the pump, the application or the credit on its way.\<close>

definition can_act :: "flow \<Rightarrow> bool" where
  "can_act s \<longleftrightarrow>
     flow_step s Pass \<noteq> None \<or> flow_step s (Send 1) \<noteq> None \<or> flow_step s Count \<noteq> None \<or>
     flow_step s (Read 1 True) \<noteq> None \<or> flow_step s Arrive \<noteq> None"

lemma tight_can_act:
  assumes t: "tight s"
  shows "can_act s"
proof -
  have "can_act s" if "fl_pc s = Waiting" "fl_wire s = 0" "fl_grants s = []"
  proof -
    from t that have "unat (fl_outstanding s) < 524288"
      by (simp add: tight_def in_flight_def uncounted_def code_consts word_less_nat_alt)
    then have "window_open (fl_outstanding s)" by (simp add: window_open_def code_consts word_less_nat_alt)
    with that show ?thesis by (simp add: can_act_def)
  qed
  then show ?thesis
    by (cases "fl_pc s"; cases "fl_wire s = 0"; cases "fl_grants s")
      (auto simp: can_act_def code_consts split: prod.splits)
qed

subsection \<open>Properties\<close>

text \<open>
  (C28) The window bounds the memory of a stream: in every run, racing or not, with or without lost
  credits, fewer than 544 KiB of a stream are on the wire, in queues and unread or unacknowledged at
  the receiver.
\<close>

theorem window_bounds_flight:
  assumes "flow_run flow_init es = Some s"
  shows "fl_wire s + unat (fl_pending s) + sum_list (map unat (fl_grants s)) < 544 * 1024"
  using flow_run_inv [OF flow_inv_init assms]
  by (auto simp: flow_inv_def in_flight_def uncounted_def code_consts split: pump_pc.splits)

theorem window_bounds_flight_witness:
  "\<exists>s. flow_run flow_init [Pass, Send 1000, Count, Read 400 True] = Some s \<and> fl_wire s = 600 \<and>
     fl_wire s + unat (fl_pending s) + sum_list (map unat (fl_grants s)) < 544 * 1024"
proof -
  obtain s where s: "flow_run flow_init [Pass, Send 1000, Count, Read 400 True] = Some s" "fl_wire s = 600"
    by (simp add: flow_init_def window_open_def credit_poll_def code_consts Let_def)
  from window_bounds_flight [OF s(1)] s show ?thesis by blast
qed

text \<open>
  A peer that does not implement credit frames gets at most 544 KiB of a stream: while no credit
  arrives, that is all the pump ever sends. The protocol lets such peers ignore the frames and says
  that senders must not rely on their credits.
\<close>

fun bytes_sent :: "flow_event list \<Rightarrow> nat" where
  "bytes_sent [] = 0"
| "bytes_sent (Send n # es) = n + bytes_sent es"
| "bytes_sent (_ # es) = bytes_sent es"

text \<open>While no credit reaches the counter, everything sent is still in flight or was a dropped credit.\<close>

lemma uncredited_sent:
  "flow_inv s \<Longrightarrow> flow_run s es = Some s' \<Longrightarrow> Arrive \<notin> set es \<or> \<not> fl_listed s \<Longrightarrow>
   unat (fl_outstanding s') + uncounted s' = unat (fl_outstanding s) + uncounted s + bytes_sent es"
proof (induction es arbitrary: s)
  case (Cons e es)
  from Cons.prems(2) obtain s1 where 1: "flow_step s e = Some s1" "flow_run s1 es = Some s'"
    by (auto split: option.splits)
  have "unat (fl_outstanding s1) + uncounted s1 = unat (fl_outstanding s) + uncounted s + bytes_sent [e]"
  proof (cases e)
    case Count
    with 1(1) obtain n where n: "fl_pc s = Counting n" by (auto split: pump_pc.splits)
    with Cons.prems(1) have "unat (fl_outstanding s) < 524288" "unat n \<le> PUMP_BUFFER" by (auto simp: flow_inv_def)
    then have "unat (fl_outstanding s + n) = unat (fl_outstanding s) + unat n"
      by (intro unat_add_small) (simp add: code_consts)
    with Count n 1(1) show ?thesis by (auto simp: uncounted_def credit_sent_def)
  qed (use 1(1) Cons.prems(3) in
      \<open>auto simp: uncounted_def code_consts unat_of_nat_small split_beta Let_def split: if_splits pump_pc.splits list.splits\<close>)
  moreover have "Arrive \<notin> set es \<or> \<not> fl_listed s1"
    using 1(1) Cons.prems(3) by (cases e) (auto simp: split_beta Let_def split: if_splits pump_pc.splits list.splits)
  moreover have "bytes_sent (e # es) = bytes_sent [e] + bytes_sent es" by (cases e) simp_all
  ultimately show ?case using Cons.IH [OF flow_step_inv [OF Cons.prems(1) 1(1)] 1(2)] by simp
qed simp

lemma uncredited_bound:
  assumes "flow_inv s" "flow_run s es = Some s'" "Arrive \<notin> set es \<or> \<not> fl_listed s"
  shows "bytes_sent es \<le> 544 * 1024"
  using uncredited_sent [OF assms] flow_run_inv [OF assms(1,2)]
  by (auto simp: flow_inv_def uncounted_def code_consts split: pump_pc.splits)

theorem peer_without_credits_starves:
  assumes "flow_run flow_init es = Some s" and "Arrive \<notin> set es"
  shows "bytes_sent es \<le> 544 * 1024"
  using uncredited_bound [OF flow_inv_init assms(1)] assms(2) by blast

theorem peer_without_credits_starves_witness:
  "bytes_sent [Pass, Send 1000, Count, Pass, Send 5] \<le> 544 * 1024"
  by (rule peer_without_credits_starves [where s = "the (flow_run flow_init [Pass, Send 1000, Count, Pass, Send 5])"])
    (simp_all add: flow_init_def window_open_def credit_sent_def code_consts)

text \<open>
  (C29) When a direction of a stream stalls. As long as credit frames find room in the command queue and
  the peer has not closed its own direction, it never does: in every interleaving of the pump, the
  application and the credits on their way, also when a credit comes back before its chunk was
  counted, some party can act. Once the \<open>STREAM_CLOSE\<close> of the peer's direction has arrived, no credit
  counts any more, and not more than 544 KiB follow, whatever the application reads.
\<close>

theorem credited_flow_never_stalls:
  assumes "flow_run flow_init es = Some s"
  shows "(reads_credited es \<and> Peer_closes \<notin> set es \<longrightarrow> can_act s) \<and>
    (\<forall>es' s'. flow_run s (Peer_closes # es') = Some s' \<longrightarrow> bytes_sent es' \<le> 544 * 1024)"
proof -
  have inv: "flow_inv (s\<lparr>fl_listed := False\<rparr>)"
    using flow_run_inv [OF flow_inv_init assms] by simp
  have "bytes_sent es' \<le> 544 * 1024" if "flow_run s (Peer_closes # es') = Some s'" for es' s'
    using uncredited_bound [OF inv, of es' s'] that by simp
  moreover have "can_act s" if "reads_credited es" "Peer_closes \<notin> set es"
    using tight_run [OF that flow_inv_init tight_init assms] by (blast intro: tight_can_act)
  ultimately show ?thesis by blast
qed

theorem credited_flow_never_stalls_witness:
  "\<exists>s s'. flow_run flow_init [Pass, Send 1000, Read 400 True, Count] = Some s \<and> can_act s \<and>
    flow_run s (Peer_closes # [Pass, Send 7]) = Some s' \<and> bytes_sent [Pass, Send 7] \<le> 544 * 1024"
proof -
  obtain s s' where s: "flow_run flow_init [Pass, Send 1000, Read 400 True, Count] = Some s"
    "flow_run s (Peer_closes # [Pass, Send 7]) = Some s'"
    by (simp add: flow_init_def window_open_def credit_poll_def credit_sent_def code_consts Let_def)
  from credited_flow_never_stalls [OF s(1)] s have "can_act s" "bytes_sent [Pass, Send 7] \<le> 544 * 1024"
    by (simp, blast)
  with s show ?thesis by blast
qed

text \<open>
  A full command queue can stall a stream for ever: the retry of a refused credit frame waits
  for the next read of at least one byte, and when the sender has used up its window there is none.
  Here 512 KiB are sent and read while the queue refuses the credit, and then no event is possible but
  that the peer closes its direction, which does not help, although every byte was delivered.
\<close>

theorem refused_credit_stalls_flow:
  "\<exists>s. flow_run flow_init
          (concat (replicate 16 [Pass, Send 32768, Count]) @ replicate 8 (Read 65536 False)) = Some s \<and>
        fl_wire s = 0 \<and> (\<forall>e. e \<noteq> Peer_closes \<longrightarrow> flow_step s e = None)"
proof -
  obtain s where s: "flow_run flow_init
        (concat (replicate 16 [Pass, Send 32768, Count]) @ replicate 8 (Read 65536 False)) = Some s"
      "s = \<lparr>fl_pc = Waiting, fl_outstanding = 524288, fl_wire = 0, fl_pending = 524288, fl_grants = [], fl_listed = True\<rparr>"
    by (simp add: replicate_numeral flow_init_def window_open_def credit_sent_def credit_poll_def
        code_consts Let_def)
  have "flow_step s e = None" if "e \<noteq> Peer_closes" for e
    using that by (cases e) (auto simp: s(2) window_open_def code_consts)
  with s show ?thesis by simp
qed

end
