(* ===== verification/Quic_Transport.thy ===== *)
theory Quic_Transport
  imports Messages Byte_Stream
begin

section \<open>The QUIC transport\<close>

text \<open>
  \<open>src/crates/hydr-transport/src/quic.rs\<close>: length-prefixed messages over a bidirectional QUIC
  stream, the two handshakes and the opening of a stream. The quinn library is outside; what the
  code uses of it is a bidirectional stream.

  \<open>read_message\<close> allocates a buffer of the announced length before a byte of the body has
  arrived. How much memory can be had is the argument \<open>mem\<close>; asking for more aborts the process.
\<close>

subsection \<open>Messages\<close>

text \<open>\<open>vec![0u8; n]\<close>.\<close>

definition vec_zeroed :: "nat \<Rightarrow> nat \<Rightarrow> bytes result" where
  "vec_zeroed mem n = (if n \<le> mem then Ok (replicate n 0) else Crash)"

definition read_varint :: "u64 stream_op" where
  "read_varint =
     op_bind (read_exact 1) (\<lambda>first.
       let tag = drop_bit 6 (hd first);
           len = push_bit (unat tag) 1
       in op_bind (if len > 1 then read_exact (len - 1) else op_return (Ok [])) (\<lambda>tail.
            op_bind (op_return (decode_varint (hd first # tail))) (\<lambda>(v, used). op_return (Ok v))))"

definition write_varint :: "u64 \<Rightarrow> unit stream_op" where
  "write_varint v = write_all (encode_varint [] v)"

definition read_message :: "nat \<Rightarrow> (bytes \<Rightarrow> ('a \<times> nat) result) \<Rightarrow> 'a stream_op" where
  "read_message mem decode =
     op_bind read_varint (\<lambda>len.
     op_bind (op_return (vec_zeroed mem (unat len))) (\<lambda>buf.
     op_bind (read_exact (length buf)) (\<lambda>buf.
     op_bind (op_return (decode buf)) (\<lambda>(msg, used). op_return (Ok msg)))))"

definition write_len_prefixed :: "bytes \<Rightarrow> unit stream_op" where
  "write_len_prefixed buf =
     op_bind (write_varint (of_nat (length buf))) (\<lambda>_. write_all buf)"

subsection \<open>Handshakes\<close>

text \<open>
  Both sides run on the first bidirectional stream of the connection, once \<open>open_bi\<close> and
  \<open>accept_bi\<close> have returned it; an error of those two is passed on as it is.
\<close>

definition client_handshake :: "nat \<Rightarrow> auth_request \<Rightarrow> unit stream_op" where
  "client_handshake mem auth =
     op_bind (write_len_prefixed (encode_auth_request [] auth)) (\<lambda>_.
     op_bind (read_message mem decode_auth_response) (\<lambda>resp.
       op_return
         (if ar_status resp = STATUS_ERR then Fail (Message (from_utf8_lossy (ar_message resp)))
          else Ok ())))"

definition server_handshake ::
  "nat \<Rightarrow> ('v \<Rightarrow> auth_request \<Rightarrow> auth_response result \<times> 'v) \<Rightarrow> 'v \<Rightarrow> bi_stream
     \<Rightarrow> (auth_request result \<times> 'v) \<times> bi_stream" where
  "server_handshake mem validate v s =
     (case read_message mem decode_auth_request s of
        (Inl e, s) \<Rightarrow> ((Inl e, v), s)
      | (Inr req, s) \<Rightarrow>
          (case validate v req of
             (Inl e, v) \<Rightarrow> ((Inl e, v), s)
           | (Inr resp, v) \<Rightarrow>
               (case write_len_prefixed (encode_auth_response [] resp) s of
                  (Inl e, s) \<Rightarrow> ((Inl e, v), s)
                | (Inr _, s) \<Rightarrow> ((Ok req, v), s))))"

subsection \<open>Opening a stream\<close>

text \<open>\<open>format!("[code {}] {}", ...)\<close>.\<close>

definition code_message :: "u8 \<Rightarrow> rstring \<Rightarrow> rstring" where
  "code_message code text = lit ''[code '' @ show_word code @ lit ''] '' @ text"

definition quic_open_stream :: "nat \<Rightarrow> address \<Rightarrow> unit stream_op" where
  "quic_open_stream mem addr =
     op_bind (write_len_prefixed (encode_open_stream [] \<lparr>os_address = addr\<rparr>)) (\<lambda>_.
     op_bind (read_message mem decode_open_stream_ack) (\<lambda>ack.
       op_return
         (if oa_status ack = STATUS_ERR
          then Fail (Message (code_message (oa_error_code ack) (from_utf8_lossy (oa_message ack))))
          else Ok ())))"

definition quic_accept_stream :: "nat \<Rightarrow> address stream_op" where
  "quic_accept_stream mem =
     op_bind (read_message mem decode_open_stream) (\<lambda>req. op_return (Ok (os_address req)))"

definition quic_ack :: "u8 \<Rightarrow> u8 \<Rightarrow> bytes \<Rightarrow> unit stream_op" where
  "quic_ack status error_code message =
     write_len_prefixed
       (encode_open_stream_ack []
          \<lparr>oa_status = status, oa_error_code = error_code, oa_message = message\<rparr>)"

text \<open>Datagrams: \<open>send\<close> is quinn's \<open>send_datagram\<close>, \<open>data\<close> what its \<open>read_datagram\<close> returned.\<close>

definition quic_send_datagram :: "(bytes \<Rightarrow> rstring option) \<Rightarrow> datagram \<Rightarrow> unit result" where
  "quic_send_datagram send dg =
     (case send (encode_datagram [] dg) of None \<Rightarrow> Ok () | Some text \<Rightarrow> Fail (to_io_error text))"

definition quic_recv_datagram :: "rstring + bytes \<Rightarrow> datagram result" where
  "quic_recv_datagram data =
     (case data of
        Inl text \<Rightarrow> Fail (to_io_error text)
      | Inr data \<Rightarrow> and_then (decode_datagram data) (\<lambda>(d, used). Ok d))"

subsection \<open>Reading back what was written\<close>

definition framed :: "bytes \<Rightarrow> bytes" where
  "framed buf = encode_varint [] (of_nat (length buf)) @ buf"

lemma write_len_prefixed_run:
  "bi_write_error s = None \<Longrightarrow>
     write_len_prefixed buf s = (Ok (), s\<lparr>bi_sent := bi_sent s @ framed buf\<rparr>)"
  by (simp add: write_len_prefixed_def write_varint_def op_bind_def write_all_def framed_def)

lemma write_len_prefixed_not_crash [simp]: "fst (write_len_prefixed buf s) \<noteq> Crash"
  by (simp add: write_len_prefixed_def write_varint_def op_bind_crash write_all_def split: option.splits)

text \<open>The stream reader and the decoder of the varint agree.\<close>

lemma read_varint_decode:
  assumes "decode_varint (bi_recv s) = Ok (v, n)"
  shows "read_varint s = (Ok v, s\<lparr>bi_recv := drop n (bi_recv s)\<rparr>)"
proof (cases "bi_recv s")
  case Nil
  with assms show ?thesis by (simp add: decode_varint_def get_or_eof_def)
next
  case (Cons b bs)
  have n: "n = push_bit (unat (drop_bit 6 b)) 1" and le: "n \<le> Suc (length bs)"
    and v: "v = foldl shift_in (ucast (b AND 0x3F)) (take (n - 1) bs)"
    using assms Cons
    by (auto simp: decode_varint_def get_or_eof_def slice_range_def Let_def split: if_splits)
  have n': "2 ^ unat (drop_bit 6 b) = n" by (simp add: n push_bit_eq_mult)
  have pos: "1 \<le> n" by (simp flip: n')
  have dec: "decode_varint (b # take (n - 1) bs) = Ok (v, n)"
    using le pos by (auto simp: decode_varint_def get_or_eof_def slice_range_def Let_def n' v push_bit_eq_mult)
  have first: "read_exact 1 s = (Ok [b], s\<lparr>bi_recv := bs\<rparr>)"
    by (simp add: read_exact_def Cons)
  have rest: "(if n > 1 then read_exact (n - 1) else op_return (Ok [])) (s\<lparr>bi_recv := bs\<rparr>) =
      (Ok (take (n - 1) bs), s\<lparr>bi_recv := drop (n - 1) bs\<rparr>)"
    using le pos by (auto simp: read_exact_def)
  have tl: "drop n (b # bs) = drop (n - 1) bs" using pos by (simp add: drop_Cons')
  show ?thesis
    using first rest dec pos
    by (cases "n = 1") (simp_all add: read_varint_def op_bind_def Let_def push_bit_eq_mult n' Cons tl)
qed

lemma read_varint_written:
  assumes "v < 2 ^ 62" "bi_recv s = encode_varint [] v @ rest" "length (bi_recv s) \<le> isize_max"
  shows "read_varint s = (Ok v, s\<lparr>bi_recv := rest\<rparr>)"
  using read_varint_decode [OF varint_codec.decode_encode_rest [OF assms(1), of rest, folded assms(2)]]
    assms by simp

lemma read_varint_not_crash [simp]: "fst (read_varint s) \<noteq> Crash"
  by (simp add: read_varint_def op_bind_crash read_exact_def Let_def decode_varint_no_panic
      split: prod.splits)

context whole_codec
begin

text \<open>
  A message of any codec of the crate that was written with \<open>write_len_prefixed\<close> is read back by
  \<open>read_message\<close>, and whatever follows it stays in the stream.
\<close>

lemma read_message_written:
  assumes "wf x" "length (encode x) < 2 ^ 62" "length (encode x) \<le> mem"
    and "bi_recv s = framed (encode x) @ rest" "length (bi_recv s) \<le> isize_max"
  shows "read_message mem decode s = (Ok x, s\<lparr>bi_recv := rest\<rparr>)"
proof -
  let ?n = "of_nat (length (encode x)) :: u64"
  have n: "unat ?n = length (encode x)" using assms(2) by (simp add: unat_of_nat)
  then have "?n < 2 ^ 62" using assms(2) by (simp add: word_less_nat_alt)
  then have "read_varint s = (Ok ?n, s\<lparr>bi_recv := encode x @ rest\<rparr>)"
    using assms(4,5) by (intro read_varint_written) (simp_all add: framed_def)
  moreover have "length (encode x) \<le> isize_max" using assms(2) by (simp add: isize_max_def)
  then have "decode (encode x) = Ok (x, length (encode x))" by (rule decode_encode [OF assms(1)])
  ultimately show ?thesis
    using assms(3) n by (simp add: read_message_def op_bind_def vec_zeroed_def read_exact_def)
qed

text \<open>With memory for the announced length, no input makes the reader panic.\<close>

lemma read_message_safe:
  assumes "length (bi_recv s) \<le> isize_max"
    and "\<And>len s'. read_varint s = (Ok len, s') \<Longrightarrow> unat len \<le> mem"
  shows "fst (read_message mem decode s) \<noteq> Crash"
proof
  assume "fst (read_message mem decode s) = Crash"
  then obtain len s' where 1: "read_varint s = (Ok len, s')"
    and *: "fst (op_bind (op_return (vec_zeroed mem (unat len))) (\<lambda>buf.
       op_bind (read_exact (length buf)) (\<lambda>buf.
       op_bind (op_return (decode buf)) (\<lambda>(msg, used). op_return (Ok msg)))) s') = Crash"
    by (auto simp: read_message_def op_bind_crash)
  from assms(2) [OF 1] * obtain buf s'' where buf: "read_exact (unat len) s' = (Ok buf, s'')"
    and crash: "decode buf = Crash"
    by (auto simp: vec_zeroed_def op_bind_def read_exact_def split: if_splits prod.splits sum.splits)
  from 1 have "length (bi_recv s') \<le> length (bi_recv s)"
    by (auto simp: read_varint_def op_bind_def read_exact_def Let_def split: if_splits prod.splits sum.splits)
  with buf assms(1) have "length buf \<le> isize_max" by (auto simp: read_exact_def split: if_splits)
  with crash decode_no_panic show False by simp
qed

end

subsection \<open>Both ends of a connection\<close>

lemma read_message_recv_only: "\<exists>r. snd (read_message mem decode s) = s\<lparr>bi_recv := r\<rparr>"
  unfolding read_message_def read_varint_def Let_def
  by (intro op_bind_recv_only recv_only_basic) (auto intro!: op_bind_recv_only recv_only_basic
      split: prod.splits)

lemma client_handshake_sends:
  assumes "bi_write_error c = None"
  shows "bi_sent (snd (client_handshake mem auth c)) = bi_sent c @ framed (encode_auth_request [] auth)"
proof -
  let ?c = "c\<lparr>bi_sent := bi_sent c @ framed (encode_auth_request [] auth)\<rparr>"
  obtain r where "snd (read_message mem decode_auth_response ?c) = ?c\<lparr>bi_recv := r\<rparr>"
    using read_message_recv_only by blast
  then show ?thesis
    using assms by (auto simp: client_handshake_def write_len_prefixed_run op_bind_def
        split: prod.splits sum.splits)
qed

lemma quic_open_stream_sends:
  assumes "bi_write_error c = None"
  shows "bi_sent (snd (quic_open_stream mem addr c)) =
     bi_sent c @ framed (encode_open_stream [] \<lparr>os_address = addr\<rparr>)"
proof -
  let ?c = "c\<lparr>bi_sent := bi_sent c @ framed (encode_open_stream [] \<lparr>os_address = addr\<rparr>)\<rparr>"
  obtain r where "snd (read_message mem decode_open_stream_ack ?c) = ?c\<lparr>bi_recv := r\<rparr>"
    using read_message_recv_only by blast
  then show ?thesis
    using assms by (auto simp: quic_open_stream_def write_len_prefixed_run op_bind_def
        split: prod.splits sum.splits)
qed

lemma length_framed: "length (framed buf) \<le> 8 + length buf"
  using encode_varint_len_bounds(2) [of "of_nat (length buf)"]
  by (simp add: framed_def encode_varint_len_eq code_consts)

lemma framed_fits: "length buf < 2 ^ 62 \<Longrightarrow> length rest \<le> 2 ^ 61 \<Longrightarrow> length (framed buf @ rest) \<le> isize_max"
  using length_framed [of buf] by (simp add: isize_max_def)

text \<open>What the two server-side readers make of a client's message.\<close>

lemma server_reads_request:
  assumes "wf_auth_request auth" "length (encode_auth_request [] auth) \<le> mem" "mem < 2 ^ 62"
    and "bi_recv s = framed (encode_auth_request [] auth)"
  shows "read_message mem decode_auth_request s = (Ok auth, s\<lparr>bi_recv := []\<rparr>)"
  using assms framed_fits [of "encode_auth_request [] auth" "[]"]
  by (intro auth_request_codec.read_message_written) auto

lemma client_reads_response:
  assumes "wf_auth_response resp" "length (encode_auth_response [] resp) \<le> mem" "mem < 2 ^ 62"
    and "bi_recv c = framed (encode_auth_response [] resp)"
  shows "read_message mem decode_auth_response c = (Ok resp, c\<lparr>bi_recv := []\<rparr>)"
  using assms framed_fits [of "encode_auth_response [] resp" "[]"]
  by (intro auth_response_codec.read_message_written) auto

text \<open>Both sides of opening a stream, step by step.\<close>

lemma quic_accept_reads:
  assumes "wf_address addr" "length (encode_open_stream [] \<lparr>os_address = addr\<rparr>) \<le> mem" "mem < 2 ^ 62"
    and "length rest \<le> 2 ^ 61" and "bi_recv s = framed (encode_open_stream [] \<lparr>os_address = addr\<rparr>) @ rest"
  shows "quic_accept_stream mem s = (Ok addr, s\<lparr>bi_recv := rest\<rparr>)"
proof -
  have "read_message mem decode_open_stream s = (Ok \<lparr>os_address = addr\<rparr>, s\<lparr>bi_recv := rest\<rparr>)"
    using assms framed_fits [OF _ assms(4)]
    by (intro open_stream_codec.read_message_written) (simp_all add: wf_open_stream_def)
  then show ?thesis by (simp add: quic_accept_stream_def op_bind_def)
qed

lemma quic_open_reads_ack:
  fixes status code message
  defines "ack \<equiv> \<lparr>oa_status = status, oa_error_code = code, oa_message = message\<rparr>"
  assumes "length message < 2 ^ 60" "length (encode_open_stream_ack [] ack) \<le> mem" "mem < 2 ^ 62"
    and "length rest \<le> 2 ^ 61" and "bi_write_error c = None" "bi_sent c = []"
    and "bi_recv c = framed (encode_open_stream_ack [] ack) @ rest"
  shows "quic_open_stream mem addr c =
    ((if status = STATUS_ERR then Fail (Message (code_message code (from_utf8_lossy message))) else Ok ()),
     c\<lparr>bi_sent := framed (encode_open_stream [] \<lparr>os_address = addr\<rparr>), bi_recv := rest\<rparr>)"
proof -
  have "read_message mem decode_open_stream_ack
      (c\<lparr>bi_sent := framed (encode_open_stream [] \<lparr>os_address = addr\<rparr>)\<rparr>) =
      (Ok ack, c\<lparr>bi_sent := framed (encode_open_stream [] \<lparr>os_address = addr\<rparr>), bi_recv := rest\<rparr>)"
    using assms framed_fits [OF _ assms(5)]
    by (subst open_stream_ack_codec.read_message_written) (simp_all add: wf_open_stream_ack_def)
  then show ?thesis
    using assms by (simp add: quic_open_stream_def write_len_prefixed_run op_bind_def)
qed

subsection \<open>Properties\<close>

text \<open>
  (C33) The two ends of a QUIC handshake agree: connected to each other, the server ends with exactly
  the request of the client, and the client succeeds exactly when the answer of the server's
  validator is not an error, else with the text of that answer.
\<close>

theorem quic_handshake_agreement:
  assumes "wf_auth_request auth" and "validate v auth = (Ok resp, v')" and "wf_auth_response resp"
    and "length (encode_auth_request [] auth) \<le> mem" and "length (encode_auth_response [] resp) \<le> mem"
    and "mem < 2 ^ 62"
    and "bi_write_error c = None" and "bi_sent c = []" and "bi_write_error s = None" and "bi_sent s = []"
    and "bi_recv s = bi_sent (snd (client_handshake mem auth c))"
    and "bi_recv c = bi_sent (snd (server_handshake mem validate v s))"
  shows "fst (server_handshake mem validate v s) = (Ok auth, v') \<and>
     fst (client_handshake mem auth c) =
       (if ar_status resp = STATUS_ERR then Fail (Message (from_utf8_lossy (ar_message resp))) else Ok ())"
proof -
  have "bi_recv s = framed (encode_auth_request [] auth)"
    using client_handshake_sends [OF assms(7), of mem auth] assms(8,11) by simp
  from server_reads_request [OF assms(1,4,6) this]
  have server: "server_handshake mem validate v s =
      ((Ok auth, v'), s\<lparr>bi_recv := [], bi_sent := framed (encode_auth_response [] resp)\<rparr>)"
    using assms(2,9,10) by (simp add: server_handshake_def write_len_prefixed_run)
  then have "bi_recv c = framed (encode_auth_response [] resp)" using assms(12) by simp
  then show ?thesis
    using server client_reads_response [OF assms(3,5,6),
        of "c\<lparr>bi_sent := framed (encode_auth_request [] auth)\<rparr>"] assms(7,8)
    by (simp add: client_handshake_def write_len_prefixed_run op_bind_def)
qed

theorem quic_handshake_agreement_witness:
  "\<exists>(auth :: auth_request) c s.
     fst (server_handshake 1000 (\<lambda>v r. (Ok (auth_response_error (lit ''no'')), v)) () s) = (Ok auth, ()) \<and>
     fst (client_handshake 1000 auth c) = Fail (Message (lit ''no''))"
proof -
  let ?v = "\<lambda>(v :: unit) (r :: auth_request). (Ok (auth_response_error (lit ''no'')) :: auth_response result, v)"
  let ?auth = "\<lparr>aq_version = 1, aq_auth_method = 1, aq_client_nonce = [1, 2], aq_auth_proof = [3],
            aq_cc_rx = 300, aq_features = 1, aq_padding = []\<rparr>"
  let ?s = "\<lparr>bi_recv = framed (encode_auth_request [] ?auth), bi_read_error = [], bi_sent = [], bi_write_error = None\<rparr>"
  let ?c = "\<lparr>bi_recv = framed (encode_auth_response [] (auth_response_error (lit ''no''))),
      bi_read_error = [], bi_sent = [], bi_write_error = None\<rparr>"
  have "read_message 1000 decode_auth_request ?s = (Ok ?auth, ?s\<lparr>bi_recv := []\<rparr>)"
    by (rule server_reads_request) (simp add: wf_auth_request_def, code_simp, simp, simp)
  then have reply: "bi_recv ?c = bi_sent (snd (server_handshake 1000 ?v () ?s))"
    by (simp add: server_handshake_def write_len_prefixed_run)
  have "fst (server_handshake 1000 ?v () ?s) = (Ok ?auth, ()) \<and>
     fst (client_handshake 1000 ?auth ?c) =
       (if ar_status (auth_response_error (lit ''no'')) = STATUS_ERR
        then Fail (Message (from_utf8_lossy (ar_message (auth_response_error (lit ''no''))))) else Ok ())"
    by (rule quic_handshake_agreement)
      (simp add: wf_auth_request_def, rule refl, simp add: wf_auth_response_def auth_response_error_def
         auth_response_error_with_code_def lit_def, code_simp, code_simp, simp, simp, simp, simp, simp,
       simp add: client_handshake_sends, rule reply)
  moreover have "ar_status (auth_response_error (lit ''no'')) = STATUS_ERR \<and>
      from_utf8_lossy (ar_message (auth_response_error (lit ''no''))) = lit ''no''" by code_simp
  ultimately show ?thesis by auto
qed

text \<open>
  Opening a stream over QUIC: the server learns exactly the requested address, the client
  learns the verdict (with the error code in decimal and the message when it is a refusal), and on
  both sides the stream is left at the first byte of the payload the other side sends.
\<close>

theorem quic_open_agreement:
  assumes "wf_address addr" and "length message < 2 ^ 60"
    and "length (encode_open_stream [] \<lparr>os_address = addr\<rparr>) \<le> mem"
    and "length (encode_open_stream_ack [] \<lparr>oa_status = status, oa_error_code = code, oa_message = message\<rparr>) \<le> mem"
    and "mem < 2 ^ 62" and "length up \<le> 2 ^ 61" and "length down \<le> 2 ^ 61"
    and "bi_write_error c = None" and "bi_sent c = []" and "bi_write_error s = None" and "bi_sent s = []"
    and "bi_recv s = bi_sent (snd (quic_open_stream mem addr c)) @ up"
    and "quic_accept_stream mem s = (accepted, s')"
    and "bi_recv c = bi_sent (snd (quic_ack status code message s')) @ down"
  shows "accepted = Ok addr \<and> bi_recv s' = up \<and>
     fst (quic_open_stream mem addr c) =
       (if status = STATUS_ERR then Fail (Message (code_message code (from_utf8_lossy message))) else Ok ()) \<and>
     bi_recv (snd (quic_open_stream mem addr c)) = down"
proof -
  have "bi_recv s = framed (encode_open_stream [] \<lparr>os_address = addr\<rparr>) @ up"
    using quic_open_stream_sends [OF assms(8), of mem addr] assms(9,12) by simp
  from quic_accept_reads [OF assms(1,3,5,6) this]
  have acc: "accepted = Ok addr" "s' = s\<lparr>bi_recv := up\<rparr>" using assms(13) by simp_all
  then have "bi_recv c = framed (encode_open_stream_ack []
      \<lparr>oa_status = status, oa_error_code = code, oa_message = message\<rparr>) @ down"
    using assms(10,11,14) by (simp add: quic_ack_def write_len_prefixed_run)
  from quic_open_reads_ack [OF assms(2,4,5,7,8,9) this] acc show ?thesis by simp
qed

theorem quic_open_agreement_witness:
  "\<exists>s s' c. quic_accept_stream 1000 s = (Ok (Ip (V4 0x01020304) 80), s') \<and> bi_recv s' = [5, 6] \<and>
     fst (quic_open_stream 1000 (Ip (V4 0x01020304) 80) c) =
       Fail (Message (lit ''[code 3] no'')) \<and>
     bi_recv (snd (quic_open_stream 1000 (Ip (V4 0x01020304) 80) c)) = [7]"
proof -
  let ?s = "\<lparr>bi_recv = framed (encode_open_stream [] \<lparr>os_address = Ip (V4 0x01020304) 80\<rparr>) @ [5, 6],
      bi_read_error = [], bi_sent = [], bi_write_error = None\<rparr>"
  let ?ack = "\<lparr>oa_status = STATUS_ERR, oa_error_code = 3, oa_message = lit ''no''\<rparr>"
  let ?c = "\<lparr>bi_recv = framed (encode_open_stream_ack [] ?ack) @ [7],
      bi_read_error = [], bi_sent = [], bi_write_error = None\<rparr>"
  have "Ok (Ip (V4 0x01020304) 80) = Ok (Ip (V4 0x01020304) 80) \<and> bi_recv (?s\<lparr>bi_recv := [5, 6]\<rparr>) = [5, 6] \<and>
     fst (quic_open_stream 1000 (Ip (V4 0x01020304) 80) ?c) =
       (if STATUS_ERR = STATUS_ERR then Fail (Message (code_message 3 (from_utf8_lossy (lit ''no'')))) else Ok ()) \<and>
     bi_recv (snd (quic_open_stream 1000 (Ip (V4 0x01020304) 80) ?c)) = [7]"
    by (rule quic_open_agreement [where s = ?s])
      (simp, simp, code_simp, code_simp, simp, simp, simp, simp, simp, simp, simp,
       simp add: quic_open_stream_sends, code_simp, code_simp)
  moreover have "quic_accept_stream 1000 ?s = (Ok (Ip (V4 0x01020304) 80), ?s\<lparr>bi_recv := [5, 6]\<rparr>)"
    by code_simp
  moreover have "code_message 3 (from_utf8_lossy (lit ''no'')) = lit ''[code 3] no''" by code_simp
  ultimately show ?thesis
    by (intro exI [of _ ?s] exI [of _ "?s\<lparr>bi_recv := [5, 6]\<rparr>"] exI [of _ ?c]) simp_all
qed

text \<open>
  The length of a message is trusted before anybody is authenticated: whatever memory below
  \<open>2 ^ 62 - 1\<close> bytes there is, the same eight bytes make the server's handshake ask for more,
  before the validator is called.
\<close>

theorem handshake_allocates_unchecked:
  assumes "mem < 2 ^ 62 - 1" and "bi_recv s = replicate 8 0xFF @ rest"
  shows "fst (server_handshake mem validate v s) = (Crash, v)"
proof -
  have "decode_varint (bi_recv s) = Ok (2 ^ 62 - 1, 8)"
    by (simp add: assms(2) replicate_numeral decode_varint_def get_or_eof_def slice_range_def
        Let_def shift_in_def)
  from read_varint_decode [OF this]
  have "read_message mem decode_auth_request s = (Crash, s\<lparr>bi_recv := rest\<rparr>)"
    using assms by (simp add: read_message_def op_bind_def vec_zeroed_def)
  then show ?thesis by (simp add: server_handshake_def)
qed

theorem handshake_allocates_unchecked_witness:
  "fst (server_handshake (2 ^ 40) (\<lambda>v r. (Ok (auth_response_error []), v)) ()
     \<lparr>bi_recv = replicate 8 0xFF, bi_read_error = [], bi_sent = [], bi_write_error = None\<rparr>) = (Crash, ())"
  by (rule handshake_allocates_unchecked [where rest = "[]"]) simp_all

end
