(* ===== verification/Tunnel.thy ===== *)
theory Tunnel
  imports Ws_Credit Quic_Transport
begin

section \<open>Tunnels over either transport\<close>

text \<open>
  The caller's side of a WebSocket connection (\<open>WsHandle\<close> and \<open>WsTunnel\<close> of
  \<open>src/crates/hydr-transport/src/ws.rs\<close>), which talks to the connection loop through its command
  queue, and the common face of both transports, \<open>src/crates/hydr-transport/src/lib.rs\<close>.
  What the queue does with a command is an argument.
\<close>

subsection \<open>\<open>WsHandle\<close>\<close>

text \<open>
  \<open>open_stream\<close>: the new stream number and the command; the caller then waits for the answer.
  Sending blocks while the queue is full, so it only fails once the loop is gone.
\<close>

definition ws_open_stream ::
  "bool \<Rightarrow> unit result option \<Rightarrow> u64 \<Rightarrow> address \<Rightarrow> nat \<Rightarrow> unit result \<times> ws_cmd option \<times> u64" where
  "ws_open_stream up answer next_stream_id addr pipe =
     (let sid = next_stream_id + 1
      in if up then
           (case answer of None \<Rightarrow> Fail StreamClosed | Some r \<Rightarrow> r, Some (OpenCmd sid addr pipe), sid)
         else (Fail StreamClosed, None, sid))"

definition ws_open_stream_with_id ::
  "bool \<Rightarrow> unit result option \<Rightarrow> u64 \<Rightarrow> address \<Rightarrow> nat \<Rightarrow> unit result \<times> ws_cmd option" where
  "ws_open_stream_with_id up answer sid addr pipe =
     (if up then (case answer of None \<Rightarrow> Fail StreamClosed | Some r \<Rightarrow> r, Some (OpenCmd sid addr pipe))
      else (Fail StreamClosed, None))"

datatype try_send = Sent | Queue_full | Queue_closed

definition ws_send_datagram :: "try_send \<Rightarrow> metrics \<Rightarrow> datagram \<Rightarrow> unit result \<times> ws_cmd option \<times> metrics" where
  "ws_send_datagram outcome m dg =
     (let body = encode_datagram [] dg; f = frame_new 0 FRAME_DATAGRAM body
      in case outcome of
           Sent \<Rightarrow> (Ok (), Some (SendFrame f), m)
         | Queue_full \<Rightarrow> (Ok (), None, m\<lparr>mt_ws_datagrams_dropped := mt_ws_datagrams_dropped m + 1\<rparr>)
         | Queue_closed \<Rightarrow> (Fail StreamClosed, None, m))"

definition ws_handle_close :: "try_send \<Rightarrow> unit result \<times> ws_cmd option" where
  "ws_handle_close outcome =
     (case outcome of Sent \<Rightarrow> (Ok (), Some CloseCmd) | _ \<Rightarrow> (Fail StreamClosed, None))"

subsection \<open>\<open>WsTunnel\<close>\<close>

text \<open>\<open>authenticate\<close>: the waiting entry, the command, and the answer once it is there.\<close>

definition ws_authenticate ::
  "bool \<Rightarrow> auth_response result option \<Rightarrow> u64 fset \<Rightarrow> u64 \<Rightarrow> auth_request
     \<Rightarrow> auth_response result \<times> ws_cmd option \<times> u64 fset" where
  "ws_authenticate up answer pending_auth session_id auth =
     (let pending_auth = finsert session_id pending_auth;
          body = encode_auth_request [] auth
      in if up then
           (case answer of None \<Rightarrow> Fail StreamClosed | Some r \<Rightarrow> r,
            Some (SendFrame (frame_new session_id FRAME_AUTH_REQUEST body)), pending_auth)
         else (Fail StreamClosed, None, pending_auth))"

text \<open>
  The events the loop queued, the channel closed behind them. \<open>accept_stream\<close> and
  \<open>recv_datagram\<close> skip the events of the other kind.
\<close>

fun ws_next_event :: "ws_event list \<Rightarrow> ws_event result \<times> ws_event list" where
  "ws_next_event [] = (Fail StreamClosed, [])"
| "ws_next_event (e # es) = (Ok e, es)"

fun ws_accept_stream :: "ws_event list \<Rightarrow> (u64 \<times> address \<times> nat) result \<times> ws_event list" where
  "ws_accept_stream [] = (Fail StreamClosed, [])"
| "ws_accept_stream (WsOpen sid addr pipe # es) = (Ok (sid, addr, pipe), es)"
| "ws_accept_stream (WsDatagram d # es) = ws_accept_stream es"

fun ws_recv_datagram :: "ws_event list \<Rightarrow> datagram result \<times> ws_event list" where
  "ws_recv_datagram [] = (Fail StreamClosed, [])"
| "ws_recv_datagram (WsDatagram d # es) = (Ok d, es)"
| "ws_recv_datagram (WsOpen sid addr pipe # es) = ws_recv_datagram es"

definition ws_tunnel_close :: ws_cmd where
  "ws_tunnel_close = SendFrame (frame_new 0 FRAME_STREAM_CLOSE [])"

subsection \<open>Accepted streams\<close>

text \<open>
  The inner half of a WebSocket stream (its pipe) is there until the first reply takes it; a QUIC
  stream can be written at any time. The commands sent are part of the state.
\<close>

datatype accepted_inner = Quic_inner bi_stream | Ws_inner u64 "nat option" "ws_cmd list"

record accepted_stream =
  as_address :: address
  as_inner :: accepted_inner

definition reply_open ::
  "bool \<Rightarrow> u64 \<Rightarrow> u8 \<Rightarrow> u8 \<Rightarrow> bytes \<Rightarrow> nat \<Rightarrow> unit result \<times> ws_cmd list" where
  "reply_open up sid status error_code message pipe =
     (if up then (Ok (), [ReplyOpen sid status error_code message pipe]) else (Fail StreamClosed, []))"

definition reply_with_code ::
  "bool \<Rightarrow> u8 \<Rightarrow> u8 \<Rightarrow> bytes \<Rightarrow> accepted_stream \<Rightarrow> unit result \<times> accepted_stream" where
  "reply_with_code up status error_code message self =
     (case as_inner self of
        Quic_inner s \<Rightarrow>
          (let (r, s) = quic_ack status error_code message s in (r, self\<lparr>as_inner := Quic_inner s\<rparr>))
      | Ws_inner sid halves cmds \<Rightarrow>
          (case halves of
             None \<Rightarrow> (Fail StreamClosed, self)
           | Some pipe \<Rightarrow>
               (let (r, sent) = reply_open up sid status error_code message pipe
                in (r, self\<lparr>as_inner := Ws_inner sid None (cmds @ sent)\<rparr>))))"

definition reply :: "bool \<Rightarrow> u8 \<Rightarrow> bytes \<Rightarrow> accepted_stream \<Rightarrow> unit result \<times> accepted_stream" where
  "reply up status message self = reply_with_code up status ERR_NONE message self"

definition ws_accepted :: "u64 \<times> address \<times> nat \<Rightarrow> accepted_stream" where
  "ws_accepted inc =
     (let (sid, addr, pipe) = inc
      in \<lparr>as_address = addr, as_inner = Ws_inner sid (Some pipe) []\<rparr>)"

text \<open>\<open>next_event\<close> and \<open>accept_stream\<close> of a tunnel.\<close>

datatype tunnel_event = Stream accepted_stream | Datagram_in datagram

definition ws_tunnel_event :: "ws_event \<Rightarrow> tunnel_event" where
  "ws_tunnel_event e =
     (case e of WsOpen sid addr pipe \<Rightarrow> Stream (ws_accepted (sid, addr, pipe)) | WsDatagram d \<Rightarrow> Datagram_in d)"

definition quic_tunnel_accept :: "nat \<Rightarrow> bi_stream \<Rightarrow> accepted_stream result" where
  "quic_tunnel_accept mem s =
     (case quic_accept_stream mem s of
        (Inl e, s) \<Rightarrow> Inl e
      | (Inr addr, s) \<Rightarrow> Ok \<lparr>as_address = addr, as_inner = Quic_inner s\<rparr>)"

text \<open>\<open>Tunnel\<close> and its handle: which transport carries an operation.\<close>

datatype ('q, 'w) tunnel = Quic_tunnel 'q | Ws_tunnel 'w

definition tunnel_open_stream ::
  "('q \<Rightarrow> address \<Rightarrow> unit result \<times> 'q) \<Rightarrow> ('w \<Rightarrow> address \<Rightarrow> unit result \<times> 'w) \<Rightarrow> ('q, 'w) tunnel \<Rightarrow> address
     \<Rightarrow> unit result \<times> ('q, 'w) tunnel" where
  "tunnel_open_stream quic ws self addr =
     (case self of
        Quic_tunnel q \<Rightarrow> map_prod id Quic_tunnel (quic q addr)
      | Ws_tunnel w \<Rightarrow> map_prod id Ws_tunnel (ws w addr))"

definition tunnel_send_datagram ::
  "('q \<Rightarrow> datagram \<Rightarrow> unit result \<times> 'q) \<Rightarrow> ('w \<Rightarrow> datagram \<Rightarrow> unit result \<times> 'w) \<Rightarrow> ('q, 'w) tunnel \<Rightarrow> datagram
     \<Rightarrow> unit result \<times> ('q, 'w) tunnel" where
  "tunnel_send_datagram quic ws self dg =
     (case self of
        Quic_tunnel q \<Rightarrow> map_prod id Quic_tunnel (quic q dg)
      | Ws_tunnel w \<Rightarrow> map_prod id Ws_tunnel (ws w dg))"

definition tunnel_recv_datagram ::
  "('q \<Rightarrow> datagram result \<times> 'q) \<Rightarrow> ('w \<Rightarrow> datagram result \<times> 'w) \<Rightarrow> ('q, 'w) tunnel
     \<Rightarrow> datagram result \<times> ('q, 'w) tunnel" where
  "tunnel_recv_datagram quic ws self =
     (case self of
        Quic_tunnel q \<Rightarrow> map_prod id Quic_tunnel (quic q)
      | Ws_tunnel w \<Rightarrow> map_prod id Ws_tunnel (ws w))"

text \<open>\<open>accept_stream\<close> over WebSocket; datagrams that come in between are dropped.\<close>

definition ws_tunnel_accept :: "ws_event list \<Rightarrow> accepted_stream result \<times> ws_event list" where
  "ws_tunnel_accept es =
     (let (r, es) = ws_accept_stream es in (and_then r (\<lambda>inc. Ok (ws_accepted inc)), es))"

text \<open>\<open>close\<close>: QUIC closes the connection, WebSocket sends its command.\<close>

definition tunnel_close :: "('q \<Rightarrow> 'q) \<Rightarrow> ('q, 'w) tunnel \<Rightarrow> ('q, 'w) tunnel \<times> ws_cmd option" where
  "tunnel_close quic_close self =
     (case self of
        Quic_tunnel q \<Rightarrow> (Quic_tunnel (quic_close q), None)
      | Ws_tunnel w \<Rightarrow> (Ws_tunnel w, Some ws_tunnel_close))"

text \<open>\<open>TunnelHandle::from_tunnel\<close>: the connection of a QUIC tunnel, or the handle of a WebSocket one.\<close>

definition from_tunnel :: "('q \<Rightarrow> 'c) \<Rightarrow> ('w \<Rightarrow> 'h) \<Rightarrow> ('q, 'w) tunnel \<Rightarrow> ('c, 'h) tunnel" where
  "from_tunnel connection handle t =
     (case t of Quic_tunnel q \<Rightarrow> Quic_tunnel (connection q) | Ws_tunnel w \<Rightarrow> Ws_tunnel (handle w))"

text \<open>
  \<open>into_relay\<close>: the QUIC stream itself, or the outer half of the pipe behind a \<open>CreditReader\<close> for the
  stream, which has counted nothing yet.
\<close>

datatype relay_stream = Quic_relay bi_stream | Duplex_io u64 u64

definition credit_reader_new :: "u64 \<Rightarrow> relay_stream" where
  "credit_reader_new sid = Duplex_io sid 0"

definition into_relay :: "accepted_stream \<Rightarrow> relay_stream" where
  "into_relay self =
     (case as_inner self of Quic_inner s \<Rightarrow> Quic_relay s | Ws_inner sid halves cmds \<Rightarrow> credit_reader_new sid)"

text \<open>The error of closing a WebSocket handle is dropped, so the caller never learns of it.\<close>

definition handle_close :: "('q, try_send) tunnel \<Rightarrow> ws_cmd option" where
  "handle_close self =
     (case self of Quic_tunnel q \<Rightarrow> None | Ws_tunnel outcome \<Rightarrow> snd (ws_handle_close outcome))"

subsection \<open>Lemmas\<close>

lemma ws_open_stream_id: "snd (snd (ws_open_stream up answer n addr pipe)) = n + 1"
  by (simp add: ws_open_stream_def Let_def)

text \<open>The numbers of consecutively opened streams.\<close>

fun opened_ids :: "u64 \<Rightarrow> nat \<Rightarrow> u64 list" where
  "opened_ids n 0 = []"
| "opened_ids n (Suc k) = snd (snd (ws_open_stream True None n (Ip (V4 0) 0) 0)) # opened_ids (n + 1) k"

lemma opened_ids_values: "opened_ids n k = map (\<lambda>i. n + of_nat (Suc i)) [0..<k]"
  by (induction k arbitrary: n) (simp_all add: ws_open_stream_id map_upt_Suc algebra_simps del: upt_Suc)

lemma reply_with_code_taken:
  assumes "as_inner self = Ws_inner sid halves cmds" "reply_with_code up status code msg self = (r, self')"
  shows "\<exists>cmds'. as_inner self' = Ws_inner sid None cmds'"
  using assms by (auto simp: reply_with_code_def reply_open_def split: option.splits if_splits)

text \<open>Answering does not change which stream is relayed over WebSocket, so a relay returns credits for it.\<close>

lemma into_relay_replied:
  assumes "as_inner self = Ws_inner sid halves cmds"
  shows "into_relay (snd (reply_with_code up status code msg self)) = Duplex_io sid 0"
  using assms
  by (auto simp: into_relay_def credit_reader_new_def reply_with_code_def split_beta split: option.split)

text \<open>Skipping datagrams, \<open>accept_stream\<close> returns the streams in the order the loop reported them.\<close>

fun ws_accept_all :: "nat \<Rightarrow> ws_event list \<Rightarrow> (u64 \<times> address) list" where
  "ws_accept_all 0 es = []"
| "ws_accept_all (Suc n) es =
     (case ws_tunnel_accept es of
        (Inl e, es) \<Rightarrow> []
      | (Inr acc, es) \<Rightarrow>
          (case as_inner acc of
             Ws_inner sid halves cmds \<Rightarrow> (sid, as_address acc) # ws_accept_all n es
           | Quic_inner s \<Rightarrow> ws_accept_all n es))"

fun opens_in :: "ws_event list \<Rightarrow> (u64 \<times> address) list" where
  "opens_in [] = []"
| "opens_in (WsOpen sid addr pipe # es) = (sid, addr) # opens_in es"
| "opens_in (WsDatagram d # es) = opens_in es"

lemma ws_tunnel_accept_simps [simp]:
  "ws_tunnel_accept [] = (Fail StreamClosed, [])"
  "ws_tunnel_accept (WsOpen sid addr pipe # es) = (Ok (ws_accepted (sid, addr, pipe)), es)"
  "ws_tunnel_accept (WsDatagram d # es) = ws_tunnel_accept es"
  by (simp_all add: ws_tunnel_accept_def)

lemma ws_accept_all_opens: "length es \<le> n \<Longrightarrow> ws_accept_all n es = opens_in es"
proof (induction es arbitrary: n rule: opens_in.induct)
  case (1 n)
  then show ?case by (cases n) simp_all
next
  case (2 sid addr pipe es)
  then show ?case by (cases n) (simp_all add: ws_accepted_def)
next
  case (3 d es)
  then obtain m where n: "n = Suc m" by (cases n) simp_all
  have "ws_accept_all n (WsDatagram d # es) = ws_accept_all n es" by (simp add: n)
  with 3 show ?case by simp
qed

subsection \<open>Properties\<close>

text \<open>
  Stream numbers of a connection are unique: the streams a handle opens get distinct numbers,
  none of them the control stream 0, up to \<open>2 ^ 64 - 1\<close> streams.
\<close>

theorem stream_ids_unique:
  assumes "k < 2 ^ 64"
  shows "distinct (opened_ids 0 k) \<and> 0 \<notin> set (opened_ids 0 k)"
proof -
  have u: "unat (of_nat (Suc i) :: u64) = Suc i" if "i < k" for i
    using that assms by (subst unat_of_nat_small) auto
  have "inj_on (\<lambda>i. of_nat (Suc i) :: u64) (set [0..<k])"
    by (rule inj_onI) (metis u atLeastLessThan_iff set_upt Suc_inject)
  moreover have "(0 :: u64) \<noteq> of_nat (Suc i)" if "i < k" for i
    using u [OF that] by (metis unat_0 nat.distinct(1))
  ultimately show ?thesis
    by (auto simp: opened_ids_values distinct_map simp del: of_nat_Suc)
qed

theorem stream_ids_unique_witness:
  "distinct (opened_ids 0 3) \<and> 0 \<notin> set (opened_ids 0 3)"
  by (rule stream_ids_unique) simp

text \<open>
  A WebSocket stream is answered once: whatever the first reply was and whether it could be
  sent, a second one fails with \<open>StreamClosed\<close> and queues nothing.
\<close>

theorem ws_reply_once:
  assumes "as_inner self = Ws_inner sid halves cmds"
    and "reply_with_code up status code msg self = (r, self')"
  shows "reply_with_code up' status' code' msg' self' = (Fail StreamClosed, self')"
  using reply_with_code_taken [OF assms] by (auto simp: reply_with_code_def)

theorem ws_reply_once_witness:
  "reply_with_code True STATUS_ERR ERR_INTERNAL []
     (snd (reply True STATUS_OK [] (ws_accepted (1, Ip (V4 9) 80, 0)))) =
   (Fail StreamClosed, snd (reply True STATUS_OK [] (ws_accepted (1, Ip (V4 9) 80, 0))))"
proof (rule ws_reply_once [where self = "ws_accepted (1, Ip (V4 9) 80, 0)" and sid = 1
      and halves = "Some 0" and cmds = "[]" and up = True and status = STATUS_OK and code = ERR_NONE
      and msg = "[]" and r = "fst (reply_with_code True STATUS_OK ERR_NONE [] (ws_accepted (1, Ip (V4 9) 80, 0)))"])
  show "as_inner (ws_accepted (1, Ip (V4 9) 80, 0)) = Ws_inner 1 (Some 0) []"
    by (simp add: ws_accepted_def)
  show "reply_with_code True STATUS_OK ERR_NONE [] (ws_accepted (1, Ip (V4 9) 80, 0)) =
    (fst (reply_with_code True STATUS_OK ERR_NONE [] (ws_accepted (1, Ip (V4 9) 80, 0))),
     snd (reply True STATUS_OK [] (ws_accepted (1, Ip (V4 9) 80, 0))))"
    by (simp add: reply_def)
qed

text \<open>
  \<open>WsTunnel::close\<close> does not close the connection: its frame, a \<open>STREAM_CLOSE\<close> of the control
  stream, makes the loop of the peer forget at most the tables' entries for stream 0 and go on.
\<close>

theorem ws_close_keeps_connection:
  assumes "ws_tunnel_close = SendFrame f"
  shows "handle_frame auth up v conn (encode_frame [] f) =
    (Ok (), [], v, conn\<lparr>wc_credits := fmdrop 0 (wc_credits conn), wc_streams := fmdrop 0 (wc_streams conn)\<rparr>)"
proof -
  have f: "f = \<lparr>fr_stream_id = 0, fr_frame_type = FRAME_STREAM_CLOSE, fr_body = []\<rparr>"
    using assms by (simp add: ws_tunnel_close_def frame_new_def)
  have "decode_frame (encode_frame [] f) = Ok (f, length (encode_frame [] f))"
  proof (rule frame_codec.decode_encode)
    show "wf_frame f" by (simp add: f wf_frame_def code_consts)
    show "length (encode_frame [] f) \<le> isize_max" unfolding f by (rule small_isize) code_simp
  qed
  then show ?thesis by (simp add: handle_frame_def dispatch_frame_def f handle_stream_close_def code_consts)
qed

theorem ws_close_keeps_connection_witness:
  "fst (handle_frame None True () (server_conn False) (encode_frame [] (frame_new 0 FRAME_STREAM_CLOSE []))) = Ok ()"
  by (subst ws_close_keeps_connection) (simp_all add: ws_tunnel_close_def)

end
