(* ===== verification/Tls_Pin.thy ===== *)
theory Tls_Pin
  imports Hydr_Prelude
begin

section \<open>Certificates and pins\<close>

text \<open>
  \<open>src/crates/hydr-transport/src/tls.rs\<close>: the hexadecimal fingerprints, the choice of the server
  verification, the verifier itself, and the server's certificate and key in PEM files. SHA-256,
  base64, the generator of certificates, the PEM reader and the web PKI are libraries, hence
  arguments; a certificate and a key are their DER bytes.
\<close>

subsection \<open>Fingerprints\<close>

definition cert_fingerprint :: "(bytes \<Rightarrow> bytes) \<Rightarrow> bytes \<Rightarrow> bytes" where
  "cert_fingerprint sha256 cert = sha256 cert"

text \<open>\<open>{b:02x}\<close>.\<close>

definition hex_digit :: "u8 \<Rightarrow> u8" where
  "hex_digit n = (if n < 10 then 0x30 + n else 0x61 + (n - 10))"

definition hex_byte :: "u8 \<Rightarrow> rstring" where
  "hex_byte b = [hex_digit (drop_bit 4 b), hex_digit (take_bit 4 b)]"

fun hex_encode :: "bytes \<Rightarrow> rstring" where
  "hex_encode [] = []"
| "hex_encode (b # bs) = hex_byte b @ hex_encode bs"

definition fingerprint_hex :: "bytes \<Rightarrow> rstring" where
  "fingerprint_hex b = hex_encode b"

definition cert_fingerprint_hex :: "(bytes \<Rightarrow> bytes) \<Rightarrow> bytes \<Rightarrow> rstring" where
  "cert_fingerprint_hex sha256 cert = fingerprint_hex (cert_fingerprint sha256 cert)"

text \<open>\<open>is_ascii_hexdigit\<close>, \<open>chunks\<close> and \<open>u8::from_str_radix\<close> of the standard library.\<close>

definition is_hexdigit :: "u8 \<Rightarrow> bool" where
  "is_hexdigit c \<longleftrightarrow> 0x30 \<le> c \<and> c \<le> 0x39 \<or> 0x41 \<le> c \<and> c \<le> 0x46 \<or> 0x61 \<le> c \<and> c \<le> 0x66"

definition digit_value :: "u8 \<Rightarrow> nat option" where
  "digit_value c =
     (if 0x30 \<le> c \<and> c \<le> 0x39 then Some (unat c - 48)
      else if 0x41 \<le> c \<and> c \<le> 0x46 then Some (unat c - 55)
      else if 0x61 \<le> c \<and> c \<le> 0x66 then Some (unat c - 87)
      else None)"

function chunks :: "nat \<Rightarrow> 'a list \<Rightarrow> 'a list list" where
  "chunks n xs = (if n = 0 \<or> xs = [] then [] else take n xs # chunks n (drop n xs))"
  by pat_completeness auto
termination
  by (relation "measure (\<lambda>(n, xs). length xs)") auto

declare chunks.simps [simp del]

fun radix16_fold :: "nat \<Rightarrow> bytes \<Rightarrow> nat option" where
  "radix16_fold acc [] = Some acc"
| "radix16_fold acc (c # cs) =
     (case digit_value c of
        None \<Rightarrow> None
      | Some d \<Rightarrow> if 16 * acc + d < 256 then radix16_fold (16 * acc + d) cs else None)"

definition u8_from_str_radix16 :: "bytes \<Rightarrow> u8 option" where
  "u8_from_str_radix16 s =
     (case s of
        [] \<Rightarrow> None
      | c # cs \<Rightarrow>
          map_option of_nat
            (if c = 0x2B \<and> cs \<noteq> [] then radix16_fold 0 cs else radix16_fold 0 (c # cs)))"

definition COLON :: u8 where "COLON = 0x3A"

text \<open>The \<open>ok()?\<close> in the loop ends the function with \<open>None\<close>.\<close>

fun parse_chunks :: "bytes list \<Rightarrow> bytes option" where
  "parse_chunks [] = Some []"
| "parse_chunks (c # cs) =
     (case u8_from_str_radix16 c of
        None \<Rightarrow> None
      | Some b \<Rightarrow> map_option ((#) b) (parse_chunks cs))"

definition parse_fingerprint :: "rstring \<Rightarrow> bytes option" where
  "parse_fingerprint s =
     (let clean = filter (\<lambda>c. c \<noteq> COLON) s in
      if length clean \<noteq> 64 \<or> \<not> list_all is_hexdigit clean then None
      else parse_chunks (chunks 2 clean))"

definition require_fingerprint :: "rstring option \<Rightarrow> bytes option result" where
  "require_fingerprint s =
     (case s of
        None \<Rightarrow> Ok None
      | Some s \<Rightarrow>
          (case parse_fingerprint s of
             Some pin \<Rightarrow> Ok (Some pin)
           | None \<Rightarrow>
               Fail (InvalidData (lit ''invalid certificate fingerprint: expected 64 hex characters''))))"

subsection \<open>Verification of the server\<close>

datatype verifier = Custom_verifier "bytes option" | Webpki_verifier bool

text \<open>\<open>CustomVerifier::verify_server_cert\<close>: the error text, or success.\<close>

definition verify_server_cert :: "(bytes \<Rightarrow> bytes) \<Rightarrow> bytes option \<Rightarrow> bytes \<Rightarrow> rstring + unit" where
  "verify_server_cert sha256 pin end_entity =
     (case pin of
        Some pin \<Rightarrow>
          if cert_fingerprint sha256 end_entity = pin then Inr ()
          else Inl (lit ''certificate fingerprint mismatch'')
      | None \<Rightarrow> Inr ())"

text \<open>
  The verifier of the configuration; the default one of rustls carries whether the public roots
  were loaded.
\<close>

definition make_client_config_with_pin :: "bool \<Rightarrow> bytes option \<Rightarrow> verifier" where
  "make_client_config_with_pin insecure pin =
     (let roots = (\<not> insecure \<and> pin = None)
      in if pin \<noteq> None \<or> insecure then Custom_verifier pin else Webpki_verifier roots)"

definition make_client_config :: "bool \<Rightarrow> verifier" where
  "make_client_config insecure = make_client_config_with_pin insecure None"

text \<open>Whether a client with this verifier goes on with a server; \<open>webpki\<close> is the library's verdict.\<close>

definition trusts :: "(bytes \<Rightarrow> bytes) \<Rightarrow> (bool \<Rightarrow> bytes \<Rightarrow> bool) \<Rightarrow> verifier \<Rightarrow> bytes \<Rightarrow> bool" where
  "trusts sha256 webpki vf cert =
     (case vf of
        Custom_verifier pin \<Rightarrow> verify_server_cert sha256 pin cert = Inr ()
      | Webpki_verifier roots \<Rightarrow> webpki roots cert)"

subsection \<open>Reading what was written\<close>

lemma chunks_Nil [simp]: "chunks n [] = []"
  by (simp add: chunks.simps)

lemma chunks_2 [simp]: "chunks 2 (a # b # xs) = [a, b] # chunks 2 xs"
  by (subst chunks.simps) simp

text \<open>Lower-case digits, for both cases of a letter.\<close>

definition lower :: "u8 \<Rightarrow> u8" where
  "lower c = (if 0x41 \<le> c \<and> c \<le> 0x5A then c + 32 else c)"

definition good_digit :: "u8 \<Rightarrow> bool" where
  "good_digit c =
     (case digit_value c of
        None \<Rightarrow> False
      | Some d \<Rightarrow> d < 16 \<and> hex_digit (of_nat d) = lower c \<and> c \<noteq> 0x2B)"

lemma good_digit_table: "list_all good_digit (map of_nat ([48..<58] @ [65..<71] @ [97..<103]))"
  by code_simp

lemma digit_value_lower:
  assumes "is_hexdigit c"
  obtains d where "digit_value c = Some d" "d < 16" "hex_digit (of_nat d) = lower c" "c \<noteq> 0x2B"
proof -
  have "unat c \<in> set ([48..<58] @ [65..<71] @ [97..<103])"
    using assms unfolding set_append set_upt by (auto simp: is_hexdigit_def word_le_nat_alt)
  then have "of_nat (unat c) \<in> set (map of_nat ([48..<58] @ [65..<71] @ [97..<103]) :: u8 list)"
    unfolding set_map by (rule imageI)
  moreover have "of_nat (unat c) = c" by simp
  ultimately have "good_digit c" using good_digit_table by (simp only: list_all_iff)
  with that show ?thesis by (auto simp: good_digit_def split: option.splits)
qed

text \<open>A pair of digits is the byte that is printed as this pair in lower case.\<close>

lemma u8_from_str_radix16_pair:
  assumes "is_hexdigit a" "is_hexdigit b"
  shows "\<exists>v. u8_from_str_radix16 [a, b] = Some v \<and> hex_byte v = [lower a, lower b]"
proof -
  obtain d where d: "digit_value a = Some d" "d < 16" "hex_digit (of_nat d) = lower a" "a \<noteq> 0x2B"
    by (rule digit_value_lower [OF assms(1)])
  obtain e where e: "digit_value b = Some e" "e < 16" "hex_digit (of_nat e) = lower b"
    by (rule digit_value_lower [OF assms(2)])
  have n: "16 * d + e < 256" using d(2) e(2) by linarith
  define v :: u8 where "v = of_nat (16 * d + e)"
  have u: "unat v = 16 * d + e"
    using n unat_of_nat [of "16 * d + e", where ?'a = 8] by (simp only: v_def) simp
  have "drop_bit 4 v = of_nat d"
    using d(2) e(2) u by (simp add: word_unat_eq_iff drop_bit_eq_div unat_div unat_of_nat)
  moreover have "take_bit 4 v = of_nat e"
    using d(2) e(2) u by (simp add: word_unat_eq_iff take_bit_eq_mod unat_mod unat_of_nat)
  moreover have "u8_from_str_radix16 [a, b] = Some v"
    using d(1,4) e(1,2) n d(2) by (simp add: u8_from_str_radix16_def v_def)
  ultimately show ?thesis using d(3) e(3) by (simp add: hex_byte_def)
qed

lemma parse_chunks_hex:
  "list_all is_hexdigit xs \<Longrightarrow> even (length xs) \<Longrightarrow>
     \<exists>bs. parse_chunks (chunks 2 xs) = Some bs \<and> hex_encode bs = map lower xs \<and> 2 * length bs = length xs"
proof (induction xs rule: induct_list012)
  case (3 a b xs)
  then obtain bs where "parse_chunks (chunks 2 xs) = Some bs" "hex_encode bs = map lower xs"
    "2 * length bs = length xs" by auto
  with u8_from_str_radix16_pair [of a b] "3.prems" show ?case by auto
qed simp_all

text \<open>The printer of fingerprints is injective and prints digits.\<close>

definition hex_digit_faithful :: "u8 \<Rightarrow> bool" where
  "hex_digit_faithful m \<longleftrightarrow> is_hexdigit (hex_digit m) \<and> lower (hex_digit m) = hex_digit m \<and>
     (\<forall>n \<in> set (map of_nat [0..<16]). hex_digit m = hex_digit n \<longrightarrow> m = n)"

lemma hex_digit_table: "list_all hex_digit_faithful (map of_nat [0..<16])"
  by code_simp

lemma nibble_in_table: "unat n < 16 \<Longrightarrow> n \<in> set (map of_nat [0..<16] :: u8 list)"
proof -
  assume "unat n < 16"
  then have "of_nat (unat n) \<in> set (map of_nat [0..<16] :: u8 list)"
    unfolding set_map set_upt by (intro imageI) simp
  then show ?thesis by simp
qed

lemma nibbles:
  "unat (drop_bit 4 (b :: u8)) < 16" "unat (take_bit 4 b) < 16"
  using unat_bound [of b] by (simp_all add: drop_bit_eq_div unat_div take_bit_eq_mod unat_mod)

lemma hex_digit_nibble:
  assumes "unat m < 16"
  shows "is_hexdigit (hex_digit m)" "unat n < 16 \<Longrightarrow> hex_digit m = hex_digit n \<Longrightarrow> m = n"
    "lower (hex_digit m) = hex_digit m"
proof -
  have "hex_digit_faithful m"
    using hex_digit_table nibble_in_table [OF assms] by (simp only: list_all_iff)
  then show "is_hexdigit (hex_digit m)" "unat n < 16 \<Longrightarrow> hex_digit m = hex_digit n \<Longrightarrow> m = n"
    "lower (hex_digit m) = hex_digit m"
    using nibble_in_table [of n] by (simp_all only: hex_digit_faithful_def)
qed

lemma hex_byte_inject: "hex_byte a = hex_byte b \<Longrightarrow> a = b"
proof -
  assume "hex_byte a = hex_byte b"
  then have "drop_bit 4 a = drop_bit 4 b" "take_bit 4 a = take_bit 4 b"
    using hex_digit_nibble(2) nibbles by (auto simp: hex_byte_def)
  then show "a = b" by (metis bits_ident)
qed

lemma length_hex_byte [simp]: "length (hex_byte b) = 2"
  by (simp add: hex_byte_def)

lemma hex_encode_inject: "hex_encode bs = hex_encode cs \<Longrightarrow> bs = cs"
proof (induction bs arbitrary: cs)
  case Nil
  then show ?case by (cases cs) (auto simp: hex_byte_def)
next
  case (Cons b bs)
  then obtain c cs' where cs: "cs = c # cs'" by (cases cs) (auto simp: hex_byte_def)
  with Cons.prems have "hex_byte b @ hex_encode bs = hex_byte c @ hex_encode cs'" by simp
  then have "hex_byte b = hex_byte c" "hex_encode bs = hex_encode cs'"
    by (simp_all add: append_eq_append_conv)
  with cs Cons.IH [of cs'] show ?case by (simp add: hex_byte_inject)
qed

lemma length_hex_encode [simp]: "length (hex_encode bs) = 2 * length bs"
  by (induction bs) simp_all

lemma hex_encode_digits: "list_all is_hexdigit (hex_encode bs)"
  by (induction bs) (simp_all add: hex_byte_def hex_digit_nibble nibbles)

lemma lower_hexdigit: "is_hexdigit (lower c) \<Longrightarrow> is_hexdigit c"
  unfolding lower_def is_hexdigit_def
  by (auto simp: word_le_nat_alt unat_word_ariths split: if_splits)

lemma parse_fingerprint_iff:
  assumes "length bs = 32"
  shows "parse_fingerprint s = Some bs \<longleftrightarrow> map lower (filter (\<lambda>c. c \<noteq> COLON) s) = hex_encode bs"
proof -
  let ?c = "filter (\<lambda>c. c \<noteq> COLON) s"
  show ?thesis
  proof
    assume p: "parse_fingerprint s = Some bs"
    then have c: "length ?c = 64" "list_all is_hexdigit ?c" "parse_chunks (chunks 2 ?c) = Some bs"
      by (auto simp: parse_fingerprint_def Let_def split: if_splits)
    with parse_chunks_hex [of ?c] show "map lower ?c = hex_encode bs" by simp
  next
    assume eq: "map lower ?c = hex_encode bs"
    then have len: "length ?c = 64" using assms by (metis length_map length_hex_encode mult_2 numeral_Bit0)
    have "list_all is_hexdigit (map lower ?c)" unfolding eq by (rule hex_encode_digits)
    then have digits: "list_all is_hexdigit ?c" by (auto simp: list_all_iff dest: lower_hexdigit)
    from parse_chunks_hex [OF this] len eq show "parse_fingerprint s = Some bs"
      using digits by (auto simp: parse_fingerprint_def Let_def dest: hex_encode_inject)
  qed
qed

lemma parse_fingerprint_length: "parse_fingerprint s = Some bs \<Longrightarrow> length bs = 32"
  using parse_chunks_hex [of "filter (\<lambda>c. c \<noteq> COLON) s"]
  by (auto simp: parse_fingerprint_def Let_def split: if_splits)

subsection \<open>The server's identity on disk\<close>

text \<open>
  \<open>load_or_generate_self_signed\<close> and \<open>write_pem\<close>. \<open>files\<close> maps the names of the existing files to their
  contents. \<open>faults\<close> says for a path at which of its three operations writing it fails, if it does. The
  text is written to a temporary file next to the path, with the extension \<open>tmp\<close>, which is then renamed.
  A failing read, a malformed PEM file and the texts of the function itself are the same kind of error,
  a text.
\<close>

record generated_cert =
  gc_cert :: bytes
  gc_key :: bytes

type_synonym files = "rstring \<Rightarrow> rstring option"

datatype write_fault = Create_fails rstring | Write_fails nat rstring | Rename_fails rstring

definition pem_text :: "(bytes \<Rightarrow> rstring) \<Rightarrow> rstring \<Rightarrow> bytes \<Rightarrow> rstring" where
  "pem_text base64 tag der =
     (lit ''-----BEGIN '' @ tag @ lit ''-----'' @ [10]) @
     concat (map (\<lambda>chunk. chunk @ [10]) (chunks 64 (base64 der))) @
     (lit ''-----END '' @ tag @ lit ''-----'' @ [10])"

text \<open>
  \<open>Path::with_extension\<close>: the last component, without slashes and \<open>/.\<close> at the end, loses what follows
  its last point, unless that point is its first character. A path that ends in \<open>..\<close> has no file name
  and stays. \<open>trim_rev\<close> works on the reversed path.
\<close>

fun trim_rev :: "rstring \<Rightarrow> rstring" where
  "trim_rev [] = []"
| "trim_rev (c # r) = (if c = 47 \<or> c = 46 \<and> r \<noteq> [] \<and> hd r = 47 then trim_rev r else c # r)"

definition with_extension :: "rstring \<Rightarrow> rstring \<Rightarrow> rstring" where
  "with_extension ext path =
     (let r = trim_rev (rev path);
          name = takeWhile (\<lambda>c. c \<noteq> 47) r;
          before = drop 1 (dropWhile (\<lambda>c. c \<noteq> 46) name);
          stem = (if before = [] then name else before)
      in if name \<in> {[], [46], [46, 46]} then path
         else take (length r - length name + length stem) path @ [46] @ ext)"

definition write_pem ::
  "(bytes \<Rightarrow> rstring) \<Rightarrow> (rstring \<Rightarrow> write_fault option) \<Rightarrow> files \<Rightarrow> rstring \<Rightarrow> rstring \<Rightarrow> bytes
     \<Rightarrow> (rstring + unit) \<times> files" where
  "write_pem base64 faults files path tag der =
     (let pem = pem_text base64 tag der; tmp = with_extension (lit ''tmp'') path
      in case faults path of
           Some (Create_fails e) \<Rightarrow> (Inl e, files)
         | Some (Write_fails n e) \<Rightarrow> (Inl e, files(tmp := Some (take n pem)))
         | Some (Rename_fails e) \<Rightarrow> (Inl e, files(tmp := Some pem))
         | None \<Rightarrow> (Inr (), files(tmp := None, path := Some pem)))"

definition load_or_generate ::
  "(bytes \<Rightarrow> rstring) \<Rightarrow> (rstring \<Rightarrow> rstring + bytes) \<Rightarrow> (rstring \<Rightarrow> rstring + bytes) \<Rightarrow>
   rstring + generated_cert \<Rightarrow> (rstring \<Rightarrow> write_fault option) \<Rightarrow> rstring option \<Rightarrow> rstring option \<Rightarrow> files
     \<Rightarrow> (rstring + generated_cert) \<times> files" where
  "load_or_generate base64 read_cert read_key generated faults cert_path key_path files =
     (case (cert_path, key_path) of
        (Some cp, Some kp) \<Rightarrow>
          if files cp \<noteq> None \<and> files kp \<noteq> None then
            (case read_cert (the (files cp)) of
               Inl e \<Rightarrow> (Inl e, files)
             | Inr cert \<Rightarrow>
                 (case read_key (the (files kp)) of
                    Inl e \<Rightarrow> (Inl e, files)
                  | Inr key \<Rightarrow> (Inr \<lparr>gc_cert = cert, gc_key = key\<rparr>, files)))
          else if (files cp = None) \<noteq> (files kp = None) then
            (Inl (lit ''cert and key must either both exist or both be absent''), files)
          else
            (case generated of
               Inl e \<Rightarrow> (Inl e, files)
             | Inr cert \<Rightarrow>
                 (case write_pem base64 faults files cp (lit ''CERTIFICATE'') (gc_cert cert) of
                    (Inl e, files) \<Rightarrow> (Inl e, files)
                  | (Inr _, files) \<Rightarrow>
                      (case write_pem base64 faults files kp (lit ''PRIVATE KEY'') (gc_key cert) of
                         (Inl e, files) \<Rightarrow> (Inl e, files)
                       | (Inr _, files) \<Rightarrow> (Inr cert, files))))
      | (None, None) \<Rightarrow> (generated, files)
      | _ \<Rightarrow> (Inl (lit ''cert and key paths must be set together''), files))"

text \<open>The files after writing one, and what a start finds.\<close>

lemma write_pem_Inr:
  "write_pem base64 faults files path tag der = (Inr u, files') \<Longrightarrow>
   files' path = Some (pem_text base64 tag der) \<and>
   (\<forall>p. p \<noteq> path \<longrightarrow> files' p = (if p = with_extension (lit ''tmp'') path then None else files p))"
  by (auto simp: write_pem_def Let_def split: option.splits write_fault.splits)

lemma write_pem_Inl:
  "write_pem base64 faults files path tag der = (Inl e, files') \<Longrightarrow>
   \<forall>p. p \<noteq> with_extension (lit ''tmp'') path \<longrightarrow> files' p = files p"
  by (auto simp: write_pem_def Let_def split: option.splits write_fault.splits)

lemma write_pem_faults: "(\<exists>files'. write_pem base64 faults files path tag der = (Inr (), files')) \<longleftrightarrow> faults path = None"
  by (auto simp: write_pem_def Let_def split: option.splits write_fault.splits)

lemma load_both:
  "files cp = Some c \<Longrightarrow> files kp = Some k \<Longrightarrow> read_cert c = Inr cert \<Longrightarrow> read_key k = Inr key \<Longrightarrow>
   load_or_generate base64 read_cert read_key generated faults (Some cp) (Some kp) files = (Inr \<lparr>gc_cert = cert, gc_key = key\<rparr>, files)"
  by (simp add: load_or_generate_def)

lemma load_half:
  "(files cp = None) \<noteq> (files kp = None) \<Longrightarrow>
   load_or_generate base64 read_cert read_key generated faults (Some cp) (Some kp) files =
     (Inl (lit ''cert and key must either both exist or both be absent''), files)"
  by (auto simp: load_or_generate_def)

lemma load_saves:
  assumes "load_or_generate base64 read_cert read_key generated faults (Some cp) (Some kp) files = (Inr c, files')"
    and "files cp = None"
  obtains files1 where "write_pem base64 faults files cp (lit ''CERTIFICATE'') (gc_cert c) = (Inr (), files1)"
    "write_pem base64 faults files1 kp (lit ''PRIVATE KEY'') (gc_key c) = (Inr (), files')"
  using assms by (auto simp: load_or_generate_def split: if_splits sum.splits prod.splits)

text \<open>
  A PEM file in the strict form of RFC 7468: the two boundary lines, and between them the base64 text in
  lines of exactly 64 characters but for the last one, which is not empty.
\<close>

fun strict_lines :: "rstring list \<Rightarrow> bool" where
  "strict_lines [] = True"
| "strict_lines [l] = (0 < length l \<and> length l \<le> 64)"
| "strict_lines (l # l' # ls) = (length l = 64 \<and> strict_lines (l' # ls))"

definition pem_file :: "rstring \<Rightarrow> rstring list \<Rightarrow> rstring" where
  "pem_file tag ls =
     concat (map (\<lambda>l. l @ [10]) ([lit ''-----BEGIN '' @ tag @ lit ''-----''] @ ls @ [lit ''-----END '' @ tag @ lit ''-----'']))"

text \<open>A reader of such files, with a decoder of base64 that undoes \<open>base64\<close>.\<close>

definition reads_pem :: "(rstring \<Rightarrow> rstring + bytes) \<Rightarrow> (bytes \<Rightarrow> rstring) \<Rightarrow> rstring \<Rightarrow> bool" where
  "reads_pem read base64 tag \<longleftrightarrow>
     (\<forall>der ls. strict_lines ls \<and> concat ls = base64 der \<longrightarrow> read (pem_file tag ls) = Inr der)"

lemma strict_lines_Cons: "strict_lines (l # ls) \<longleftrightarrow> (if ls = [] then 0 < length l \<and> length l \<le> 64 else length l = 64 \<and> strict_lines ls)"
  by (cases ls) simp_all

lemma strict_chunks: "strict_lines (chunks 64 xs) \<and> concat (chunks 64 xs) = (xs :: rstring)"
proof (induction "length xs" arbitrary: xs rule: less_induct)
  case less
  show ?case
  proof (cases "xs = []")
    case False
    have "length (drop 64 xs) < length xs" using False by simp
    from less [OF this] have ih: "strict_lines (chunks 64 (drop 64 xs))" "concat (chunks 64 (drop 64 xs)) = drop 64 xs"
      by simp_all
    have c: "chunks 64 xs = take 64 xs # chunks 64 (drop 64 xs)" using False by (subst chunks.simps) simp
    show ?thesis
    proof (cases "length xs \<le> 64")
      case True
      with False show ?thesis unfolding c by simp
    next
      case long: False
      have "chunks 64 (drop 64 xs) \<noteq> []" using long by (subst chunks.simps) simp
      with long ih show ?thesis unfolding c by (simp add: strict_lines_Cons)
    qed
  qed simp
qed

lemma strict_lines_unique: "strict_lines ls \<Longrightarrow> ls = chunks 64 (concat ls)"
proof (induction ls)
  case (Cons l ls)
  show ?case
  proof (cases "ls = []")
    case True
    with Cons.prems have "l \<noteq> []" "length l \<le> 64" by auto
    with True show ?thesis by (subst chunks.simps) simp
  next
    case False
    with Cons.prems have l: "length l = 64" "strict_lines ls" by (simp_all add: strict_lines_Cons)
    then have "l @ concat ls \<noteq> []" by auto
    then have "chunks 64 (l @ concat ls) = l # chunks 64 (concat ls)"
      using l(1) by (subst chunks.simps) simp
    with Cons.IH [OF l(2)] show ?thesis by simp
  qed
qed simp

lemma pem_text_file: "pem_text base64 tag der = pem_file tag (chunks 64 (base64 der))"
  by (simp add: pem_text_def pem_file_def)

lemma reads_pem_text: "reads_pem read base64 tag \<Longrightarrow> read (pem_text base64 tag der) = Inr der"
  using strict_chunks [of "base64 der"] by (simp add: reads_pem_def pem_text_file)

text \<open>
  A reader for the examples below, for files whose binary part was printed in hexadecimal: it drops
  the first and the last line and the line breaks.
\<close>

definition read_pem_hex :: "rstring \<Rightarrow> rstring \<Rightarrow> rstring + bytes" where
  "read_pem_hex tag text =
     (let body = drop (17 + length tag) (take (length text - (15 + length tag)) text)
      in case parse_chunks (chunks 2 (filter (\<lambda>c. c \<noteq> 10) body)) of Some der \<Rightarrow> Inr der | None \<Rightarrow> Inl [])"

lemma filter_chunks: "0 < n \<Longrightarrow> 10 \<notin> set xs \<Longrightarrow>
    filter (\<lambda>c. c \<noteq> 10) (concat (map (\<lambda>chunk. chunk @ [10]) (chunks n xs))) = (xs :: bytes)"
proof (induction n xs rule: chunks.induct)
  case (1 n xs)
  show ?case
  proof (cases "xs = []")
    case False
    have "filter (\<lambda>c. c \<noteq> 10) (take n xs) = take n xs"
      using "1.prems"(2) by (auto simp: filter_id_conv dest: in_set_takeD)
    moreover have "10 \<notin> set (drop n xs)" using "1.prems"(2) by (auto dest: in_set_dropD)
    ultimately show ?thesis
      using "1.IH" "1.prems"(1) False by (subst chunks.simps) simp
  qed simp
qed

lemma read_pem_hex_text: "read_pem_hex tag (pem_text hex_encode tag der) = Inr der"
proof -
  let ?body = "concat (map (\<lambda>chunk. chunk @ [10]) (chunks 64 (hex_encode der)))"
  have "10 \<notin> set (hex_encode der)"
    using hex_encode_digits [of der] by (auto simp: list_all_iff is_hexdigit_def word_le_nat_alt)
  then have "filter (\<lambda>c. c \<noteq> 10) ?body = hex_encode der" by (rule filter_chunks [rotated]) simp
  moreover have "drop (17 + length tag) (take (length (pem_text hex_encode tag der) - (15 + length tag))
      (pem_text hex_encode tag der)) = ?body"
    by (simp add: pem_text_def)
  moreover have "map lower (hex_encode der) = hex_encode der"
    by (induction der) (simp_all add: hex_byte_def hex_digit_nibble nibbles)
  then have "parse_chunks (chunks 2 (hex_encode der)) = Some der"
    using parse_chunks_hex [OF hex_encode_digits, of der] by (auto dest: hex_encode_inject)
  ultimately show ?thesis by (simp add: read_pem_hex_def Let_def)
qed

lemma read_pem_hex_reads: "reads_pem (read_pem_hex tag) hex_encode tag"
  unfolding reads_pem_def
proof (intro allI impI)
  fix der ls
  assume "strict_lines ls \<and> concat ls = hex_encode der"
  then have "ls = chunks 64 (hex_encode der)" using strict_lines_unique [of ls] by simp
  then show "read_pem_hex tag (pem_file tag ls) = Inr der"
    using read_pem_hex_text [of tag der] by (simp add: pem_text_file)
qed

subsection \<open>Properties\<close>

lemma pin_matches_text:
  assumes "length (sha256 cert) = 32" and "require_fingerprint (Some text) = Ok pin"
  shows "trusts sha256 webpki (make_client_config_with_pin insecure pin) cert \<longleftrightarrow>
     map lower (filter (\<lambda>c. c \<noteq> COLON) text) = cert_fingerprint_hex sha256 cert"
proof -
  from assms(2) obtain p where p: "parse_fingerprint text = Some p" "pin = Some p"
    by (auto simp: require_fingerprint_def split: option.splits)
  have "trusts sha256 webpki (make_client_config_with_pin insecure pin) cert \<longleftrightarrow> sha256 cert = p"
    by (simp add: trusts_def make_client_config_with_pin_def p verify_server_cert_def cert_fingerprint_def)
  also have "\<dots> \<longleftrightarrow> parse_fingerprint text = Some (sha256 cert)" using p by auto
  also have "\<dots> \<longleftrightarrow> map lower (filter (\<lambda>c. c \<noteq> COLON) text) = hex_encode (sha256 cert)"
    by (rule parse_fingerprint_iff [OF assms(1)])
  finally show ?thesis by (simp add: cert_fingerprint_hex_def fingerprint_hex_def cert_fingerprint_def)
qed

text \<open>
  A fingerprint in the configuration pins the server: with or without \<open>insecure\<close>, the client
  starts only if the text is a fingerprint, and then trusts exactly the certificate whose printed
  fingerprint is that text up to colons and the case of letters.
\<close>

theorem fingerprint_pins_server:
  assumes "length (sha256 cert) = 32" and "require_fingerprint (Some text) = Ok pin"
  shows "trusts sha256 webpki (make_client_config_with_pin insecure pin) cert \<longleftrightarrow>
     map lower (filter (\<lambda>c. c \<noteq> COLON) text) = cert_fingerprint_hex sha256 cert"
  using assms by (rule pin_matches_text)

theorem fingerprint_pins_server_witness:
  "trusts (\<lambda>c. replicate 32 0xAB) (\<lambda>r c. False)
     (make_client_config_with_pin True (Some (replicate 32 0xAB))) [1] \<longleftrightarrow>
   map lower (filter (\<lambda>c. c \<noteq> COLON) (lit (concat (replicate 32 ''aB:'')))) =
     cert_fingerprint_hex (\<lambda>c. replicate 32 0xAB) [1]"
  by (rule fingerprint_pins_server) (simp, code_simp)

text \<open>
  (C20) The identity survives a restart: after a start that generated and saved a certificate, every
  later start with the same paths loads the same certificate and key, whatever would be generated
  then, for any reader of PEM files in the strict form of RFC 7468. The two paths name different files,
  and the temporary file of the key is not the file of the certificate.
\<close>

theorem identity_survives_restart:
  assumes "load_or_generate base64 read_cert read_key generated faults (Some cp) (Some kp) files = (Inr c, files')"
    and "files cp = None" and "cp \<noteq> kp" and "with_extension (lit ''tmp'') kp \<noteq> cp"
    and "reads_pem read_cert base64 (lit ''CERTIFICATE'')" and "reads_pem read_key base64 (lit ''PRIVATE KEY'')"
  shows "load_or_generate base64 read_cert read_key generated' faults' (Some cp) (Some kp) files' = (Inr c, files')"
proof -
  obtain files1 where 1: "write_pem base64 faults files cp (lit ''CERTIFICATE'') (gc_cert c) = (Inr (), files1)"
    "write_pem base64 faults files1 kp (lit ''PRIVATE KEY'') (gc_key c) = (Inr (), files')"
    by (rule load_saves [OF assms(1,2)])
  have "files' cp = Some (pem_text base64 (lit ''CERTIFICATE'') (gc_cert c))"
    using write_pem_Inr [OF 1(1)] write_pem_Inr [OF 1(2)] assms(3,4) by auto
  moreover have "files' kp = Some (pem_text base64 (lit ''PRIVATE KEY'') (gc_key c))"
    using write_pem_Inr [OF 1(2)] by blast
  ultimately show ?thesis
    using load_both [where read_cert = read_cert and read_key = read_key]
      reads_pem_text [OF assms(5)] reads_pem_text [OF assms(6)] by (cases c) simp
qed

theorem identity_survives_restart_witness:
  "\<exists>files'. load_or_generate hex_encode (read_pem_hex (lit ''CERTIFICATE'')) (read_pem_hex (lit ''PRIVATE KEY''))
      (Inl []) (\<lambda>p. None) (Some (lit ''/etc/a.crt'')) (Some (lit ''/etc/a.key'')) files' =
    (Inr \<lparr>gc_cert = [48, 3], gc_key = [48, 4]\<rparr>, files') \<and> files' (lit ''/etc/a.tmp'') = None"
proof -
  let ?c = "\<lparr>gc_cert = [48, 3], gc_key = [48, 4]\<rparr>" and ?cp = "lit ''/etc/a.crt''" and ?kp = "lit ''/etc/a.key''"
  let ?read = "\<lambda>tag. read_pem_hex (lit tag)"
  have ext: "with_extension (lit ''tmp'') ?cp = lit ''/etc/a.tmp''" "with_extension (lit ''tmp'') ?kp = lit ''/etc/a.tmp''"
    "?cp \<noteq> ?kp" "lit ''/etc/a.tmp'' \<noteq> ?cp" "lit ''/etc/a.tmp'' \<noteq> ?kp" by code_simp+
  obtain files' where 1: "load_or_generate hex_encode (?read ''CERTIFICATE'') (?read ''PRIVATE KEY'')
      (Inr ?c) (\<lambda>p. None) (Some ?cp) (Some ?kp) (\<lambda>p. None) = (Inr ?c, files')" "files' (lit ''/etc/a.tmp'') = None"
    using ext(3-5) by (simp add: load_or_generate_def write_pem_def ext(1,2) Let_def)
  from identity_survives_restart [OF this(1) _ ext(3) _ read_pem_hex_reads read_pem_hex_reads] ext(2,4) 1(2)
  show ?thesis by auto
qed

text \<open>
  When the certificate has the name of the key's temporary file, saving the key destroys it: the start
  succeeds, and no later start gets past the error about the two files.
\<close>

theorem certificate_lost_to_temporary_file:
  assumes "files cp = None" and "files kp = None" and "cp \<noteq> kp" and "with_extension (lit ''tmp'') kp = cp"
    and "faults cp = None" and "faults kp = None"
  shows "\<exists>files'. load_or_generate base64 read_cert read_key (Inr c) faults (Some cp) (Some kp) files = (Inr c, files') \<and>
    load_or_generate base64 read_cert' read_key' generated' faults' (Some cp) (Some kp) files' =
      (Inl (lit ''cert and key must either both exist or both be absent''), files')"
proof -
  obtain files1 where 1: "write_pem base64 faults files cp (lit ''CERTIFICATE'') (gc_cert c) = (Inr (), files1)"
    using assms(5) write_pem_faults by blast
  obtain files2 where 2: "write_pem base64 faults files1 kp (lit ''PRIVATE KEY'') (gc_key c) = (Inr (), files2)"
    using assms(6) write_pem_faults by blast
  have "files2 cp = None" "files2 kp \<noteq> None"
    using write_pem_Inr [OF 2] assms(3,4) by auto
  with load_half [of files2 cp kp] 1 2 assms(1,2) show ?thesis
    by (intro exI [of _ files2]) (simp add: load_or_generate_def)
qed

theorem certificate_lost_to_temporary_file_witness:
  "\<exists>files'. load_or_generate hex_encode (read_pem_hex []) (read_pem_hex []) (Inr \<lparr>gc_cert = [3], gc_key = [4]\<rparr>) (\<lambda>p. None)
      (Some (lit ''id.tmp'')) (Some (lit ''id.key'')) (\<lambda>p. None) = (Inr \<lparr>gc_cert = [3], gc_key = [4]\<rparr>, files') \<and>
    load_or_generate hex_encode (read_pem_hex []) (read_pem_hex []) (Inl []) (\<lambda>p. None)
      (Some (lit ''id.tmp'')) (Some (lit ''id.key'')) files' =
      (Inl (lit ''cert and key must either both exist or both be absent''), files')"
proof (rule certificate_lost_to_temporary_file)
  show "lit ''id.tmp'' \<noteq> lit ''id.key''" "with_extension (lit ''tmp'') (lit ''id.key'') = lit ''id.tmp''" by code_simp+
qed simp_all

text \<open>
  A start that wrote the certificate but could not write the key leaves a state no later start
  gets out of: each one refuses with the error about the two files.
\<close>

theorem half_written_identity_refused:
  assumes "files cp = None" and "files kp = None" and "cp \<noteq> kp" and "with_extension (lit ''tmp'') kp \<notin> {cp, kp}"
    and "faults cp = None" and "faults kp \<noteq> None"
  shows "\<exists>e files'. load_or_generate base64 read_cert read_key (Inr c) faults (Some cp) (Some kp) files = (Inl e, files') \<and>
    files' cp = Some (pem_text base64 (lit ''CERTIFICATE'') (gc_cert c)) \<and>
    load_or_generate base64 read_cert' read_key' generated' faults' (Some cp) (Some kp) files' =
      (Inl (lit ''cert and key must either both exist or both be absent''), files')"
proof -
  obtain files1 where 1: "write_pem base64 faults files cp (lit ''CERTIFICATE'') (gc_cert c) = (Inr (), files1)"
    using assms(5) write_pem_faults by blast
  obtain r files2 where 2: "write_pem base64 faults files1 kp (lit ''PRIVATE KEY'') (gc_key c) = (r, files2)"
    by (cases "write_pem base64 faults files1 kp (lit ''PRIVATE KEY'') (gc_key c)")
  with assms(6) write_pem_faults [of base64 faults files1 kp] obtain e where r: "r = Inl e" by (cases r) auto
  have "files2 cp = Some (pem_text base64 (lit ''CERTIFICATE'') (gc_cert c))" "files2 kp = None"
    using write_pem_Inl [OF 2 [unfolded r]] write_pem_Inr [OF 1] assms(2-4) by auto
  with load_half [of files2 cp kp] 1 2 r assms(1,2) show ?thesis
    by (intro exI [of _ e] exI [of _ files2]) (simp add: load_or_generate_def)
qed

theorem half_written_identity_refused_witness:
  "\<exists>e files'. load_or_generate hex_encode (read_pem_hex []) (read_pem_hex []) (Inr \<lparr>gc_cert = [3], gc_key = [4]\<rparr>)
      (\<lambda>p. if p = lit ''b'' then Some (Write_fails 2 []) else None) (Some (lit ''a'')) (Some (lit ''b'')) (\<lambda>p. None) =
        (Inl e, files') \<and>
    files' (lit ''a'') = Some (pem_text hex_encode (lit ''CERTIFICATE'') (gc_cert \<lparr>gc_cert = [3], gc_key = [4]\<rparr>)) \<and>
    load_or_generate hex_encode (read_pem_hex []) (read_pem_hex []) (Inl []) (\<lambda>p. None)
      (Some (lit ''a'')) (Some (lit ''b'')) files' =
      (Inl (lit ''cert and key must either both exist or both be absent''), files')"
proof (rule half_written_identity_refused)
  show "lit ''a'' \<noteq> lit ''b''" "with_extension (lit ''tmp'') (lit ''b'') \<notin> {lit ''a'', lit ''b''}" by code_simp+
  then show "(if lit ''a'' = lit ''b'' then Some (Write_fails 2 []) else None) = None" by simp
qed simp_all

end
