(* ===== verification/Congestion.thy ===== *)
theory Congestion
  imports Metrics
begin

section \<open>Congestion control\<close>

text \<open>
  \<open>src/crates/hydr-cc/src/lib.rs\<close>: the fixed-rate congestion controller of the QUIC
  transport. A \<open>Duration\<close> is its number of nanoseconds, as the \<open>u128\<close> of \<open>as_nanos()\<close>.
  The controller is a state machine driven by \<open>quinn\<close>; the arguments of the callbacks the code
  ignores are left out. The \<open>TransportConfig\<close> of \<open>quinn\<close> is the record of the four settings
  the code makes, and its default is an argument.
\<close>

definition MIN_WINDOW_BYTES :: u64 where [code_consts]: "MIN_WINDOW_BYTES = 2 * 1200"
definition MAX_WINDOW_BYTES :: u64 where [code_consts]: "MAX_WINDOW_BYTES = 64 * 1024 * 1024"

definition clamp :: "'a::linorder \<Rightarrow> 'a \<Rightarrow> 'a \<Rightarrow> 'a" where
  "clamp x lo hi = (if x < lo then lo else if x > hi then hi else x)"

definition window_for :: "u64 \<Rightarrow> u128 \<Rightarrow> u64" where
  "window_for rate_bps rtt =
     (let bytes_per_sec = rate_bps div 8;
          w = ucast ((ucast bytes_per_sec * rtt) div 1000000000 :: u128)
      in clamp w MIN_WINDOW_BYTES MAX_WINDOW_BYTES)"

subsection \<open>\<open>BrutalController\<close>\<close>

record brutal_controller =
  bc_rate_bps :: u64
  bc_window :: u64
  bc_mtu :: u16

definition brutal_new :: "u64 \<Rightarrow> u16 \<Rightarrow> brutal_controller" where
  "brutal_new rate_bps mtu =
     \<lparr>bc_rate_bps = rate_bps, bc_window = window_for rate_bps 50000000, bc_mtu = mtu\<rparr>"

definition on_ack :: "metrics \<Rightarrow> brutal_controller \<Rightarrow> u128 \<Rightarrow> metrics \<times> brutal_controller" where
  "on_ack m self rtt =
     (let self = self\<lparr>bc_window := window_for (bc_rate_bps self) rtt\<rparr>
      in (m\<lparr>mt_cc_window_bytes := bc_window self\<rparr>, self))"

definition on_congestion_event :: "brutal_controller \<Rightarrow> brutal_controller" where
  "on_congestion_event self = self"

definition on_mtu_update :: "brutal_controller \<Rightarrow> u16 \<Rightarrow> brutal_controller" where
  "on_mtu_update self new_mtu = self\<lparr>bc_mtu := new_mtu\<rparr>"

definition controller_window :: "brutal_controller \<Rightarrow> u64" where
  "controller_window self = max (bc_window self) (ucast (bc_mtu self) * 2)"

definition initial_window :: "brutal_controller \<Rightarrow> u64" where
  "initial_window self = bc_window self"

definition brutal_config_build :: "u64 \<Rightarrow> u16 \<Rightarrow> brutal_controller" where
  "brutal_config_build rate_bps current_mtu = brutal_new rate_bps current_mtu"

subsection \<open>Transport configuration\<close>

record quinn_config =
  qc_max_concurrent_bidi_streams :: u32
  qc_keep_alive_interval :: "nat option"
  qc_max_idle_timeout :: "nat option"
  qc_congestion_controller :: "u64 option"

text \<open>Durations in seconds; the controller factory is represented by its rate.\<close>

definition transport_config :: "quinn_config \<Rightarrow> u64 \<Rightarrow> quinn_config" where
  "transport_config default_cfg rate_bps =
     (let cfg = default_cfg;
          cfg = cfg\<lparr>qc_max_concurrent_bidi_streams := 1024\<rparr>;
          cfg = cfg\<lparr>qc_keep_alive_interval := Some 5\<rparr>;
          cfg = cfg\<lparr>qc_max_idle_timeout := Some 30\<rparr>;
          cfg = (if rate_bps > 0 then cfg\<lparr>qc_congestion_controller := Some rate_bps\<rparr> else cfg)
      in cfg)"

subsection \<open>The controller as a state machine\<close>

datatype cc_event = Ack u128 | Congestion_event | Mtu_update u16

fun cc_step :: "metrics \<times> brutal_controller \<Rightarrow> cc_event \<Rightarrow> metrics \<times> brutal_controller" where
  "cc_step (m, c) (Ack rtt) = on_ack m c rtt"
| "cc_step (m, c) Congestion_event = (m, on_congestion_event c)"
| "cc_step (m, c) (Mtu_update mtu) = (m, on_mtu_update c mtu)"

definition cc_run :: "metrics \<times> brutal_controller \<Rightarrow> cc_event list \<Rightarrow> metrics \<times> brutal_controller" where
  "cc_run = foldl cc_step"

subsection \<open>The window\<close>

lemma clamp_bounds: "lo \<le> hi \<Longrightarrow> lo \<le> clamp x lo hi \<and> clamp x lo hi \<le> hi"
  by (auto simp: clamp_def)

lemma window_for_bounds:
  "MIN_WINDOW_BYTES \<le> window_for rate rtt \<and> window_for rate rtt \<le> MAX_WINDOW_BYTES"
  unfolding window_for_def Let_def by (rule clamp_bounds) (simp add: code_consts)

text \<open>The bandwidth-delay product in bytes, over the natural numbers.\<close>

definition bdp :: "u64 \<Rightarrow> u128 \<Rightarrow> nat" where
  "bdp rate rtt = unat rate div 8 * unat rtt div 10 ^ 9"

lemma unat_window_for:
  assumes "bdp rate rtt < 2 ^ 64" and "unat rate div 8 * unat rtt < 2 ^ 128"
  shows "unat (window_for rate rtt) = clamp (bdp rate rtt) 2400 (2 ^ 26)"
proof -
  let ?w = "(ucast (rate div 8) * rtt) div 1000000000 :: u128"
  have "unat (ucast (rate div 8) :: u128) = unat rate div 8"
    using unat_bound [of rate] by (simp add: unat_ucast_mod unat_div)
  then have "unat ?w = bdp rate rtt"
    using assms(2) by (simp add: bdp_def unat_div unat_mult_lem [THEN iffD1])
  then have "unat (ucast ?w :: u64) = bdp rate rtt"
    using assms(1) by (simp add: unat_ucast_mod)
  then show ?thesis
    by (auto simp: window_for_def Let_def clamp_def code_consts word_less_nat_alt)
qed

text \<open>Losses leave no trace, and every reachable window stays within the limits.\<close>

lemma cc_step_window:
  assumes "MIN_WINDOW_BYTES \<le> bc_window (snd s) \<and> bc_window (snd s) \<le> MAX_WINDOW_BYTES"
  shows "MIN_WINDOW_BYTES \<le> bc_window (snd (cc_step s e)) \<and>
     bc_window (snd (cc_step s e)) \<le> MAX_WINDOW_BYTES"
  using assms window_for_bounds
  by (cases s; cases e) (auto simp: on_ack_def on_congestion_event_def on_mtu_update_def Let_def)

lemma cc_run_window:
  "MIN_WINDOW_BYTES \<le> bc_window (snd s) \<and> bc_window (snd s) \<le> MAX_WINDOW_BYTES \<Longrightarrow>
     MIN_WINDOW_BYTES \<le> bc_window (snd (cc_run s es)) \<and> bc_window (snd (cc_run s es)) \<le> MAX_WINDOW_BYTES"
  by (induction es arbitrary: s) (simp_all add: cc_run_def cc_step_window)

lemma cc_run_losses:
  "cc_run s (filter (\<lambda>e. e \<noteq> Congestion_event) es) = cc_run s es"
proof (induction es arbitrary: s)
  case (Cons e es)
  have "cc_step s Congestion_event = s" by (cases s) (simp add: on_congestion_event_def)
  with Cons show ?case by (auto simp: cc_run_def)
qed (simp add: cc_run_def)

text \<open>The last acknowledged round-trip time and the last MTU determine the controller.\<close>

lemma controller_window_bounds:
  assumes "MIN_WINDOW_BYTES \<le> bc_window c \<and> bc_window c \<le> MAX_WINDOW_BYTES"
  shows "2 * unat (bc_mtu c) \<le> unat (controller_window c) \<and> 2400 \<le> unat (controller_window c) \<and>
     unat (controller_window c) \<le> 2 ^ 26"
proof -
  have m: "unat (ucast (bc_mtu c) * 2 :: u64) = 2 * unat (bc_mtu c)"
    using unat_bound [of "bc_mtu c"] by (simp add: unat_word_ariths unat_ucast_mod mult.commute)
  show ?thesis
    using assms m unat_bound [of "bc_mtu c"]
    by (auto simp: controller_window_def code_consts max_def word_le_nat_alt)
qed

subsection \<open>Properties\<close>

text \<open>
  The congestion window is the bandwidth-delay product clamped to 2400 bytes and 64 MiB,
  whenever the product of rate and round-trip time fits the integers the code computes with.
\<close>

theorem window_is_clamped_bdp:
  assumes "bdp rate rtt < 2 ^ 64" and "unat rate div 8 * unat rtt < 2 ^ 128"
  shows "unat (window_for rate rtt) = clamp (bdp rate rtt) 2400 (2 ^ 26)"
  by (rule unat_window_for [OF assms])

theorem window_is_clamped_bdp_witness:
  "unat (window_for 100000000 50000000) = clamp (bdp 100000000 50000000) 2400 (2 ^ 26) \<and>
   unat (window_for 100000000 50000000) = 625000"
  using window_is_clamped_bdp [of 100000000 50000000] by (simp add: bdp_def clamp_def)

text \<open>
  Beyond that range the narrowing to 64 bits comes before the clamping: at 9.2 Ebit/s and a
  round trip of 16 s the window collapses to its minimum although the exact product is far above
  the maximum.
\<close>

theorem window_truncates_before_clamping:
  "window_for (2 ^ 63) 16000000000 = MIN_WINDOW_BYTES \<and>
   clamp (bdp (2 ^ 63) 16000000000) 2400 (2 ^ 26) = 2 ^ 26"
  by (simp add: window_for_def bdp_def clamp_def code_consts)

text \<open>
  (C31) Whatever acknowledgements, losses and MTU changes a connection sees, the window quinn reads
  allows two packets, is at least 2400 bytes and never above 64 MiB, and reported losses do not
  change the controller at all.
\<close>

theorem controller_window_invariant:
  "let (m', c) = cc_run (m, brutal_config_build rate mtu) es
   in 2 * unat (bc_mtu c) \<le> unat (controller_window c) \<and> 2400 \<le> unat (controller_window c) \<and>
      unat (controller_window c) \<le> 2 ^ 26 \<and>
      cc_run (m, brutal_config_build rate mtu) (filter (\<lambda>e. e \<noteq> Congestion_event) es) = (m', c)"
proof -
  have "MIN_WINDOW_BYTES \<le> bc_window (snd (m, brutal_config_build rate mtu)) \<and>
     bc_window (snd (m, brutal_config_build rate mtu)) \<le> MAX_WINDOW_BYTES"
    using window_for_bounds by (simp add: brutal_config_build_def brutal_new_def)
  from controller_window_bounds [OF cc_run_window [OF this, of es]] show ?thesis
    by (simp add: Let_def split_beta cc_run_losses)
qed

end
