(* ===== verification/Dialing.thy ===== *)
theory Dialing
  imports Tunnel Tls_Pin Congestion
begin

section \<open>Setting up connections\<close>

text \<open>
  The connecting side of both transports: \<open>connect_with_tls\<close> and its shorthands in
  \<open>src/crates/hydr-transport/src/quic.rs\<close> and \<open>src/crates/hydr-transport/src/ws.rs\<close>, and
  \<open>TunnelHandle\<close> of \<open>src/crates/hydr-transport/src/lib.rs\<close>. The libraries that open a connection
  and check certificates are the fields of the record \<open>network\<close>.
\<close>

subsection \<open>The libraries\<close>

text \<open>
  \<open>nw_quic\<close> is a quinn endpoint connecting with a configuration, \<open>nw_open_bi\<close> its \<open>open_bi\<close>;
  \<open>nw_wss\<close> and \<open>nw_ws\<close> are \<open>connect_async_tls_with_config\<close> with a connector of ours and
  \<open>connect_async\<close>; \<open>nw_answer\<close> is what the connection loop delivers for the first frame sent. Errors
  are texts.
\<close>

record ('q, 'w) network =
  nw_quic :: "verifier \<Rightarrow> quinn_config option \<Rightarrow> socket_addr \<Rightarrow> rstring \<Rightarrow> rstring + 'q"
  nw_open_bi :: "'q \<Rightarrow> rstring + bi_stream"
  nw_wss :: "rstring \<Rightarrow> verifier \<Rightarrow> rstring + 'w"
  nw_ws :: "rstring \<Rightarrow> rstring + 'w"
  nw_answer :: "'w \<Rightarrow> obfuscator option \<Rightarrow> frame \<Rightarrow> auth_response result"

definition map_io :: "rstring + 'a \<Rightarrow> 'a result" where
  "map_io r = (case r of Inl e \<Rightarrow> Fail (to_io_error e) | Inr x \<Rightarrow> Ok x)"

lemma map_io_eq_Ok [simp]: "map_io r = Ok x \<longleftrightarrow> r = Inr x"
  by (cases r) (simp_all add: map_io_def)

subsection \<open>QUIC\<close>

definition default_transport_config :: "quinn_config \<Rightarrow> quinn_config" where
  "default_transport_config default_cfg =
     (let cfg = default_cfg;
          cfg = cfg\<lparr>qc_max_concurrent_bidi_streams := 1024\<rparr>;
          cfg = cfg\<lparr>qc_keep_alive_interval := Some 5\<rparr>;
          cfg = cfg\<lparr>qc_max_idle_timeout := Some 30\<rparr>
      in cfg)"

definition quic_connect_with_tls ::
  "nat \<Rightarrow> ('q, 'w) network \<Rightarrow> socket_addr \<Rightarrow> rstring \<Rightarrow> bool \<Rightarrow> bytes option \<Rightarrow> quinn_config option \<Rightarrow> auth_request
     \<Rightarrow> 'q result" where
  "quic_connect_with_tls mem net addr server_name insecure cert_pin transport auth =
     (let rustls_cfg = make_client_config_with_pin insecure cert_pin in
      and_then (map_io (nw_quic net rustls_cfg transport addr server_name)) (\<lambda>conn.
      and_then (map_io (nw_open_bi net conn)) (\<lambda>s.
      and_then (fst (client_handshake mem auth s)) (\<lambda>_. Ok conn))))"

definition quic_connect ::
  "nat \<Rightarrow> ('q, 'w) network \<Rightarrow> socket_addr \<Rightarrow> rstring \<Rightarrow> bool \<Rightarrow> quinn_config option \<Rightarrow> auth_request \<Rightarrow> 'q result" where
  "quic_connect mem net addr server_name insecure transport auth =
     quic_connect_with_tls mem net addr server_name insecure None transport auth"

subsection \<open>WebSocket\<close>

definition WSS :: rstring where "WSS = lit ''wss://''"

definition ws_connect_with_tls ::
  "('q, 'w) network \<Rightarrow> rstring \<Rightarrow> bool \<Rightarrow> bytes option \<Rightarrow> auth_request \<Rightarrow> obfuscator option \<Rightarrow> 'w result" where
  "ws_connect_with_tls net url insecure cert_pin auth obfuscation =
     (let ws = (if take (length WSS) url = WSS
                then nw_wss net url (make_client_config_with_pin insecure cert_pin)
                else nw_ws net url)
      in and_then (map_io ws) (\<lambda>ws.
         let buf = encode_auth_request [] auth in
         and_then (connect_answer (nw_answer net ws obfuscation (frame_new 0 FRAME_AUTH_REQUEST buf)))
           (\<lambda>_. Ok ws)))"

definition ws_connect_with_obfuscation ::
  "('q, 'w) network \<Rightarrow> rstring \<Rightarrow> bool \<Rightarrow> auth_request \<Rightarrow> obfuscator option \<Rightarrow> 'w result" where
  "ws_connect_with_obfuscation net url insecure auth obfuscation =
     ws_connect_with_tls net url insecure None auth obfuscation"

definition ws_connect :: "('q, 'w) network \<Rightarrow> rstring \<Rightarrow> bool \<Rightarrow> auth_request \<Rightarrow> 'w result" where
  "ws_connect net url insecure auth = ws_connect_with_obfuscation net url insecure auth None"

text \<open>
  The check of the path on the accepting side, \<open>accept_with_obfuscation\<close>: \<open>None\<close> lets the library go
  on, a text is the body of the refusal.
\<close>

definition check_path :: "rstring \<Rightarrow> rstring \<Rightarrow> rstring option" where
  "check_path path uri_path =
     (if path \<noteq> [] \<and> uri_path \<noteq> path then Some (lit ''Forbidden'') else None)"

subsection \<open>\<open>TunnelHandle\<close>\<close>

text \<open>
  Its QUIC branches repeat \<open>QuicTunnel\<close>'s operations; the stream is what \<open>open_bi\<close> gave. \<open>ws\<close> and
  \<open>send\<close> are the operations of a WebSocket handle and of quinn.
\<close>

definition handle_open_stream_tunnel ::
  "nat \<Rightarrow> ('w \<Rightarrow> address \<Rightarrow> unit result) \<Rightarrow> (rstring + bi_stream, 'w) tunnel \<Rightarrow> address \<Rightarrow> unit result" where
  "handle_open_stream_tunnel mem ws self addr =
     (case self of
        Quic_tunnel bi \<Rightarrow>
          and_then (map_io bi) (\<lambda>s.
            let buf = encode_open_stream [] \<lparr>os_address = addr\<rparr> in
            fst (op_bind (write_len_prefixed buf) (\<lambda>_.
                 op_bind (read_message mem decode_open_stream_ack) (\<lambda>ack.
                 op_return
                   (if oa_status ack = STATUS_ERR then
                      Fail (Message (code_message (oa_error_code ack) (from_utf8_lossy (oa_message ack))))
                    else Ok ()))) s))
      | Ws_tunnel h \<Rightarrow> ws h addr)"

definition handle_send_datagram ::
  "(bytes \<Rightarrow> rstring option) \<Rightarrow> ('w \<Rightarrow> datagram \<Rightarrow> unit result) \<Rightarrow> ('q, 'w) tunnel \<Rightarrow> datagram \<Rightarrow> unit result" where
  "handle_send_datagram send ws self dg =
     (case self of
        Quic_tunnel conn \<Rightarrow>
          (let buf = encode_datagram [] dg
           in case send buf of None \<Rightarrow> Ok () | Some e \<Rightarrow> Fail (to_io_error e))
      | Ws_tunnel h \<Rightarrow> ws h dg)"

subsection \<open>Lemmas\<close>

text \<open>The handle opens a stream and sends a datagram as the tunnel it came from would.\<close>

lemma handle_opens_as_tunnel:
  "handle_open_stream_tunnel mem ws (Quic_tunnel (Inr s)) addr = fst (quic_open_stream mem addr s)"
  by (simp add: handle_open_stream_tunnel_def quic_open_stream_def Let_def map_io_def)

lemma handle_sends_as_tunnel:
  "handle_send_datagram send ws (Quic_tunnel conn) dg = quic_send_datagram send dg"
  by (simp add: handle_send_datagram_def quic_send_datagram_def Let_def)

text \<open>Without a rate for the congestion controller both sides of a hop use the same settings.\<close>

lemma default_transport_config_cc: "default_transport_config cfg = transport_config cfg 0"
  by (simp add: default_transport_config_def transport_config_def)

lemma quic_connect_verified:
  assumes "quic_connect_with_tls mem net addr server_name insecure pin transport auth = Ok q"
  shows "nw_quic net (make_client_config_with_pin insecure pin) transport addr server_name = Inr q"
  using assms by (auto simp: quic_connect_with_tls_def Let_def)

lemma ws_connect_verified:
  assumes "ws_connect_with_tls net url insecure pin auth ob = Ok w" and "take (length WSS) url = WSS"
  shows "nw_wss net url (make_client_config_with_pin insecure pin) = Inr w"
  using assms by (auto simp: ws_connect_with_tls_def Let_def)

text \<open>For any other URL neither the pin nor \<open>insecure\<close> has an effect.\<close>

lemma plain_ws_ignores_pin:
  assumes "take (length WSS) url \<noteq> WSS"
  shows "ws_connect_with_tls net url insecure pin auth ob = ws_connect_with_tls net url insecure' pin' auth ob"
  using assms by (simp add: ws_connect_with_tls_def Let_def)

end
