(* ===== verification/Client.thy ===== *)
theory Client
  imports Udp_Relay Dialing
begin

section \<open>The client\<close>

text \<open>
  \<open>src/crates/hydr-client/src/lib.rs\<close>: the configuration, how a tunnel is set up from it, a SOCKS5
  connection from the greeting to the relay, and the pauses of \<open>serve_datagrams\<close>. What happens when
  a tunnel breaks while several tasks use it is the subject of the theory of reconnection.
\<close>

subsection \<open>Configuration\<close>

datatype client_transport =
    Quic_transport (qt_addr: socket_addr) (qt_server_name: rstring) (ct_insecure: bool) (ct_fingerprint: "rstring option")
  | Ws_transport (wt_url: rstring) (ct_insecure: bool) (wt_obfuscation: "rstring option") (ct_fingerprint: "rstring option")

record client_config =
  cf_transport :: client_transport
  cf_password :: rstring
  cf_cc_rx :: u64
  cf_socks5_bind :: socket_addr
  cf_socks5_username :: "rstring option"
  cf_socks5_password :: "rstring option"

subsection \<open>Setting up a tunnel\<close>

definition connect_tunnel ::
  "derive_key_fn \<Rightarrow> keyed_hash_fn \<Rightarrow> hash_fn \<Rightarrow> quinn_config \<Rightarrow> nat \<Rightarrow> ('q, 'w) network \<Rightarrow> bytes option
     \<Rightarrow> client_config \<Rightarrow> ('q, 'w) tunnel result" where
  "connect_tunnel derive keyed hash default_cfg mem net random config =
     and_then (new_password derive keyed (cf_password config) (cf_cc_rx config) FEATURE_UDP random) (\<lambda>auth.
     case cf_transport config of
       Quic_transport addr server_name insecure fingerprint \<Rightarrow>
         and_then (require_fingerprint fingerprint) (\<lambda>pin.
         and_then (quic_connect_with_tls mem net addr server_name insecure pin
             (Some (transport_config default_cfg (cf_cc_rx config))) auth) (\<lambda>q.
         Ok (Quic_tunnel q)))
     | Ws_transport url insecure obfuscation fingerprint \<Rightarrow>
         and_then (require_fingerprint fingerprint) (\<lambda>pin.
         let ob = map_option (obfuscator_new hash) obfuscation in
         and_then (ws_connect_with_tls net url insecure pin auth ob) (\<lambda>w.
         Ok (Ws_tunnel w))))"

definition is_transport_error :: "hydr_error \<Rightarrow> bool" where
  "is_transport_error e = (case e of StreamClosed \<Rightarrow> True | Io _ \<Rightarrow> True | _ \<Rightarrow> False)"

subsection \<open>A SOCKS5 connection\<close>

definition socks_login :: "rstring option \<Rightarrow> rstring option \<Rightarrow> unit stream_op" where
  "socks_login username password =
     (let require_auth = (username \<noteq> None) in
      op_bind (negotiate_method require_auth) (\<lambda>choice.
        case choice of
          Some m \<Rightarrow>
            if m = METHOD_USERPASS then
              let user = (case username of Some u \<Rightarrow> u | None \<Rightarrow> []);
                  pass = (case password of Some p \<Rightarrow> p | None \<Rightarrow> [])
              in op_bind (verify_userpass user pass) (\<lambda>ok.
                   if \<not> ok then invalid ''socks5 auth failed'' else op_return (Ok ()))
            else op_return (Ok ())
        | None \<Rightarrow> invalid ''no acceptable auth method''))"

text \<open>The ten-byte answers to a request.\<close>

definition socks_reply :: "u8 \<Rightarrow> bytes" where
  "socks_reply code = [5, code, 0, 1, 0, 0, 0, 0, 0, 0]"

datatype socks_session = Relay_session address | Udp_session u32

text \<open>
  \<open>handle_conn\<close> up to the copying of bytes. \<open>connect\<close> is \<open>open_stream_resilient\<close> and \<open>udp\<close> the
  relay's \<open>associate\<close>, both on the rest of the client's state \<open>c\<close>.
\<close>

definition handle_conn ::
  "(address \<Rightarrow> 'c \<Rightarrow> unit result \<times> 'c) \<Rightarrow>
   ('c \<Rightarrow> bi_stream \<Rightarrow> (u32 result \<times> 'c) \<times> bi_stream) \<Rightarrow>
   rstring option \<Rightarrow> rstring option \<Rightarrow> 'c \<Rightarrow> bi_stream \<Rightarrow> (socks_session result \<times> 'c) \<times> bi_stream" where
  "handle_conn connect udp username password c s =
     (case socks_login username password s of
        (Inl e, s) \<Rightarrow> ((Inl e, c), s)
      | (Inr _, s) \<Rightarrow>
          (case read_request s of
             (Inl e, s) \<Rightarrow> ((Inl e, c), s)
           | (Inr req, s) \<Rightarrow>
               if sr_cmd req = CMD_CONNECT then
                 (case connect (sr_address req) c of
                    (Inl Panic, c) \<Rightarrow> ((Crash, c), s)
                  | (Inl (Err e), c) \<Rightarrow> ((Fail e, c), snd (write_all (socks_reply 0x04) s))
                  | (Inr _, c) \<Rightarrow>
                      (case write_all (socks_reply 0x00) s of
                         (Inl e, s) \<Rightarrow> ((Inl e, c), s)
                       | (Inr _, s) \<Rightarrow> ((Ok (Relay_session (sr_address req)), c), s)))
               else if sr_cmd req = CMD_UDP_ASSOCIATE then
                 (case udp c s of
                    ((Inl e, c), s) \<Rightarrow> ((Inl e, c), s)
                  | ((Inr sid, c), s) \<Rightarrow> ((Ok (Udp_session sid), c), s))
               else
                 (case write_all (socks_reply 0x07) s of
                    (Inl e, s) \<Rightarrow> ((Inl e, c), s)
                  | (Inr _, s) \<Rightarrow> ((Fail (InvalidData (lit ''unsupported command'')), c), s))))"

subsection \<open>Pauses between reconnection attempts\<close>

text \<open>
  Milliseconds. \<open>jitter\<close> is the floating-point scaling by a random factor between 0.8 and 1.2; the
  result of the attempt decides the next pause.
\<close>

definition BACKOFF_START :: nat where [code_consts]: "BACKOFF_START = 500"
definition BACKOFF_MAX :: nat where [code_consts]: "BACKOFF_MAX = 30000"

definition next_backoff :: "nat \<Rightarrow> bool \<Rightarrow> nat" where
  "next_backoff backoff reconnected =
     (let backoff = min (backoff * 2) BACKOFF_MAX
      in if reconnected then BACKOFF_START else backoff)"

text \<open>The pauses slept before the attempts of a run of \<open>serve_datagrams\<close>.\<close>

fun backoffs :: "(nat \<Rightarrow> nat) \<Rightarrow> nat \<Rightarrow> bool list \<Rightarrow> nat list" where
  "backoffs jitter backoff [] = []"
| "backoffs jitter backoff (ok # oks) = jitter backoff # backoffs jitter (next_backoff backoff ok) oks"

subsection \<open>Lemmas\<close>

lemma socks_login_OkD:
  assumes "socks_login (Some user) password s = (Ok (), s')"
  shows "\<exists>methods. bi_recv s = [5, of_nat (length methods)] @ methods @
      rfc1929_login user (case password of Some p \<Rightarrow> p | None \<Rightarrow> []) @ bi_recv s' \<and>
    METHOD_USERPASS \<in> set methods"
proof -
  from assms obtain choice s1 where neg: "negotiate_method True s = (Ok choice, s1)"
    and rest: "(case choice of
          Some m \<Rightarrow>
            if m = METHOD_USERPASS then
              op_bind (verify_userpass user (case password of Some p \<Rightarrow> p | None \<Rightarrow> [])) (\<lambda>ok.
                   if \<not> ok then invalid ''socks5 auth failed'' else op_return (Ok ()))
            else op_return (Ok ())
        | None \<Rightarrow> invalid ''no acceptable auth method'') s1 = (Ok (), s')"
    unfolding socks_login_def Let_def option.case by (auto elim!: op_bind_OkE)
  then obtain m where m: "choice = Some m" by (cases choice) auto
  from negotiate_method_OkD [OF neg [unfolded m]] obtain methods
    where ms: "bi_recv s = [5, of_nat (length methods)] @ methods @ bi_recv s1" "m \<in> set methods"
      "m = METHOD_USERPASS" by auto
  from rest m ms(3) have "verify_userpass user (case password of Some p \<Rightarrow> p | None \<Rightarrow> []) s1 = (Ok True, s')"
    by (auto elim!: op_bind_OkE split: if_splits)
  from verify_userpass_OkD [OF this] ms show ?thesis by auto
qed

lemma handle_conn_login:
  assumes "handle_conn connect udp username password c s = ((res, c'), s')"
    and "c' \<noteq> c \<or> res \<in> range Ok"
  obtains s1 where "socks_login username password s = (Ok (), s1)"
proof (cases "socks_login username password s")
  case (Pair r s1)
  with assms that show ?thesis by (cases r) (auto simp: handle_conn_def)
qed

lemma next_backoff_bounds:
  "500 \<le> b \<Longrightarrow> b \<le> 30000 \<Longrightarrow> 500 \<le> next_backoff b ok \<and> next_backoff b ok \<le> 30000"
  by (auto simp: next_backoff_def code_consts Let_def)

lemma backoffs_bounds:
  "500 \<le> b \<Longrightarrow> b \<le> 30000 \<Longrightarrow> p \<in> set (backoffs jitter b oks) \<Longrightarrow>
     \<exists>d. p = jitter d \<and> 500 \<le> d \<and> d \<le> 30000"
proof (induction oks arbitrary: b)
  case (Cons ok oks)
  then show ?case using Cons.IH [of "next_backoff b ok"] next_backoff_bounds [of b ok] by auto
qed simp

lemma negotiate_method_no_auth:
  assumes "bi_recv s = [5, of_nat (length methods)] @ methods @ rest" "METHOD_NO_AUTH \<in> set methods"
    "length methods \<le> 32" "bi_write_error s = None"
  shows "negotiate_method False s =
    (Ok (Some METHOD_NO_AUTH), s\<lparr>bi_recv := rest, bi_sent := bi_sent s @ [5, METHOD_NO_AUTH]\<rparr>)"
proof -
  have n: "unat (of_nat (length methods) :: u8) = length methods"
    using assms(3) by (simp add: unat_of_nat)
  have "read_exact 2 s = (Ok [5, of_nat (length methods)], s\<lparr>bi_recv := methods @ rest\<rparr>)"
    using assms(1) by (intro read_exact_prefix) simp_all
  moreover have "methods \<noteq> []" using assms(2) by auto
  ultimately show ?thesis
    using assms(2,3,4) n
    by (simp add: negotiate_method_def op_bind_def Let_def read_exact_def write_all_def)
qed

subsection \<open>Properties\<close>

text \<open>
  (C2) With a user name configured, nobody gets past the SOCKS5 login without it: if a connection
  succeeds, or changes anything in the client at all (opens a stream, starts a UDP association), then
  its first bytes were a greeting that offers the method and exactly the configured name and
  password.
\<close>

theorem socks5_login_gate:
  assumes "handle_conn connect udp (Some user) password c s = ((res, c'), s')"
    and "c' \<noteq> c \<or> res \<in> range Ok"
  shows "\<exists>methods rest. METHOD_USERPASS \<in> set methods \<and>
    bi_recv s = [5, of_nat (length methods)] @ methods @
      rfc1929_login user (case password of Some p \<Rightarrow> p | None \<Rightarrow> []) @ rest"
proof -
  obtain s1 where "socks_login (Some user) password s = (Ok (), s1)"
    by (rule handle_conn_login [OF assms])
  from socks_login_OkD [OF this] show ?thesis by blast
qed

theorem socks5_login_gate_witness:
  "\<exists>methods rest. METHOD_USERPASS \<in> set methods \<and>
    [5, 1, 2, 1, 1, 0x75, 1, 0x70] @ rfc1928_request CMD_CONNECT (Ip (V4 9) 80) =
      [5, of_nat (length methods)] @ methods @ rfc1929_login (lit ''u'') (lit ''p'') @ rest"
proof -
  let ?s = "\<lparr>bi_recv = [5, 1, 2, 1, 1, 0x75, 1, 0x70] @ rfc1928_request CMD_CONNECT (Ip (V4 9) 80),
      bi_read_error = [], bi_sent = [], bi_write_error = None\<rparr>"
  let ?h = "handle_conn (\<lambda>a c. (Ok (), c + (1 :: nat))) (\<lambda>c s. ((Fail StreamClosed, c), s))
      (Some (lit ''u'')) (Some (lit ''p'')) 0 ?s"
  have "snd (fst ?h) = 1" by code_simp
  then obtain res s' where h: "?h = ((res, 1), s')" by (cases ?h) auto
  show ?thesis using socks5_login_gate [OF h] by simp
qed

text \<open>A \<open>CONNECT\<close> without login, for either outcome of opening the stream.\<close>

lemma handle_conn_connect:
  assumes "bi_recv s = [5, of_nat (length methods)] @ methods @ rfc1928_request CMD_CONNECT a @ payload"
    and "METHOD_NO_AUTH \<in> set methods" and "length methods \<le> 32" and "common_format a"
    and "bi_write_error s = None"
  shows "connect a c = (Ok (), c') \<Longrightarrow> handle_conn connect udp None password c s =
      ((Ok (Relay_session a), c'),
       s\<lparr>bi_recv := payload, bi_sent := bi_sent s @ [5, 0] @ socks_reply 0x00\<rparr>)"
    and "connect a c = (Fail e, c') \<Longrightarrow> handle_conn connect udp None password c s =
      ((Fail e, c'), s\<lparr>bi_recv := payload, bi_sent := bi_sent s @ [5, 0] @ socks_reply 0x04\<rparr>)"
proof -
  let ?s1 = "s\<lparr>bi_recv := rfc1928_request CMD_CONNECT a @ payload, bi_sent := bi_sent s @ [5, METHOD_NO_AUTH]\<rparr>"
  have "socks_login None password s = (Ok (), ?s1)"
    using negotiate_method_no_auth [OF assms(1,2,3,5)]
    by (simp add: socks_login_def op_bind_def code_consts)
  moreover have "decode_address (rfc1928_address a) = Ok (a, length (encode_address [] a))"
    using common_format_encode [OF assms(4)] decode_encode_address [of a "[]"] by simp
  then have "read_request ?s1 = (Ok \<lparr>sr_cmd = CMD_CONNECT, sr_address = a\<rparr>, ?s1\<lparr>bi_recv := payload\<rparr>)"
    using assms(4) read_request_rfc [of ?s1 CMD_CONNECT a payload] by (cases a) auto
  ultimately show "connect a c = (Ok (), c') \<Longrightarrow> handle_conn connect udp None password c s =
      ((Ok (Relay_session a), c'),
       s\<lparr>bi_recv := payload, bi_sent := bi_sent s @ [5, 0] @ socks_reply 0x00\<rparr>)"
    and "connect a c = (Fail e, c') \<Longrightarrow> handle_conn connect udp None password c s =
      ((Fail e, c'), s\<lparr>bi_recv := payload, bi_sent := bi_sent s @ [5, 0] @ socks_reply 0x04\<rparr>)"
    using assms(5) by (simp_all add: handle_conn_def write_all_def METHOD_NO_AUTH_def)
qed

text \<open>
  A whole SOCKS5 connection without login: for a greeting that offers the method and a request
  to connect to an address both formats share, the client opens a stream to exactly that address,
  answers with the two replies of RFC 1928 and relays from the first byte of the payload on.
\<close>

theorem socks5_connect_session:
  assumes "bi_recv s = [5, of_nat (length methods)] @ methods @ rfc1928_request CMD_CONNECT a @ payload"
    and "METHOD_NO_AUTH \<in> set methods" and "length methods \<le> 32" and "common_format a"
    and "bi_write_error s = None" and "connect a c = (Ok (), c')"
  shows "handle_conn connect udp None password c s =
    ((Ok (Relay_session a), c'),
     s\<lparr>bi_recv := payload, bi_sent := bi_sent s @ [5, 0] @ [5, 0, 0, 1, 0, 0, 0, 0, 0, 0]\<rparr>)"
  using handle_conn_connect(1) [where connect = connect and c = c, OF assms] by (simp add: socks_reply_def)

theorem socks5_connect_session_witness:
  "fst (handle_conn (\<lambda>a c. (Ok (), a # c)) (\<lambda>c s. ((Fail StreamClosed, c), s)) None None []
     \<lparr>bi_recv = [5, 1, 0] @ rfc1928_request CMD_CONNECT (Ip (V4 9) 80) @ [7],
      bi_read_error = [], bi_sent = [], bi_write_error = None\<rparr>) =
   (Ok (Relay_session (Ip (V4 9) 80)), [Ip (V4 9) 80])"
  by (subst socks5_connect_session [where methods = "[0]" and a = "Ip (V4 9) 80" and payload = "[7]"])
    (simp_all add: METHOD_NO_AUTH_def)

text \<open>
  The pauses between reconnection attempts are jittered values between half a second and thirty
  seconds, and after a successful attempt they start over at half a second.
\<close>

theorem backoff_bounded:
  assumes "p \<in> set (backoffs jitter BACKOFF_START oks)"
  shows "(\<exists>d. p = jitter d \<and> 500 \<le> d \<and> d \<le> 30000) \<and> next_backoff b True = 500"
  using backoffs_bounds [OF _ _ assms] by (simp add: code_consts next_backoff_def)

theorem backoff_bounded_witness:
  "(\<exists>d. (24000 :: nat) = d * 4 div 5 \<and> 500 \<le> d \<and> d \<le> 30000) \<and> next_backoff 30000 True = 500"
proof -
  have "24000 \<in> set (backoffs (\<lambda>d. d * 4 div 5) BACKOFF_START (replicate 7 False))"
    by (simp add: replicate_numeral next_backoff_def code_consts)
  from backoff_bounded [OF this, of 30000] show ?thesis by simp
qed

subsection \<open>The server behind a pinned tunnel\<close>

text \<open>
  What both TLS libraries promise: a connection is only made to a server whose certificate the
  given verifier accepts; \<open>cert\<close> is the certificate the server presented.
\<close>

definition certs_checked ::
  "(bytes \<Rightarrow> bytes) \<Rightarrow> (bool \<Rightarrow> bytes \<Rightarrow> bool) \<Rightarrow> ('q, 'w) network \<Rightarrow> (('q, 'w) tunnel \<Rightarrow> bytes) \<Rightarrow> bool" where
  "certs_checked sha256 webpki net cert \<longleftrightarrow>
     (\<forall>vf cfg addr name q. nw_quic net vf cfg addr name = Inr q \<longrightarrow> trusts sha256 webpki vf (cert (Quic_tunnel q))) \<and>
     (\<forall>url vf w. nw_wss net url vf = Inr w \<longrightarrow> trusts sha256 webpki vf (cert (Ws_tunnel w)))"

definition encrypted_transport :: "client_transport \<Rightarrow> bool" where
  "encrypted_transport t =
     (case t of Quic_transport _ _ _ _ \<Rightarrow> True | Ws_transport url _ _ _ \<Rightarrow> take (length WSS) url = WSS)"

lemma connect_tunnel_verified:
  assumes "connect_tunnel derive keyed hash default_cfg mem net random config = Ok t"
    and "encrypted_transport (cf_transport config)" and "certs_checked sha256 webpki net cert"
  shows "\<exists>pin. require_fingerprint (ct_fingerprint (cf_transport config)) = Ok pin \<and>
    trusts sha256 webpki (make_client_config_with_pin (ct_insecure (cf_transport config)) pin) (cert t)"
proof (cases "cf_transport config")
  case (Quic_transport addr name insecure fingerprint)
  with assms(1) obtain pin auth q cfg where "require_fingerprint fingerprint = Ok pin" "t = Quic_tunnel q"
    and "quic_connect_with_tls mem net addr name insecure pin cfg auth = Ok q"
    by (auto simp: connect_tunnel_def)
  with Quic_transport assms(3) show ?thesis
    by (cases addr) (auto simp: certs_checked_def dest!: quic_connect_verified)
next
  case (Ws_transport url insecure obfuscation fingerprint)
  with assms(1) obtain pin auth w ob where "require_fingerprint fingerprint = Ok pin" "t = Ws_tunnel w"
    and "ws_connect_with_tls net url insecure pin auth ob = Ok w"
    by (auto simp: connect_tunnel_def Let_def)
  with Ws_transport assms(2,3) show ?thesis
    by (auto simp: certs_checked_def encrypted_transport_def dest!: ws_connect_verified)
qed

text \<open>The transport without its fingerprint, which makes no difference for a \<open>ws://\<close> URL.\<close>

definition without_fingerprint :: "client_transport \<Rightarrow> client_transport" where
  "without_fingerprint t =
     (case t of
        Quic_transport addr server_name insecure fingerprint \<Rightarrow> Quic_transport addr server_name insecure None
      | Ws_transport url insecure obfuscation fingerprint \<Rightarrow> Ws_transport url insecure obfuscation None)"

lemma connect_tunnel_unencrypted:
  assumes "connect_tunnel derive keyed hash default_cfg mem net random config = Ok t"
    and "\<not> encrypted_transport (cf_transport config)"
  shows "connect_tunnel derive keyed hash default_cfg mem net random
    (config\<lparr>cf_transport := without_fingerprint (cf_transport config)\<rparr>) = Ok t"
proof (cases "cf_transport config")
  case (Ws_transport url insecure obfuscation fingerprint)
  then have url: "take (length WSS) url \<noteq> WSS" using assms(2) by (simp add: encrypted_transport_def)
  have "require_fingerprint None = Ok None" by (simp add: require_fingerprint_def)
  with assms(1) Ws_transport show ?thesis
    by (auto simp: connect_tunnel_def without_fingerprint_def Let_def) (metis plain_ws_ignores_pin [OF url])
qed (use assms(2) in \<open>simp add: encrypted_transport_def\<close>)

text \<open>
  (C18) What a fingerprint in the configuration is worth. Over QUIC or a \<open>wss://\<close> URL a client only ever
  gets a tunnel to the pinned server: if connecting succeeds, then the certificate the server presented
  has exactly that fingerprint, with or without \<open>insecure\<close>. For any other URL, such as \<open>ws://\<close>, there is no
  certificate, and the fingerprint has no effect: the client gets the same tunnel as without it, although
  it asked for a particular server.
\<close>

theorem pinned_tunnel_reaches_pinned_server:
  assumes "connect_tunnel derive keyed hash default_cfg mem net random config = Ok t"
    and "ct_fingerprint (cf_transport config) = Some text"
    and "certs_checked sha256 webpki net cert" and "length (sha256 (cert t)) = 32"
  shows "if encrypted_transport (cf_transport config)
    then map lower (filter (\<lambda>c. c \<noteq> COLON) text) = cert_fingerprint_hex sha256 (cert t)
    else connect_tunnel derive keyed hash default_cfg mem net random
      (config\<lparr>cf_transport := without_fingerprint (cf_transport config)\<rparr>) = Ok t"
  using connect_tunnel_verified [OF assms(1) _ assms(3)] connect_tunnel_unencrypted [OF assms(1)] assms(2)
    pin_matches_text [of sha256 "cert t", OF assms(4)] by auto

theorem pinned_tunnel_reaches_pinned_server_witness:
  "map lower (filter (\<lambda>c. c \<noteq> COLON) (lit (concat (replicate 32 ''aB:'')))) =
     cert_fingerprint_hex (\<lambda>c. replicate 32 0xAB) [1]"
proof -
  let ?net = "\<lparr>nw_quic = \<lambda>vf cfg addr name. Inl [], nw_open_bi = \<lambda>q. Inl [],
    nw_wss = \<lambda>url vf. if trusts (\<lambda>c. replicate 32 0xAB) (\<lambda>r c. False) vf [1] then Inr () else Inl [],
    nw_ws = \<lambda>url. Inl [], nw_answer = \<lambda>w ob f. Ok (auth_response_ok 0 0)\<rparr> :: (unit, unit) network"
  let ?text = "lit (concat (replicate 32 ''aB:''))"
  let ?config = "\<lparr>cf_transport = Ws_transport (lit ''wss://h'') True None (Some ?text), cf_password = [],
    cf_cc_rx = 0, cf_socks5_bind = (V4 0, 0), cf_socks5_username = None, cf_socks5_password = None\<rparr>"
  have pin: "require_fingerprint (Some ?text) = Ok (Some (replicate 32 0xAB))"
    by code_simp
  have wss: "take (length WSS) (lit ''wss://h'') = WSS"
    by (simp add: WSS_def lit_def)
  have "connect_tunnel (\<lambda>p n. []) (\<lambda>k m. []) (\<lambda>b. []) undefined 0 ?net (Some []) ?config = Ok (Ws_tunnel ())"
    by (simp add: connect_tunnel_def new_password_def new_password_with_nonce_def pin ws_connect_with_tls_def
        wss trusts_def make_client_config_with_pin_def verify_server_cert_def cert_fingerprint_def
        connect_answer_def auth_response_ok_def del: replicate_numeral)
  moreover have "ct_fingerprint (cf_transport ?config) = Some ?text" by simp
  moreover have "certs_checked (\<lambda>c. replicate 32 0xAB) (\<lambda>r c. False) ?net (\<lambda>t. [1])"
    by (simp add: certs_checked_def split: if_splits)
  moreover have "length (replicate 32 (0xAB :: u8)) = 32" by simp
  ultimately have "if encrypted_transport (cf_transport ?config)
    then map lower (filter (\<lambda>c. c \<noteq> COLON) ?text) = cert_fingerprint_hex (\<lambda>c. replicate 32 0xAB) [1]
    else connect_tunnel (\<lambda>p n. []) (\<lambda>k m. []) (\<lambda>b. []) undefined 0 ?net (Some [])
      (?config\<lparr>cf_transport := without_fingerprint (cf_transport ?config)\<rparr>) = Ok (Ws_tunnel ())"
    by (rule pinned_tunnel_reaches_pinned_server)
  moreover have "encrypted_transport (cf_transport ?config)" by (simp add: encrypted_transport_def wss)
  ultimately show ?thesis by (simp only: if_True)
qed
end
