(* ===== verification/Client_Reconnect.thy ===== *)
theory Client_Reconnect
  imports Client
begin

section \<open>Reconnection of the client\<close>

text \<open>
  \<open>src/crates/hydr-client/src/lib.rs\<close>: \<open>open_stream_resilient\<close>, \<open>reconnect_sync\<close>, \<open>reconnect\<close> and
  the loop of \<open>serve_datagrams\<close>, as tasks that run concurrently on the shared fields of \<open>Client\<close>.
  There is one task that serves datagrams and any number of tasks that open a stream. A task is at
  one of the points where another one can run in between; an action moves one task to its next
  point. What the network does (a stream opens, is refused or fails, a connection attempt succeeds
  or fails, a datagram arrives, the tunnel breaks) is part of the action.

  Tunnels are numbered as they are made. The \<open>tunnel\<close> mutex is held across points by the datagram
  task only, while it waits in \<open>recv_datagram\<close>; \<open>cl_made\<close> is not in the code: it records, for every
  opener that replaced the tunnel, the generation it had seen. Generations are natural numbers: the
  64-bit counter of the code would wrap after \<open>2 ^ 64\<close> reconnections.
\<close>

subsection \<open>State\<close>

datatype task = Datagrams | Opener nat

datatype pc =
    Idle
  | Trying nat
  | Waiting nat
  | Checking nat
  | Connecting nat
  | Swapping nat nat
  | Publishing nat nat
  | Bumping nat
  | Rereading
  | Retrying nat
  | Finished bool
  | Loop_top
  | Receiving
  | Sleeping

record client =
  cl_tunnel :: nat
  cl_tunnel_lock :: "task option"
  cl_handle :: nat
  cl_reconnect_lock :: "nat option"
  cl_gen :: nat
  cl_fresh :: nat
  cl_pc :: "task \<Rightarrow> pc"
  cl_made :: "nat list"

definition client_init :: client where
  "client_init =
     \<lparr>cl_tunnel = 0, cl_tunnel_lock = None, cl_handle = 0, cl_reconnect_lock = None, cl_gen = 0,
      cl_fresh = 1, cl_pc = (\<lambda>t. if t = Datagrams then Loop_top else Idle), cl_made = []\<rparr>"

datatype action =
    Start nat
  | Opened nat
  | Refused nat hydr_error
  | Take_lock nat
  | Check nat
  | Connected task
  | Connect_failed task
  | Swap task
  | Publish task
  | Bump task
  | Reread nat
  | Retried nat bool
  | Lock_tunnel
  | Datagram_arrives
  | Receive_fails
  | Wake

definition move :: "task \<Rightarrow> pc \<Rightarrow> client \<Rightarrow> client" where
  "move t p s = s\<lparr>cl_pc := (cl_pc s)(t := p)\<rparr>"

text \<open>How \<open>reconnect\<close> goes on when it returns to its caller.\<close>

fun reconnect_ok :: "task \<Rightarrow> nat \<Rightarrow> client \<Rightarrow> client" where
  "reconnect_ok Datagrams g s = move Datagrams Loop_top s"
| "reconnect_ok (Opener i) g s =
     (move (Opener i) Rereading s)\<lparr>cl_reconnect_lock := None, cl_made := g # cl_made s\<rparr>"

fun reconnect_err :: "task \<Rightarrow> client \<Rightarrow> client" where
  "reconnect_err Datagrams s = move Datagrams Loop_top s"
| "reconnect_err (Opener i) s = (move (Opener i) (Finished False) s)\<lparr>cl_reconnect_lock := None\<rparr>"

subsection \<open>Actions\<close>

text \<open>
  \<open>open_stream_resilient\<close>: take the handle and try; on a failure of the transport go to the
  reconnection, afterwards take the new handle and try once more.
\<close>

fun open_stream_act :: "action \<Rightarrow> client \<Rightarrow> client option" where
  "open_stream_act (Start i) s =
     (if cl_pc s (Opener i) = Idle then Some (move (Opener i) (Trying (cl_handle s)) s) else None)"
| "open_stream_act (Opened i) s =
     (case cl_pc s (Opener i) of Trying h \<Rightarrow> Some (move (Opener i) (Finished True) s) | _ \<Rightarrow> None)"
| "open_stream_act (Refused i e) s =
     (case cl_pc s (Opener i) of
        Trying h \<Rightarrow>
          Some (move (Opener i) (if is_transport_error e then Waiting (cl_gen s) else Finished False) s)
      | _ \<Rightarrow> None)"
| "open_stream_act (Reread i) s =
     (if cl_pc s (Opener i) = Rereading then Some (move (Opener i) (Retrying (cl_handle s)) s) else None)"
| "open_stream_act (Retried i ok) s =
     (case cl_pc s (Opener i) of Retrying h \<Rightarrow> Some (move (Opener i) (Finished ok) s) | _ \<Rightarrow> None)"
| "open_stream_act _ s = None"

text \<open>
  \<open>reconnect_sync\<close>: the generation was read when the try failed; under the lock it is compared.
\<close>

fun reconnect_sync_act :: "action \<Rightarrow> client \<Rightarrow> client option" where
  "reconnect_sync_act (Take_lock i) s =
     (case cl_pc s (Opener i) of
        Waiting g \<Rightarrow>
          if cl_reconnect_lock s = None
          then Some ((move (Opener i) (Checking g) s)\<lparr>cl_reconnect_lock := Some i\<rparr>) else None
      | _ \<Rightarrow> None)"
| "reconnect_sync_act (Check i) s =
     (case cl_pc s (Opener i) of
        Checking g \<Rightarrow>
          if cl_gen s \<noteq> g then Some ((move (Opener i) Rereading s)\<lparr>cl_reconnect_lock := None\<rparr>)
          else Some (move (Opener i) (Connecting g) s)
      | _ \<Rightarrow> None)"
| "reconnect_sync_act _ s = None"

text \<open>
  \<open>reconnect\<close>, for either caller: connect, store the tunnel under its mutex, publish its handle,
  count the generation.
\<close>

fun reconnect_act :: "action \<Rightarrow> client \<Rightarrow> client option" where
  "reconnect_act (Connected t) s =
     (case cl_pc s t of
        Connecting g \<Rightarrow> Some ((move t (Swapping g (cl_fresh s)) s)\<lparr>cl_fresh := cl_fresh s + 1\<rparr>)
      | _ \<Rightarrow> None)"
| "reconnect_act (Connect_failed t) s =
     (case cl_pc s t of Connecting g \<Rightarrow> Some (reconnect_err t s) | _ \<Rightarrow> None)"
| "reconnect_act (Swap t) s =
     (case cl_pc s t of
        Swapping g n \<Rightarrow>
          if cl_tunnel_lock s = None then Some ((move t (Publishing g n) s)\<lparr>cl_tunnel := n\<rparr>) else None
      | _ \<Rightarrow> None)"
| "reconnect_act (Publish t) s =
     (case cl_pc s t of
        Publishing g n \<Rightarrow> Some ((move t (Bumping g) s)\<lparr>cl_handle := n\<rparr>)
      | _ \<Rightarrow> None)"
| "reconnect_act (Bump t) s =
     (case cl_pc s t of
        Bumping g \<Rightarrow> Some ((reconnect_ok t g s)\<lparr>cl_gen := cl_gen s + 1\<rparr>)
      | _ \<Rightarrow> None)"
| "reconnect_act _ s = None"

text \<open>
  The loop of \<open>serve_datagrams\<close>: the mutex is held while waiting for a datagram; after an error the
  task sleeps and reconnects, with no look at the generation.
\<close>

fun serve_datagrams_act :: "action \<Rightarrow> client \<Rightarrow> client option" where
  "serve_datagrams_act Lock_tunnel s =
     (if cl_pc s Datagrams = Loop_top \<and> cl_tunnel_lock s = None
      then Some ((move Datagrams Receiving s)\<lparr>cl_tunnel_lock := Some Datagrams\<rparr>) else None)"
| "serve_datagrams_act Datagram_arrives s =
     (if cl_pc s Datagrams = Receiving
      then Some ((move Datagrams Loop_top s)\<lparr>cl_tunnel_lock := None\<rparr>) else None)"
| "serve_datagrams_act Receive_fails s =
     (if cl_pc s Datagrams = Receiving
      then Some ((move Datagrams Sleeping s)\<lparr>cl_tunnel_lock := None\<rparr>) else None)"
| "serve_datagrams_act Wake s =
     (if cl_pc s Datagrams = Sleeping then Some (move Datagrams (Connecting 0) s) else None)"
| "serve_datagrams_act _ s = None"

text \<open>All tasks together.\<close>

fun client_act :: "action \<Rightarrow> client \<Rightarrow> client option" where
  "client_act (Start i) s = open_stream_act (Start i) s"
| "client_act (Opened i) s = open_stream_act (Opened i) s"
| "client_act (Refused i e) s = open_stream_act (Refused i e) s"
| "client_act (Take_lock i) s = reconnect_sync_act (Take_lock i) s"
| "client_act (Check i) s = reconnect_sync_act (Check i) s"
| "client_act (Connected t) s = reconnect_act (Connected t) s"
| "client_act (Connect_failed t) s = reconnect_act (Connect_failed t) s"
| "client_act (Swap t) s = reconnect_act (Swap t) s"
| "client_act (Publish t) s = reconnect_act (Publish t) s"
| "client_act (Bump t) s = reconnect_act (Bump t) s"
| "client_act (Reread i) s = open_stream_act (Reread i) s"
| "client_act (Retried i ok) s = open_stream_act (Retried i ok) s"
| "client_act Lock_tunnel s = serve_datagrams_act Lock_tunnel s"
| "client_act Datagram_arrives s = serve_datagrams_act Datagram_arrives s"
| "client_act Receive_fails s = serve_datagrams_act Receive_fails s"
| "client_act Wake s = serve_datagrams_act Wake s"

fun client_run :: "action list \<Rightarrow> client \<Rightarrow> client option" where
  "client_run [] s = Some s"
| "client_run (a # as) s = (case client_act a s of None \<Rightarrow> None | Some s' \<Rightarrow> client_run as s')"

inductive client_reachable :: "client \<Rightarrow> bool" where
  client_start: "client_reachable client_init"
| client_step: "client_reachable s \<Longrightarrow> client_act a s = Some s' \<Longrightarrow> client_reachable s'"

subsection \<open>The invariant\<close>

fun holds_lock :: "pc \<Rightarrow> bool" where
  "holds_lock (Checking g) = True"
| "holds_lock (Connecting g) = True"
| "holds_lock (Swapping g n) = True"
| "holds_lock (Publishing g n) = True"
| "holds_lock (Bumping g) = True"
| "holds_lock _ = False"

fun replacing :: "pc \<Rightarrow> nat option" where
  "replacing (Connecting g) = Some g"
| "replacing (Swapping g n) = Some g"
| "replacing (Publishing g n) = Some g"
| "replacing (Bumping g) = Some g"
| "replacing _ = None"

definition client_inv :: "client \<Rightarrow> bool" where
  "client_inv s \<longleftrightarrow>
     (cl_tunnel_lock s = (if cl_pc s Datagrams = Receiving then Some Datagrams else None)) \<and>
     (\<forall>i. holds_lock (cl_pc s (Opener i)) \<longleftrightarrow> cl_reconnect_lock s = Some i) \<and>
     (\<forall>g \<in> set (cl_made s). g < cl_gen s) \<and> distinct (cl_made s) \<and>
     (\<forall>i g. replacing (cl_pc s (Opener i)) = Some g \<longrightarrow> g \<le> cl_gen s \<and> (\<forall>g' \<in> set (cl_made s). g' < g))"

lemma client_inv_init: "client_inv client_init"
  by (simp add: client_inv_def client_init_def)

lemma replacing_holds_lock: "replacing p = Some g \<Longrightarrow> holds_lock p"
  by (cases p) auto

lemma client_inv_move:
  assumes "client_inv s" "t \<noteq> Datagrams \<Longrightarrow> holds_lock p = holds_lock (cl_pc s t)"
    and "t = Datagrams \<Longrightarrow> p \<noteq> Receiving \<and> cl_pc s t \<noteq> Receiving"
    and "\<And>i g. t = Opener i \<Longrightarrow> replacing p = Some g \<Longrightarrow> g = cl_gen s \<or> replacing (cl_pc s t) = Some g"
  shows "client_inv (move t p s)"
proof -
  have "g \<le> cl_gen s \<and> (\<forall>g' \<in> set (cl_made s). g' < g)"
    if "t = Opener i" "replacing p = Some g" for i g
    using assms(4) [OF that] assms(1) that(1) by (auto simp: client_inv_def)
  with assms(1-3) show ?thesis by (cases t) (auto simp: client_inv_def move_def)
qed

lemma client_inv_unlock:
  assumes inv: "client_inv s" and "holds_lock (cl_pc s (Opener i))" and p: "\<not> holds_lock p"
  shows "client_inv ((move (Opener i) p s)\<lparr>cl_reconnect_lock := None\<rparr>)"
proof -
  have r: "replacing p = None" using p by (cases p) auto
  from assms have "cl_reconnect_lock s = Some i" by (auto simp: client_inv_def)
  with inv p r show ?thesis by (auto simp: client_inv_def move_def split: if_splits)
qed

lemma client_inv_fields [simp]:
  "client_inv (s\<lparr>cl_fresh := n\<rparr>) = client_inv s"
  "client_inv (s\<lparr>cl_tunnel := n\<rparr>) = client_inv s"
  "client_inv (s\<lparr>cl_handle := n\<rparr>) = client_inv s"
  by (simp_all add: client_inv_def)

lemma client_act_inv:
  assumes inv: "client_inv s" and act: "client_act a s = Some s'"
  shows "client_inv s'"
proof (cases a)
  case (Take_lock i)
  with act obtain g where "cl_pc s (Opener i) = Waiting g" "cl_reconnect_lock s = None"
    and "s' = (move (Opener i) (Checking g) s)\<lparr>cl_reconnect_lock := Some i\<rparr>"
    by (auto split: pc.splits if_splits)
  with inv show ?thesis by (auto simp: client_inv_def move_def)
next
  case (Check i)
  with act obtain g where g: "cl_pc s (Opener i) = Checking g" by (auto split: pc.splits)
  show ?thesis
  proof (cases "cl_gen s = g")
    case True
    with act Check g inv show ?thesis by (auto intro!: client_inv_move)
  next
    case False
    with act Check g inv show ?thesis by (auto intro!: client_inv_unlock)
  qed
next
  case (Connect_failed t)
  with act obtain g where g: "cl_pc s t = Connecting g" and s': "s' = reconnect_err t s"
    by (auto split: pc.splits)
  show ?thesis
  proof (cases t)
    case Datagrams
    with g s' inv show ?thesis by (auto intro!: client_inv_move)
  next
    case (Opener i)
    with g s' inv show ?thesis by (auto intro!: client_inv_unlock)
  qed
next
  case (Bump t)
  with act obtain g where g: "cl_pc s t = Bumping g"
    and s': "s' = (reconnect_ok t g s)\<lparr>cl_gen := cl_gen s + 1\<rparr>"
    by (auto split: pc.splits)
  show ?thesis
  proof (cases t)
    case Datagrams
    with g s' inv show ?thesis by (auto simp: client_inv_def move_def less_Suc_eq le_Suc_eq)
  next
    case (Opener i)
    with g have "replacing (cl_pc s (Opener i)) = Some g" "holds_lock (cl_pc s (Opener i))" by simp_all
    with inv have "g \<le> cl_gen s" "\<forall>g' \<in> set (cl_made s). g' < g" "cl_reconnect_lock s = Some i"
      unfolding client_inv_def by blast+
    moreover have "client_inv ((move (Opener i) Rereading s)\<lparr>cl_reconnect_lock := None\<rparr>)"
      using inv g Opener by (intro client_inv_unlock) simp_all
    moreover have "replacing (cl_pc s (Opener j)) = None" if "j \<noteq> i" for j
      using inv that \<open>cl_reconnect_lock s = Some i\<close> replacing_holds_lock [of "cl_pc s (Opener j)"]
      by (cases "replacing (cl_pc s (Opener j))") (auto simp: client_inv_def)
    ultimately show ?thesis
      using Opener s' by (auto simp: client_inv_def move_def less_Suc_eq le_Suc_eq)
  qed
next
  case Lock_tunnel
  with act inv show ?thesis by (auto simp: client_inv_def move_def split: if_splits)
next
  case Datagram_arrives
  with act inv show ?thesis by (auto simp: client_inv_def move_def split: if_splits)
next
  case Receive_fails
  with act inv show ?thesis by (auto simp: client_inv_def move_def split: if_splits)
qed (use act inv in \<open>auto split: pc.splits if_splits intro!: client_inv_move\<close>)

lemma client_run_inv: "client_inv s \<Longrightarrow> client_run as s = Some s' \<Longrightarrow> client_inv s'"
  by (induction as arbitrary: s) (auto split: option.splits dest: client_act_inv)

lemma client_reachable_inv: "client_reachable s \<Longrightarrow> client_inv s"
  by (induction rule: client_reachable.induct) (auto intro: client_inv_init client_act_inv)

lemma client_run_reachable: "client_reachable s \<Longrightarrow> client_run as s = Some s' \<Longrightarrow> client_reachable s'"
  by (induction as arbitrary: s) (auto split: option.splits intro: client_step)

subsection \<open>Every opener comes to an end\<close>

fun actor :: "action \<Rightarrow> task" where
  "actor (Start i) = Opener i"
| "actor (Opened i) = Opener i"
| "actor (Refused i e) = Opener i"
| "actor (Take_lock i) = Opener i"
| "actor (Check i) = Opener i"
| "actor (Connected t) = t"
| "actor (Connect_failed t) = t"
| "actor (Swap t) = t"
| "actor (Publish t) = t"
| "actor (Bump t) = t"
| "actor (Reread i) = Opener i"
| "actor (Retried i ok) = Opener i"
| "actor Lock_tunnel = Datagrams"
| "actor Datagram_arrives = Datagrams"
| "actor Receive_fails = Datagrams"
| "actor Wake = Datagrams"

fun rank :: "pc \<Rightarrow> nat" where
  "rank Idle = 10"
| "rank (Trying h) = 9"
| "rank (Waiting g) = 8"
| "rank (Checking g) = 7"
| "rank (Connecting g) = 6"
| "rank (Swapping g n) = 5"
| "rank (Publishing g n) = 4"
| "rank (Bumping g) = 3"
| "rank Rereading = 2"
| "rank (Retrying h) = 1"
| "rank _ = 0"

lemma cl_pc_move [simp]: "cl_pc (move t p s) u = (if u = t then p else cl_pc s u)"
  by (simp add: move_def)

lemma cl_pc_reconnect [simp]:
  "cl_pc (reconnect_ok t g s) u =
     (if u = t then (if t = Datagrams then Loop_top else Rereading) else cl_pc s u)"
  "cl_pc (reconnect_err t s) u =
     (if u = t then (if t = Datagrams then Loop_top else Finished False) else cl_pc s u)"
  by (cases t; simp)+

text \<open>An action changes the point of its own task only, and an opener's point only downwards.\<close>

lemma client_act_other: "client_act a s = Some s' \<Longrightarrow> t \<noteq> actor a \<Longrightarrow> cl_pc s' t = cl_pc s t"
  by (cases a) (auto split: pc.splits if_splits)

lemma client_act_rank:
  "client_act a s = Some s' \<Longrightarrow> actor a = Opener i \<Longrightarrow> rank (cl_pc s' (Opener i)) < rank (cl_pc s (Opener i))"
  by (cases a) (auto split: pc.splits if_splits)

lemma client_run_rank:
  "client_run as s = Some s' \<Longrightarrow>
     length (filter (\<lambda>a. actor a = Opener i) as) + rank (cl_pc s' (Opener i)) \<le> rank (cl_pc s (Opener i))"
proof (induction as arbitrary: s)
  case (Cons a as)
  from Cons.prems obtain s1 where 1: "client_act a s = Some s1" and run: "client_run as s1 = Some s'"
    by (auto split: option.splits)
  from Cons.IH [OF run] client_act_rank [OF 1, of i] client_act_other [OF 1, of "Opener i"]
  show ?case by (cases "actor a = Opener i") simp_all
qed simp

text \<open>
  An opener that has started and not returned can act, or waits for the lock of one that can, or for
  one that waits for the tunnel's mutex.
\<close>

definition opener_acts :: "client \<Rightarrow> bool" where
  "opener_acts s \<longleftrightarrow> (\<exists>a j. actor a = Opener j \<and> (\<forall>k. a \<noteq> Start k) \<and> client_act a s \<noteq> None)"

definition behind_receiver :: "client \<Rightarrow> bool" where
  "behind_receiver s \<longleftrightarrow>
     (\<exists>j g n. cl_pc s (Opener j) = Swapping g n \<and> cl_pc s Datagrams = Receiving \<and>
        (\<forall>a \<in> {Datagram_arrives, Receive_fails}. \<exists>s'. client_act a s = Some s' \<and> client_act (Swap (Opener j)) s' \<noteq> None))"

definition opener_pcs :: "client \<Rightarrow> bool" where
  "opener_pcs s \<longleftrightarrow> (\<forall>i. cl_pc s (Opener i) \<noteq> Loop_top \<and> cl_pc s (Opener i) \<noteq> Receiving \<and> cl_pc s (Opener i) \<noteq> Sleeping)"

lemma opener_pcs_act: "client_act a s = Some s' \<Longrightarrow> opener_pcs s \<Longrightarrow> opener_pcs s'"
  by (cases a) (auto simp: opener_pcs_def split: pc.splits if_splits)

lemma opener_pcs_run: "client_run as s = Some s' \<Longrightarrow> opener_pcs s \<Longrightarrow> opener_pcs s'"
  by (induction as arbitrary: s) (auto split: option.splits dest: opener_pcs_act)

lemma opener_actsI: "client_act a s \<noteq> None \<Longrightarrow> actor a = Opener j \<Longrightarrow> \<forall>k. a \<noteq> Start k \<Longrightarrow> opener_acts s"
  unfolding opener_acts_def by (intro exI [of _ a] exI [of _ j]) simp

lemma holder_progress:
  assumes "client_inv s" and "holds_lock (cl_pc s (Opener i))"
  shows "opener_acts s \<or> behind_receiver s"
proof (cases "cl_pc s (Opener i)")
  case (Checking g)
  then show ?thesis using opener_actsI [of "Check i" s i] by simp
next
  case (Connecting g)
  then show ?thesis using opener_actsI [of "Connect_failed (Opener i)" s i] by simp
next
  case (Swapping g n)
  show ?thesis
  proof (cases "cl_tunnel_lock s")
    case None
    with Swapping show ?thesis using opener_actsI [of "Swap (Opener i)" s i] by simp
  next
    case (Some t)
    with assms(1) have "cl_pc s Datagrams = Receiving" by (simp add: client_inv_def split: if_splits)
    with Swapping have "behind_receiver s"
      unfolding behind_receiver_def by (intro exI [of _ i] exI [of _ g] exI [of _ n]) simp
    then show ?thesis by blast
  qed
next
  case (Publishing g n)
  then show ?thesis using opener_actsI [of "Publish (Opener i)" s i] by simp
next
  case (Bumping g)
  then show ?thesis using opener_actsI [of "Bump (Opener i)" s i] by simp
qed (use assms(2) in auto)

lemma opener_progress:
  assumes inv: "client_inv s" and pcs: "opener_pcs s"
  shows "cl_pc s (Opener i) = Idle \<or> (\<exists>ok. cl_pc s (Opener i) = Finished ok) \<or> opener_acts s \<or> behind_receiver s"
proof (cases "holds_lock (cl_pc s (Opener i))")
  case True
  with holder_progress [OF inv] show ?thesis by blast
next
  case False
  show ?thesis
  proof (cases "cl_pc s (Opener i)")
    case (Trying h)
    then show ?thesis using opener_actsI [of "Opened i" s i] by simp
  next
    case (Waiting g)
    show ?thesis
    proof (cases "cl_reconnect_lock s")
      case None
      with Waiting show ?thesis using opener_actsI [of "Take_lock i" s i] by simp
    next
      case (Some j)
      with inv have "holds_lock (cl_pc s (Opener j))" by (simp add: client_inv_def)
      with holder_progress [OF inv] show ?thesis by blast
    qed
  next
    case Rereading
    then show ?thesis using opener_actsI [of "Reread i" s i] by simp
  next
    case (Retrying h)
    then show ?thesis using opener_actsI [of "Retried i True" s i] by simp
  qed (use False pcs in \<open>auto simp: opener_pcs_def\<close>)
qed

text \<open>
  So all openers that have started can return: there is a way on in which none starts, and the datagram
  task does nothing but hand over what arrives.
\<close>

definition returned :: "pc \<Rightarrow> bool" where
  "returned p \<longleftrightarrow> p = Idle \<or> (\<exists>ok. p = Finished ok)"

definition going_on :: "action \<Rightarrow> bool" where
  "going_on a \<longleftrightarrow> (case a of Start i \<Rightarrow> False | _ \<Rightarrow> actor a \<noteq> Datagrams \<or> a = Datagram_arrives)"

definition points_left :: "nat set \<Rightarrow> client \<Rightarrow> nat" where
  "points_left S s = (\<Sum>i \<in> S. rank (cl_pc s (Opener i))) + (if cl_pc s Datagrams = Receiving then 1 else 0)"

lemma idle_act: "client_act a s = Some s' \<Longrightarrow> \<forall>k. a \<noteq> Start k \<Longrightarrow> actor a = Opener j \<Longrightarrow> cl_pc s (Opener j) \<noteq> Idle"
  by (cases a) (auto split: pc.splits if_splits)

lemma idle_run:
  "client_run as s = Some s' \<Longrightarrow> Start k \<notin> set as \<Longrightarrow> cl_pc s (Opener k) = Idle \<Longrightarrow> cl_pc s' (Opener k) = Idle"
proof (induction as arbitrary: s)
  case (Cons a as)
  from Cons.prems(1) obtain s1 where 1: "client_act a s = Some s1" and run: "client_run as s1 = Some s'"
    by (auto split: option.splits)
  have "actor a \<noteq> Opener k"
  proof
    assume "actor a = Opener k"
    moreover from this have "\<forall>j. a \<noteq> Start j" using Cons.prems(2) by auto
    ultimately show False using idle_act [OF 1] Cons.prems(3) by blast
  qed
  with client_act_other [OF 1, of "Opener k"] Cons.prems have "cl_pc s1 (Opener k) = Idle" by simp
  from Cons.IH [OF run _ this] Cons.prems(2) show ?case by simp
qed simp

lemma opener_act_points:
  assumes act: "client_act a s = Some s'" and a: "actor a = Opener j" "\<forall>k. a \<noteq> Start k"
    and S: "finite S" "\<forall>i. i \<notin> S \<longrightarrow> cl_pc s (Opener i) = Idle"
  shows "points_left S s' < points_left S s \<and> (\<forall>i. i \<notin> S \<longrightarrow> cl_pc s' (Opener i) = Idle)"
proof -
  have j: "j \<in> S" using idle_act [OF act a(2,1)] S(2) by blast
  have other: "cl_pc s' t = cl_pc s t" if "t \<noteq> Opener j" for t using client_act_other [OF act] that a(1) by simp
  have "(\<Sum>i \<in> S. rank (cl_pc s' (Opener i))) < (\<Sum>i \<in> S. rank (cl_pc s (Opener i)))"
  proof (rule sum_strict_mono_ex1 [OF S(1)])
    show "\<forall>i \<in> S. rank (cl_pc s' (Opener i)) \<le> rank (cl_pc s (Opener i))"
      using other client_act_rank [OF act a(1)] by (metis less_imp_le order_refl task.inject)
    show "\<exists>i \<in> S. rank (cl_pc s' (Opener i)) < rank (cl_pc s (Opener i))"
      using j client_act_rank [OF act a(1)] by blast
  qed
  moreover have "\<forall>i. i \<notin> S \<longrightarrow> cl_pc s' (Opener i) = Idle" using other S(2) j by (metis task.inject)
  ultimately show ?thesis using other [of Datagrams] by (simp add: points_left_def)
qed

lemma openers_can_return:
  assumes S: "finite S"
  shows "client_inv s \<Longrightarrow> opener_pcs s \<Longrightarrow> \<forall>i. i \<notin> S \<longrightarrow> cl_pc s (Opener i) = Idle \<Longrightarrow>
    \<exists>as s'. list_all going_on as \<and> client_run as s = Some s' \<and> (\<forall>i. returned (cl_pc s' (Opener i)))"
proof (induction "points_left S s" arbitrary: s rule: less_induct)
  case less
  show ?case
  proof (cases "\<forall>i. returned (cl_pc s (Opener i))")
    case True
    then show ?thesis by (intro exI [of _ "[]"]) simp
  next
    case False
    then obtain i where "\<not> returned (cl_pc s (Opener i))" by blast
    with opener_progress [OF less.prems(1,2), of i] have "opener_acts s \<or> behind_receiver s" by (auto simp: returned_def)
    then obtain a s1 where 1: "client_act a s = Some s1" "going_on a" "points_left S s1 < points_left S s"
      "\<forall>i. i \<notin> S \<longrightarrow> cl_pc s1 (Opener i) = Idle"
    proof
      assume "opener_acts s"
      then obtain a j s1 where a: "actor a = Opener j" "\<forall>k. a \<noteq> Start k" "client_act a s = Some s1"
        unfolding opener_acts_def by blast
      from a(1,2) have "going_on a" by (auto simp: going_on_def split: action.splits)
      with opener_act_points [OF a(3,1,2) S less.prems(3)] a(3) show thesis by (intro that) auto
    next
      assume "behind_receiver s"
      then have "cl_pc s Datagrams = Receiving" by (auto simp: behind_receiver_def)
      with less.prems(3) show thesis
        by (intro that [of Datagram_arrives "(move Datagrams Loop_top s)\<lparr>cl_tunnel_lock := None\<rparr>"])
          (simp_all add: going_on_def points_left_def)
    qed
    from less.hyps [OF 1(3) client_act_inv [OF less.prems(1) 1(1)] opener_pcs_act [OF 1(1) less.prems(2)] 1(4)]
    obtain as s' where "list_all going_on as" "client_run as s1 = Some s'" "\<forall>i. returned (cl_pc s' (Opener i))" by blast
    with 1(1,2) show ?thesis by (intro exI [of _ "a # as"] exI [of _ s']) simp
  qed
qed

subsection \<open>Waiting behind the datagram task\<close>

definition blocked :: "nat \<Rightarrow> client \<Rightarrow> bool" where
  "blocked i s \<longleftrightarrow> client_inv s \<and> cl_pc s Datagrams = Receiving \<and> (\<exists>g n. cl_pc s (Opener i) = Swapping g n)"

lemma blocked_locks:
  assumes "blocked i s"
  shows "cl_tunnel_lock s = Some Datagrams" "cl_reconnect_lock s = Some i"
  using assms by (auto simp: blocked_def client_inv_def dest: spec [of _ i])

lemma blocked_act:
  assumes b: "blocked i s" and act: "client_act a s = Some s'"
    and quiet: "a \<noteq> Datagram_arrives" "a \<noteq> Receive_fails"
  shows "blocked i s' \<and> cl_pc s' (Opener i) = cl_pc s (Opener i) \<and>
    (\<forall>j g. cl_pc s (Opener j) = Waiting g \<longrightarrow> cl_pc s' (Opener j) = Waiting g)"
proof -
  from b obtain g n where pcs: "cl_pc s Datagrams = Receiving" "cl_pc s (Opener i) = Swapping g n"
    by (auto simp: blocked_def)
  note locks = blocked_locks [OF b]
  have "actor a \<noteq> Datagrams"
    using act pcs quiet locks by (cases a) (auto split: pc.splits if_splits)
  moreover have "actor a \<noteq> Opener i"
    using act pcs locks by (cases a) (auto split: pc.splits if_splits)
  moreover have "cl_pc s' (Opener j) = Waiting g" if "cl_pc s (Opener j) = Waiting g" for j g
  proof (cases "actor a = Opener j")
    case True
    with act that locks show ?thesis by (cases a) (auto split: pc.splits if_splits)
  next
    case False
    with client_act_other [OF act, of "Opener j"] that show ?thesis by simp
  qed
  moreover have "client_inv s'" using b act by (auto simp: blocked_def intro: client_act_inv)
  ultimately show ?thesis
    using client_act_other [OF act, of Datagrams] client_act_other [OF act, of "Opener i"] pcs
    by (auto simp: blocked_def)
qed

lemma blocked_run:
  "blocked i s \<Longrightarrow> client_run as s = Some s' \<Longrightarrow> Datagram_arrives \<notin> set as \<Longrightarrow> Receive_fails \<notin> set as \<Longrightarrow>
     cl_pc s' (Opener i) = cl_pc s (Opener i) \<and>
     (\<forall>j g. cl_pc s (Opener j) = Waiting g \<longrightarrow> cl_pc s' (Opener j) = Waiting g)"
proof (induction as arbitrary: s)
  case (Cons a as)
  from Cons.prems(2) obtain s1 where 1: "client_act a s = Some s1" and run: "client_run as s1 = Some s'"
    by (auto split: option.splits)
  from blocked_act [OF Cons.prems(1) 1] Cons.prems(3,4)
  have *: "blocked i s1" "cl_pc s1 (Opener i) = cl_pc s (Opener i)"
    "\<forall>j g. cl_pc s (Opener j) = Waiting g \<longrightarrow> cl_pc s1 (Opener j) = Waiting g" by auto
  from Cons.IH [OF *(1) run] Cons.prems(3,4) *(2,3) show ?case by auto
qed simp

subsection \<open>Properties\<close>

text \<open>
  (C9) Reconnections are deduplicated: at any time at most one stream opener is between the check of
  the generation and the end of its reconnection, and of all openers that saw the tunnel fail in the
  same generation at most one ever replaces it.
\<close>

theorem reconnects_deduplicated:
  assumes "client_reachable s"
  shows "distinct (cl_made s) \<and>
    (holds_lock (cl_pc s (Opener i)) \<and> holds_lock (cl_pc s (Opener j)) \<longrightarrow> i = j)"
  using client_reachable_inv [OF assms] by (auto simp: client_inv_def)

theorem reconnects_deduplicated_witness:
  "\<exists>s. client_run [Start 0, Start 1, Refused 0 StreamClosed, Refused 1 StreamClosed, Take_lock 0, Check 0,
      Connected (Opener 0), Swap (Opener 0), Publish (Opener 0), Bump (Opener 0), Take_lock 1, Check 1]
      client_init = Some s \<and> cl_made s = [0] \<and> cl_pc s (Opener 1) = Rereading \<and> distinct (cl_made s)"
proof -
  obtain s where s: "client_run [Start 0, Start 1, Refused 0 StreamClosed, Refused 1 StreamClosed, Take_lock 0,
      Check 0, Connected (Opener 0), Swap (Opener 0), Publish (Opener 0), Bump (Opener 0), Take_lock 1, Check 1]
      client_init = Some s" "cl_made s = [0]" "cl_pc s (Opener 1) = Rereading"
    by (simp add: client_init_def is_transport_error_def move_def)
  from reconnects_deduplicated [OF client_run_reachable [OF client_start s(1)]] s show ?thesis by blast
qed

text \<open>
  (C10) \<open>open_stream_resilient\<close> comes to an end. In every run, whatever the network and the other tasks
  do, an opener goes through at most ten points, so it does at most one reconnection and one retry.
  As long as an opener that has started has not returned, some opener can go on, the locks do not keep
  them all from it; the only exception is the defect \<open>reconnect_hangs_behind_receiver\<close>: the datagram task
  waits in \<open>recv_datagram\<close> with the tunnel's mutex, and the opener that has connected goes on as soon as
  a datagram arrives or the old tunnel breaks. And from every reachable state all openers that have
  started can return, without new ones and with nothing from the datagram task but that a datagram
  arrives. Attempts to open a stream and to connect are taken to return.
\<close>

theorem opener_terminates:
  assumes "client_run as client_init = Some s"
  shows "length (filter (\<lambda>a. actor a = Opener i) as) \<le> 10 \<and>
    (returned (cl_pc s (Opener i)) \<or> opener_acts s \<or> behind_receiver s) \<and>
    (\<exists>as' s'. list_all going_on as' \<and> client_run as' s = Some s' \<and> (\<forall>j. returned (cl_pc s' (Opener j))))"
proof -
  let ?S = "{j. Start j \<in> set as}"
  have init: "rank (cl_pc client_init (Opener i)) = 10" "opener_pcs client_init"
    by (simp_all add: client_init_def opener_pcs_def)
  note inv = client_run_inv [OF client_inv_init assms] and pcs = opener_pcs_run [OF assms init(2)]
  have "finite (Start -` set as)" by (rule finite_vimageI) (simp_all add: inj_def)
  then have "finite ?S" by (simp add: vimage_def)
  moreover have "cl_pc s (Opener j) = Idle" if "j \<notin> ?S" for j
    using idle_run [OF assms, of j] that by (simp add: client_init_def)
  ultimately have "\<exists>as' s'. list_all going_on as' \<and> client_run as' s = Some s' \<and> (\<forall>j. returned (cl_pc s' (Opener j)))"
    using openers_can_return [of ?S s] inv pcs by blast
  with client_run_rank [OF assms, of i] init(1) opener_progress [OF inv pcs, of i] show ?thesis
    by (simp add: returned_def)
qed

theorem opener_terminates_witness:
  "\<exists>s. client_run [Start 0, Lock_tunnel, Start 1, Refused 0 StreamClosed, Take_lock 0, Refused 1 StreamClosed] client_init
      = Some s \<and> cl_pc s (Opener 1) = Waiting 0 \<and> cl_reconnect_lock s = Some 0 \<and> (opener_acts s \<or> behind_receiver s)"
proof -
  let ?as = "[Start 0, Lock_tunnel, Start 1, Refused 0 StreamClosed, Take_lock 0, Refused 1 StreamClosed]"
  obtain s where s: "client_run ?as client_init = Some s" "cl_pc s (Opener 1) = Waiting 0" "cl_reconnect_lock s = Some 0"
    by (simp add: client_init_def is_transport_error_def move_def)
  from opener_terminates [OF s(1), of 1] s show ?thesis by (auto simp: returned_def)
qed

text \<open>
  (C38) A reconnection can hang behind the datagram task: while that task waits for a datagram of a
  tunnel that still works, it holds the mutex the new tunnel has to be stored under. Until a datagram
  arrives or the old tunnel breaks, an opener that has already connected stays where it is, and every
  opener waiting for the reconnection lock stays there too.
\<close>

theorem reconnect_hangs_behind_receiver:
  assumes "client_reachable s" and "cl_pc s Datagrams = Receiving"
    and "cl_pc s (Opener i) = Swapping g n"
    and "client_run as s = Some s'" and "Datagram_arrives \<notin> set as" and "Receive_fails \<notin> set as"
  shows "cl_pc s' (Opener i) = Swapping g n \<and>
    (\<forall>j g'. cl_pc s (Opener j) = Waiting g' \<longrightarrow> cl_pc s' (Opener j) = Waiting g')"
  using blocked_run [OF _ assms(4,5,6), of i] client_reachable_inv [OF assms(1)] assms(2,3)
  by (simp add: blocked_def)

theorem reconnect_hangs_behind_receiver_witness:
  "\<exists>s s'. client_run [Lock_tunnel, Start 0, Start 1, Refused 0 (Io []), Refused 1 (Io []), Take_lock 0, Check 0,
      Connected (Opener 0)] client_init = Some s \<and>
    client_run [Start 2, Opened 2] s = Some s' \<and>
    cl_pc s' (Opener 0) = Swapping 0 1 \<and> cl_pc s' (Opener 1) = Waiting 0"
proof -
  let ?as = "[Lock_tunnel, Start 0, Start 1, Refused 0 (Io []), Refused 1 (Io []), Take_lock 0, Check 0,
      Connected (Opener 0)]"
  obtain s s' where s: "client_run ?as client_init = Some s" "cl_pc s Datagrams = Receiving"
      "cl_pc s (Opener 0) = Swapping 0 1" "cl_pc s (Opener 1) = Waiting 0"
    and s': "client_run [Start 2, Opened 2] s = Some s'"
    by (simp add: client_init_def is_transport_error_def move_def)
  from reconnect_hangs_behind_receiver [OF client_run_reachable [OF client_start s(1)] s(2,3) s'] s s'
  show ?thesis by auto
qed

text \<open>
  The datagram task reconnects without looking at the generation: after one failure of the first
  tunnel both an opener and the datagram task make a new one, and the second replaces the first,
  which had not failed.
\<close>

theorem one_failure_two_tunnels:
  "\<exists>s. client_run
      [Lock_tunnel, Start 0, Refused 0 StreamClosed, Receive_fails,
       Take_lock 0, Check 0, Connected (Opener 0), Swap (Opener 0), Publish (Opener 0), Bump (Opener 0),
       Wake, Connected Datagrams, Swap Datagrams, Publish Datagrams, Bump Datagrams] client_init = Some s \<and>
    cl_gen s = 2 \<and> cl_tunnel s = 2 \<and> cl_handle s = 2 \<and> cl_made s = [0]"
  by (simp add: client_init_def is_transport_error_def move_def)

end
