(* ===== verification/Nonce_Cache.thy ===== *)
theory Nonce_Cache
  imports Hydr_Prelude Guards "HOL-Library.FSet"
begin

section \<open>The cache of used nonces\<close>

text \<open>
  \<open>NonceCache\<close> of \<open>src/crates/hydr-server/src/lib.rs\<close>: a FIFO of bounded length whose
  entries also expire. An \<open>Instant\<close> is its distance in nanoseconds from a fixed origin,
  \<open>duration_since\<close> the truncated difference, and the clock reading is an argument.
\<close>

definition seconds :: "nat \<Rightarrow> nat" where
  "seconds n = n * 10 ^ 9"

definition REPLAY_CACHE_MAX :: nat where [code_consts]: "REPLAY_CACHE_MAX = 8192"
definition REPLAY_TTL :: nat where [code_consts]: "REPLAY_TTL = seconds 600"

record nonce_cache =
  nc_set :: "bytes fset"
  nc_order :: "(bytes \<times> nat) list"
  nc_cap :: nat

definition nonce_cache_new :: "nat \<Rightarrow> nonce_cache" where
  "nonce_cache_new cap = \<lparr>nc_set = {||}, nc_order = [], nc_cap = cap\<rparr>"

text \<open>The two loops, each popping the front of the queue.\<close>

fun evict_loop :: "nat \<Rightarrow> (bytes \<times> nat) list \<Rightarrow> bytes fset \<Rightarrow> (bytes \<times> nat) list \<times> bytes fset" where
  "evict_loop now [] s = ([], s)"
| "evict_loop now ((old, t) # order) s =
     (if now - t < REPLAY_TTL then ((old, t) # order, s)
      else evict_loop now order (s |-| {|old|}))"

definition evict_expired :: "nat \<Rightarrow> nonce_cache \<Rightarrow> nonce_cache" where
  "evict_expired now self =
     (let (order, s) = evict_loop now (nc_order self) (nc_set self)
      in self\<lparr>nc_order := order, nc_set := s\<rparr>)"

fun overflow_loop :: "nat \<Rightarrow> (bytes \<times> nat) list \<Rightarrow> bytes fset \<Rightarrow> (bytes \<times> nat) list \<times> bytes fset" where
  "overflow_loop cap [] s = ([], s)"
| "overflow_loop cap ((old, t) # order) s =
     (if length ((old, t) # order) > cap then overflow_loop cap order (s |-| {|old|})
      else ((old, t) # order, s))"

definition nonce_insert :: "nat \<Rightarrow> nonce_cache \<Rightarrow> bytes \<Rightarrow> bool \<times> nonce_cache" where
  "nonce_insert now self nonce =
     (let self = evict_expired now self
      in if nonce |\<in>| nc_set self then (False, self)
         else
           let self = self\<lparr>nc_set := finsert nonce (nc_set self)\<rparr>;
               self = self\<lparr>nc_order := nc_order self @ [(nonce, now)]\<rparr>;
               (order, s) = overflow_loop (nc_cap self) (nc_order self) (nc_set self)
           in (True, self\<lparr>nc_order := order, nc_set := s\<rparr>))"

subsection \<open>The loops\<close>

definition queue_ok :: "(bytes \<times> nat) list \<Rightarrow> bytes fset \<Rightarrow> bool" where
  "queue_ok order s \<longleftrightarrow> distinct (map fst order) \<and> fset s = fst ` set order"

lemma queue_ok_pop: "queue_ok (x # order) s \<Longrightarrow> queue_ok order (s |-| {|fst x|})"
  by (auto simp: queue_ok_def)

lemma evict_loop_order:
  "fst (evict_loop now order s) = dropWhile (\<lambda>e. \<not> now - snd e < REPLAY_TTL) order"
  by (induction now order s rule: evict_loop.induct) auto

lemma evict_loop_ok:
  "queue_ok order s \<Longrightarrow> queue_ok (fst (evict_loop now order s)) (snd (evict_loop now order s))"
  by (induction now order s rule: evict_loop.induct) (auto dest: queue_ok_pop)

lemma overflow_loop_order:
  "fst (overflow_loop cap order s) = drop (length order - cap) order"
  by (induction cap order s rule: overflow_loop.induct) (auto simp: Suc_diff_le)

lemma overflow_loop_ok:
  "queue_ok order s \<Longrightarrow> queue_ok (fst (overflow_loop cap order s)) (snd (overflow_loop cap order s))"
  by (induction cap order s rule: overflow_loop.induct) (auto dest: queue_ok_pop)

subsection \<open>Refinement: the history of accepted nonces\<close>

text \<open>
  The specification keeps every accepted nonce with its time, the latest first, and refuses a
  nonce that is among the \<open>cap\<close> latest ones accepted less than \<open>REPLAY_TTL\<close> ago.
\<close>

definition fresh_at :: "nat \<Rightarrow> bytes \<times> nat \<Rightarrow> bool" where
  "fresh_at now e \<longleftrightarrow> now - snd e < REPLAY_TTL"

definition remembered :: "nat \<Rightarrow> nat \<Rightarrow> (bytes \<times> nat) list \<Rightarrow> (bytes \<times> nat) list" where
  "remembered cap now h = take cap (takeWhile (fresh_at now) h)"

definition history_insert ::
  "nat \<Rightarrow> (bytes \<times> nat) list \<Rightarrow> nat \<times> bytes \<Rightarrow> bool \<times> (bytes \<times> nat) list" where
  "history_insert cap h call =
     (case call of (now, nonce) \<Rightarrow>
       if nonce \<in> fst ` set (remembered cap now h) then (False, h) else (True, (nonce, now) # h))"

definition latest_first :: "(bytes \<times> nat) list \<Rightarrow> bool" where
  "latest_first h \<longleftrightarrow> sorted_wrt (\<lambda>x y. snd y \<le> snd x) h"

definition cache_tracks :: "nat \<Rightarrow> nonce_cache \<Rightarrow> (bytes \<times> nat) list \<Rightarrow> bool" where
  "cache_tracks prev c h \<longleftrightarrow>
     queue_ok (nc_order c) (nc_set c) \<and> latest_first h \<and> (\<forall>e \<in> set h. snd e \<le> prev) \<and>
     nc_order c = rev (remembered (nc_cap c) prev h)"

lemma dropWhile_rev:
  "sorted_wrt (\<lambda>x y. Q y \<longrightarrow> Q x) xs \<Longrightarrow> dropWhile (\<lambda>x. \<not> Q x) (rev xs) = rev (takeWhile Q xs)"
proof (induction xs)
  case (Cons x xs)
  show ?case
  proof (cases "Q x")
    case True
    note Q = this
    show ?thesis
    proof (cases "\<forall>y \<in> set xs. \<not> Q y")
      case True
      then have "takeWhile Q xs = []" by (cases xs) auto
      with True Q show ?thesis by (simp add: dropWhile_append)
    next
      case False
      with Cons Q show ?thesis by (auto simp: dropWhile_append)
    qed
  next
    case False
    with Cons.prems have "\<forall>y \<in> set xs. \<not> Q y" by auto
    then show ?thesis using False by (simp add: dropWhile_append)
  qed
qed simp

lemma fresh_earlier: "prev \<le> now \<Longrightarrow> fresh_at now e \<Longrightarrow> fresh_at prev e"
  by (simp add: fresh_at_def)

lemma takeWhile_takeWhile:
  "(\<And>x. P x \<Longrightarrow> Q x) \<Longrightarrow> takeWhile P (takeWhile Q xs) = takeWhile P xs"
  by (induction xs) auto

lemma takeWhile_take: "takeWhile P (take n xs) = take n (takeWhile P xs)"
  by (induction xs arbitrary: n) (auto simp: take_Cons')

lemma remembered_later:
  "prev \<le> now \<Longrightarrow> takeWhile (fresh_at now) (remembered cap prev h) = remembered cap now h"
  unfolding remembered_def
  by (simp add: takeWhile_take takeWhile_takeWhile [OF fresh_earlier])

lemma latest_first_fresh: "latest_first h \<Longrightarrow> sorted_wrt (\<lambda>x y. fresh_at now y \<longrightarrow> fresh_at now x) h"
  unfolding latest_first_def fresh_at_def
  by (erule sorted_wrt_mono_rel [rotated]) auto

lemma latest_first_remembered: "latest_first h \<Longrightarrow> latest_first (remembered cap now h)"
  by (simp add: latest_first_def remembered_def sorted_wrt_take sorted_wrt_takeWhile)

lemma tracks_evict:
  assumes t: "cache_tracks prev c h" and now: "prev \<le> now"
  shows "nc_order (evict_expired now c) = rev (remembered (nc_cap c) now h)"
    and "queue_ok (nc_order (evict_expired now c)) (nc_set (evict_expired now c))"
    and "nc_cap (evict_expired now c) = nc_cap c"
proof -
  from t have ord: "nc_order c = rev (remembered (nc_cap c) prev h)" and lf: "latest_first h"
    and ok: "queue_ok (nc_order c) (nc_set c)" unfolding cache_tracks_def by blast+
  have "dropWhile (\<lambda>e. \<not> fresh_at now e) (nc_order c)
      = rev (takeWhile (fresh_at now) (remembered (nc_cap c) prev h))"
    unfolding ord
    by (intro dropWhile_rev latest_first_fresh latest_first_remembered lf)
  then show "nc_order (evict_expired now c) = rev (remembered (nc_cap c) now h)"
    by (simp add: evict_expired_def split_beta evict_loop_order remembered_later [OF now]
        flip: fresh_at_def)
  show "queue_ok (nc_order (evict_expired now c)) (nc_set (evict_expired now c))"
    using evict_loop_ok [OF ok] by (simp add: evict_expired_def split_beta)
  show "nc_cap (evict_expired now c) = nc_cap c" by (simp add: evict_expired_def split_beta)
qed

lemma remembered_push:
  "remembered cap now ((nonce, now) # h)
     = rev (drop (Suc (length (remembered cap now h)) - cap) (rev (remembered cap now h) @ [(nonce, now)]))"
proof -
  have "fresh_at now (nonce, now)" by (simp add: fresh_at_def code_consts seconds_def)
  then have "remembered cap now ((nonce, now) # h) = take cap ((nonce, now) # remembered cap now h)"
    by (cases cap) (simp_all add: remembered_def)
  then show ?thesis
    by (cases "cap \<le> Suc (length (remembered cap now h))") (auto simp: rev_drop take_Cons')
qed

lemma nonce_insert_refines:
  assumes t: "cache_tracks prev c h" and now: "prev \<le> now"
  shows "fst (nonce_insert now c nonce) = fst (history_insert (nc_cap c) h (now, nonce)) \<and>
     cache_tracks now (snd (nonce_insert now c nonce)) (snd (history_insert (nc_cap c) h (now, nonce))) \<and>
     nc_cap (snd (nonce_insert now c nonce)) = nc_cap c"
proof -
  let ?c = "evict_expired now c" and ?cap = "nc_cap c"
  note e = tracks_evict [OF t now]
  have mem: "nonce |\<in>| nc_set ?c \<longleftrightarrow> nonce \<in> fst ` set (remembered ?cap now h)"
    using e(1,2) by (simp add: queue_ok_def)
  from t now have le: "\<forall>x \<in> set h. snd x \<le> now" by (auto simp: cache_tracks_def)
  show ?thesis
  proof (cases "nonce |\<in>| nc_set ?c")
    case True
    with mem e t le show ?thesis
      by (simp add: nonce_insert_def history_insert_def cache_tracks_def)
  next
    case False
    have ok: "queue_ok (nc_order ?c @ [(nonce, now)]) (finsert nonce (nc_set ?c))"
      using e(2) False by (auto simp: queue_ok_def)
    have "latest_first ((nonce, now) # h)"
      using t le by (simp add: cache_tracks_def latest_first_def)
    moreover have "drop (length (nc_order ?c @ [(nonce, now)]) - ?cap) (nc_order ?c @ [(nonce, now)])
        = rev (remembered ?cap now ((nonce, now) # h))"
      by (simp add: remembered_push e(1))
    ultimately show ?thesis
      using False mem le overflow_loop_ok [OF ok, of ?cap] e(3)
      by (simp add: nonce_insert_def history_insert_def cache_tracks_def Let_def split_beta
          overflow_loop_order)
  qed
qed

lemma cache_tracks_bounded:
  assumes "cache_tracks prev c h"
  shows "length (nc_order c) \<le> nc_cap c" "fset (nc_set c) = fst ` set (nc_order c)"
    "distinct (map fst (nc_order c))"
proof -
  from assms have ok: "queue_ok (nc_order c) (nc_set c)"
    and ord: "nc_order c = rev (remembered (nc_cap c) prev h)"
    unfolding cache_tracks_def by blast+
  show "length (nc_order c) \<le> nc_cap c" by (subst ord) (simp add: remembered_def)
  show "fset (nc_set c) = fst ` set (nc_order c)" "distinct (map fst (nc_order c))"
    using ok unfolding queue_ok_def by blast+
qed

lemma tracks_cache_new: "cache_tracks 0 (nonce_cache_new cap) []"
  by (simp add: cache_tracks_def nonce_cache_new_def queue_ok_def latest_first_def remembered_def)

text \<open>The cache as a guard over calls of a time and a nonce.\<close>

definition cache_step :: "nonce_cache \<Rightarrow> nat \<times> bytes \<Rightarrow> bool \<times> nonce_cache" where
  "cache_step c call = nonce_insert (fst call) c (snd call)"

interpretation nonce_history: guard_refinement cache_step "timed (history_insert cap)"
    "\<lambda>c t. cache_tracks (fst t) c (snd t) \<and> nc_cap c = cap" forward
proof unfold_locales
  fix c :: nonce_cache and t :: "nat \<times> (bytes \<times> nat) list" and call :: "nat \<times> bytes"
  assume "cache_tracks (fst t) c (snd t) \<and> nc_cap c = cap" "forward t call"
  with nonce_insert_refines [of "fst t" c "snd t" "fst call" "snd call"]
  show "fst (cache_step c call) = fst (timed (history_insert cap) t call) \<and>
    cache_tracks (fst (snd (timed (history_insert cap) t call))) (snd (cache_step c call))
      (snd (snd (timed (history_insert cap) t call))) \<and>
    nc_cap (snd (cache_step c call)) = cap"
    by (simp add: timed_simps cache_step_def forward_def)
qed

text \<open>How long the history remembers a nonce.\<close>

lemma history_remembers:
  assumes "\<forall>z \<in> set zs. t1 \<le> snd z" "t2 - t1 < REPLAY_TTL" "length zs < cap"
  shows "n \<in> fst ` set (remembered cap t2 (zs @ (n, t1) # h))"
proof -
  have "\<forall>z \<in> set zs. fresh_at t2 z" "fresh_at t2 (n, t1)"
    using assms by (auto simp: fresh_at_def)
  then have "takeWhile (fresh_at t2) (zs @ (n, t1) # h) = zs @ (n, t1) # takeWhile (fresh_at t2) h"
    by (simp add: takeWhile_append)
  then show ?thesis using assms(3) by (cases "cap - length zs") (auto simp: remembered_def)
qed

lemma history_forgets:
  "REPLAY_TTL \<le> t2 - t1 \<Longrightarrow> remembered cap t2 ((n, t1) # h) = []"
  by (simp add: remembered_def fresh_at_def)

subsection \<open>Properties\<close>

text \<open>
  With a clock that does not run backwards, the bounded cache accepts and refuses exactly
  as the full history of accepted nonces does: a nonce is refused if and only if it is among the
  \<open>cap\<close> latest ones accepted during the last ten minutes. Expiry and overflow evict nothing else.
\<close>

theorem nonce_cache_refines_history:
  assumes "sorted (map fst calls)"
  shows "fst (run_guard cache_step (nonce_cache_new cap) calls)
     = fst (run_guard (history_insert cap) [] calls)"
proof -
  have "nc_cap (nonce_cache_new cap) = cap" by (simp add: nonce_cache_new_def)
  then show ?thesis
    using nonce_history.same_decisions [where s = "nonce_cache_new cap" and t = "(0, [])" and cap = cap and ks = calls] assms
    by (simp add: tracks_cache_new calls_ok_forward run_timed)
qed

theorem nonce_cache_refines_history_witness:
  "fst (run_guard cache_step (nonce_cache_new 2) [(1, [1]), (2, [1]), (3, [2]), (4, [3]), (5, [1])])
     = [True, False, True, True, True]"
  by (subst nonce_cache_refines_history) (auto simp: history_insert_def remembered_def
      fresh_at_def code_consts seconds_def)

text \<open>The cache never holds more than \<open>cap\<close> nonces, and its set and queue agree.\<close>

theorem nonce_cache_bounded:
  assumes "sorted (map fst calls)"
  shows "let c = snd (run_guard cache_step (nonce_cache_new cap) calls)
     in length (nc_order c) \<le> cap \<and> fset (nc_set c) = fst ` set (nc_order c) \<and>
        distinct (map fst (nc_order c))"
proof -
  have cap: "nc_cap (nonce_cache_new cap) = cap" by (simp add: nonce_cache_new_def)
  let ?c = "snd (run_guard cache_step (nonce_cache_new cap) calls)"
  let ?t = "snd (run_guard (timed (history_insert cap)) (0, []) calls)"
  have "cache_tracks (fst ?t) ?c (snd ?t) \<and> nc_cap ?c = cap"
    by (rule nonce_history.related_after)
      (simp_all add: tracks_cache_new cap calls_ok_forward assms)
  then show ?thesis
    using cache_tracks_bounded [of "fst ?t" ?c "snd ?t"] unfolding Let_def by metis
qed

theorem nonce_cache_bounded_witness:
  "length (nc_order (snd (run_guard cache_step (nonce_cache_new 2) [(1, [1]), (2, [2]), (3, [3])]))) \<le> 2"
  using nonce_cache_bounded [of "[(1, [1]), (2, [2]), (3, [3])]" 2] by (simp add: Let_def)

end
