(* ===== verification/Rate_Limiter.thy ===== *)
theory Rate_Limiter
  imports Address Nonce_Cache
begin

section \<open>The limit on authentication attempts\<close>

text \<open>
  \<open>Server::rate_allow\<close> of \<open>src/crates/hydr-server/src/lib.rs\<close>: at most 30 connections
  per address and minute reach the handshake. The map behind its lock is the state; every entry
  lists the times of the attempts that were let through.
\<close>

definition AUTH_WINDOW :: nat where [code_consts]: "AUTH_WINDOW = seconds 60"
definition AUTH_MAX_PER_IP :: nat where [code_consts]: "AUTH_MAX_PER_IP = 30"

type_synonym auth_attempts = "ip_addr \<rightharpoonup> nat list"

definition rate_allow :: "nat \<Rightarrow> auth_attempts \<Rightarrow> ip_addr \<Rightarrow> bool \<times> auth_attempts" where
  "rate_allow now m ip =
     (let v = (case m ip of None \<Rightarrow> [] | Some v \<Rightarrow> v);
          v = filter (\<lambda>t. now - t < AUTH_WINDOW) v
      in if length v \<ge> AUTH_MAX_PER_IP then (False, m(ip \<mapsto> v))
         else (True, m(ip \<mapsto> v @ [now])))"

definition rate_step :: "auth_attempts \<Rightarrow> nat \<times> ip_addr \<Rightarrow> bool \<times> auth_attempts" where
  "rate_step m call = rate_allow (fst call) m (snd call)"

subsection \<open>Refinement: the history of attempts let through\<close>

text \<open>
  The specification counts, in the whole history, the attempts of this address during the last
  minute. The code forgets old attempts of an address when it sees that address again.
\<close>

definition recent :: "nat \<Rightarrow> ip_addr \<Rightarrow> (nat \<times> ip_addr) list \<Rightarrow> (nat \<times> ip_addr) list" where
  "recent now ip h = filter (\<lambda>(t, i). i = ip \<and> now - t < AUTH_WINDOW) h"

definition rate_spec ::
  "(nat \<times> ip_addr) list \<Rightarrow> nat \<times> ip_addr \<Rightarrow> bool \<times> (nat \<times> ip_addr) list" where
  "rate_spec h call =
     (if length (recent (fst call) (snd call) h) < AUTH_MAX_PER_IP then (True, call # h) else (False, h))"

definition attempts :: "auth_attempts \<Rightarrow> ip_addr \<Rightarrow> nat list" where
  "attempts m ip = (case m ip of None \<Rightarrow> [] | Some v \<Rightarrow> v)"

definition rate_tracks :: "nat \<Rightarrow> auth_attempts \<Rightarrow> (nat \<times> ip_addr) list \<Rightarrow> bool" where
  "rate_tracks prev m h \<longleftrightarrow>
     (\<forall>ip. \<exists>p \<le> prev. attempts m ip = rev (map fst (recent p ip h)))"

lemma attempts_upd: "attempts (m(ip \<mapsto> v)) i = (if i = ip then v else attempts m i)"
  by (simp add: attempts_def)

lemma filter_attempts:
  assumes "rate_tracks prev m h" "prev \<le> now"
  shows "filter (\<lambda>t. now - t < AUTH_WINDOW) (attempts m ip) = rev (map fst (recent now ip h))"
proof -
  from assms(1) obtain p where p: "p \<le> prev" "attempts m ip = rev (map fst (recent p ip h))"
    unfolding rate_tracks_def by blast
  have "now - t < AUTH_WINDOW \<Longrightarrow> p - t < AUTH_WINDOW" for t using p(1) assms(2) by simp
  then show ?thesis
    unfolding p(2) recent_def rev_filter [symmetric] rev_map [symmetric]
    by (auto simp: filter_map intro!: arg_cong [where f = "map fst"] filter_cong)
qed

lemma rate_tracks_step:
  assumes t: "rate_tracks prev m h" and now: "prev \<le> now"
  shows "fst (rate_step m (now, ip)) = fst (rate_spec h (now, ip)) \<and>
     rate_tracks now (snd (rate_step m (now, ip))) (snd (rate_spec h (now, ip)))"
proof -
  let ?v = "rev (map fst (recent now ip h))"
  have step: "rate_step m (now, ip) =
     (if length (recent now ip h) \<ge> AUTH_MAX_PER_IP then (False, m(ip \<mapsto> ?v))
      else (True, m(ip \<mapsto> ?v @ [now])))"
    using filter_attempts [OF t now, of ip]
    by (simp add: rate_step_def rate_allow_def Let_def flip: attempts_def)
  have fresh: "now - now < AUTH_WINDOW" by (simp add: code_consts seconds_def)
  have other: "\<exists>p \<le> now. attempts m i = rev (map fst (recent p i h))" for i
    using t now unfolding rate_tracks_def by (meson order_trans)
  show ?thesis
  proof (cases "length (recent now ip h) < AUTH_MAX_PER_IP")
    case True
    have "\<exists>p \<le> now. attempts (m(ip \<mapsto> ?v @ [now])) i = rev (map fst (recent p i ((now, ip) # h)))" for i
    proof (cases "i = ip")
      case True
      then show ?thesis using fresh
        by (intro exI [of _ now]) (simp add: attempts_upd recent_def)
    next
      case False
      then show ?thesis using other [of i] by (simp add: attempts_upd recent_def)
    qed
    with True step show ?thesis by (simp add: rate_spec_def rate_tracks_def)
  next
    case False
    have "\<exists>p \<le> now. attempts (m(ip \<mapsto> ?v)) i = rev (map fst (recent p i h))" for i
      using other [of i] by (cases "i = ip") (auto simp: attempts_upd)
    with False step show ?thesis by (simp add: rate_spec_def rate_tracks_def)
  qed
qed

interpretation rate_history: guard_refinement rate_step "timed rate_spec"
    "\<lambda>m s. rate_tracks (fst s) m (snd s)" forward
proof unfold_locales
  fix m :: auth_attempts and s :: "nat \<times> (nat \<times> ip_addr) list" and call :: "nat \<times> ip_addr"
  assume "rate_tracks (fst s) m (snd s)" "forward s call"
  with rate_tracks_step [of "fst s" m "snd s" "fst call" "snd call"]
  show "fst (rate_step m call) = fst (timed rate_spec s call) \<and>
    rate_tracks (fst (snd (timed rate_spec s call))) (snd (rate_step m call))
      (snd (snd (timed rate_spec s call)))"
    by (simp add: timed_simps forward_def)
qed

lemma rate_tracks_empty: "rate_tracks 0 Map.empty []"
  by (simp add: rate_tracks_def attempts_def recent_def)

subsection \<open>The limit\<close>

text \<open>Every attempt was let through with fewer than 30 recent ones of the same address before it.\<close>

fun rate_ok :: "(nat \<times> ip_addr) list \<Rightarrow> bool" where
  "rate_ok [] = True"
| "rate_ok ((now, ip) # h) =
     (length (recent now ip h) < AUTH_MAX_PER_IP \<and> (\<forall>e \<in> set h. fst e \<le> now) \<and> rate_ok h)"

definition in_window :: "ip_addr \<Rightarrow> nat \<Rightarrow> (nat \<times> ip_addr) list \<Rightarrow> (nat \<times> ip_addr) list" where
  "in_window ip a h = filter (\<lambda>(t, i). i = ip \<and> a \<le> t \<and> t < a + AUTH_WINDOW) h"

lemma length_filter_mono: "(\<And>x. x \<in> set xs \<Longrightarrow> P x \<Longrightarrow> Q x) \<Longrightarrow> length (filter P xs) \<le> length (filter Q xs)"
  by (induction xs) (auto simp: le_SucI)

lemma rate_ok_window: "rate_ok h \<Longrightarrow> length (in_window ip a h) \<le> AUTH_MAX_PER_IP"
proof (induction h)
  case (Cons e h)
  obtain now i where e: "e = (now, i)" by (cases e)
  show ?case
  proof (cases "i = ip \<and> a \<le> now \<and> now < a + AUTH_WINDOW")
    case True
    have "length (in_window ip a h) \<le> length (recent now ip h)"
      unfolding in_window_def recent_def
      using Cons.prems True by (intro length_filter_mono) (auto simp: e)
    then show ?thesis using Cons.prems True by (simp add: e in_window_def)
  next
    case False
    with Cons show ?thesis by (auto simp: e in_window_def)
  qed
qed (simp add: in_window_def)

lemma rate_spec_ok:
  "rate_ok h \<Longrightarrow> sorted (map fst calls) \<Longrightarrow> \<forall>e \<in> set h. \<forall>c \<in> set calls. fst e \<le> fst c \<Longrightarrow>
     rate_ok (rev (accepted rate_spec h calls) @ h)"
proof (induction calls arbitrary: h)
  case (Cons c calls)
  show ?case
    using Cons.IH [of "snd (rate_spec h c)"] Cons.prems
    by (cases c) (auto simp: rate_spec_def)
qed simp

subsection \<open>Properties\<close>

text \<open>
  The limiter decides as a full history would: with a clock that does not run backwards an
  attempt is let through exactly if fewer than 30 of the same address were let through during
  the last minute, and other addresses have no influence.
\<close>

theorem rate_allow_refines_history:
  assumes "sorted (map fst calls)"
  shows "fst (run_guard rate_step Map.empty calls) = fst (run_guard rate_spec [] calls)"
  using rate_history.same_decisions [where s = Map.empty and t = "(0, [])" and ks = calls] assms
  by (simp add: rate_tracks_empty calls_ok_forward run_timed)

theorem rate_allow_refines_history_witness:
  "fst (run_guard rate_step Map.empty [(0, V4 1), (5, V4 2), (seconds 61, V4 1)]) = [True, True, True]"
  by (subst rate_allow_refines_history)
    (simp_all add: rate_spec_def recent_def code_consts seconds_def)

text \<open>(C8) In no minute, wherever it starts, are more than 30 attempts of one address let through.\<close>

theorem rate_limit_per_minute:
  assumes "sorted (map fst calls)"
  shows "length (in_window ip a (accepted rate_step Map.empty calls)) \<le> AUTH_MAX_PER_IP"
proof -
  have "fst (run_guard rate_step Map.empty calls) = fst (run_guard rate_spec [] calls)"
    using rate_history.same_decisions [where s = Map.empty and t = "(0, [])" and ks = calls] assms
    by (simp add: rate_tracks_empty calls_ok_forward run_timed)
  then have "accepted rate_step Map.empty calls = accepted rate_spec [] calls"
    by (simp add: accepted_def)
  moreover have "rate_ok (rev (accepted rate_spec [] calls))"
    using rate_spec_ok [of "[]" calls] assms by simp
  from rate_ok_window [OF this, of ip a]
  have "length (in_window ip a (accepted rate_spec [] calls)) \<le> AUTH_MAX_PER_IP"
    by (simp add: in_window_def flip: rev_filter)
  ultimately show ?thesis by simp
qed

theorem rate_limit_per_minute_witness:
  "length (in_window (V4 1) 0 (accepted rate_step Map.empty (map (\<lambda>t. (t, V4 1)) [0..<40]))) \<le> AUTH_MAX_PER_IP"
  by (rule rate_limit_per_minute) (simp add: comp_def)

text \<open>
  Entries are emptied but never removed: the table holds one key for every address that ever
  connected, so its size is not bounded by the window.
\<close>

theorem rate_table_never_shrinks:
  "dom (snd (run_guard rate_step Map.empty calls)) = snd ` set calls"
proof -
  have step: "dom (snd (rate_step m c)) = insert (snd c) (dom m)" for m c
    by (auto simp: rate_step_def rate_allow_def Let_def)
  have "dom (snd (run_guard rate_step m calls)) = dom m \<union> snd ` set calls" for m
  proof (induction calls arbitrary: m)
    case (Cons c calls)
    then show ?case by (simp add: step)
  qed simp
  then show ?thesis by simp
qed

end
