(* ===== verification/Udp_Manager.thy ===== *)
theory Udp_Manager
  imports Messages Metrics Nonce_Cache "HOL-Library.Finite_Map"
begin

section \<open>UDP sessions of the server\<close>

text \<open>
  \<open>src/crates/hydr-server/src/udp.rs\<close>. The two hash maps behind their locks are finite maps of
  one record; the second lock is only ever taken inside the first, so every critical section of
  the code (\<open>udp_acquire\<close>, \<open>remove_session\<close>, \<open>sweep_tick\<close>) is one atomic operation here.
  A socket is a value of the type parameter \<open>'s\<close>, a tunnel handle one of \<open>'u\<close>. Binding a
  socket, the resolver and sending are arguments.
\<close>

definition SESSION_TIMEOUT :: nat where [code_consts]: "SESSION_TIMEOUT = seconds 120"
definition DEFAULT_MAX_UDP_SESSIONS :: nat where [code_consts]: "DEFAULT_MAX_UDP_SESSIONS = 4096"
definition DEFAULT_MAX_UDP_SESSIONS_PER_IP :: nat where [code_consts]: "DEFAULT_MAX_UDP_SESSIONS_PER_IP = 64"

type_synonym session_key = "ip_addr \<times> u32"

record 's udp_session =
  us_socket :: 's
  us_last_active :: nat
  us_owner :: ip_addr

record 's udp_manager =
  um_sessions :: "(session_key, 's udp_session) fmap"
  um_per_ip :: "(ip_addr, nat) fmap"
  um_max_sessions :: nat
  um_max_per_ip :: nat

definition with_limits :: "nat \<Rightarrow> nat \<Rightarrow> 's udp_manager" where
  "with_limits max_sessions max_per_ip =
     \<lparr>um_sessions = fmempty, um_per_ip = fmempty,
      um_max_sessions = (if max_sessions = 0 then DEFAULT_MAX_UDP_SESSIONS else max_sessions),
      um_max_per_ip = (if max_per_ip = 0 then DEFAULT_MAX_UDP_SESSIONS_PER_IP else max_per_ip)\<rparr>"

definition udp_manager_new :: "'s udp_manager" where
  "udp_manager_new = with_limits DEFAULT_MAX_UDP_SESSIONS DEFAULT_MAX_UDP_SESSIONS_PER_IP"

text \<open>\<open>HashMap::len\<close>, and \<open>get\<close> with \<open>copied().unwrap_or(0)\<close>.\<close>

definition map_len :: "('k, 'v) fmap \<Rightarrow> nat" where
  "map_len m = fcard (fmdom m)"

definition get_or_0 :: "('k, nat) fmap \<Rightarrow> 'k \<Rightarrow> nat" where
  "get_or_0 m k = (case fmlookup m k of None \<Rightarrow> 0 | Some n \<Rightarrow> n)"

definition session_count :: "'s udp_manager \<Rightarrow> bool \<Rightarrow> nat" where
  "session_count self lock_free = (if lock_free then map_len (um_sessions self) else 0)"

definition decrement_per_ip :: "(ip_addr, nat) fmap \<Rightarrow> ip_addr \<Rightarrow> (ip_addr, nat) fmap" where
  "decrement_per_ip per_ip ip =
     (case fmlookup per_ip ip of
        None \<Rightarrow> per_ip
      | Some n \<Rightarrow> (let n = n - 1 in if n = 0 then fmdrop ip per_ip else fmupd ip n per_ip))"

definition rate_limited :: "rstring \<Rightarrow> hydr_error" where
  "rate_limited msg = Message (lit ''[code '' @ show_word ERR_RATE_LIMITED @ lit ''] '' @ msg)"

text \<open>The resolver returns the addresses of a domain or an input/output error.\<close>

definition resolve_target ::
  "(rstring \<Rightarrow> u16 \<Rightarrow> socket_addr list result) \<Rightarrow> address \<Rightarrow> socket_addr result" where
  "resolve_target lookup_host addr =
     (case addr of
        Ip ip port \<Rightarrow> Ok (ip, port)
      | Domain host port \<Rightarrow>
          and_then (lookup_host host port) (\<lambda>it.
            case it of [] \<Rightarrow> Fail (InvalidData (lit ''no address for domain'')) | a # _ \<Rightarrow> Ok a))"

text \<open>
  The task spawned with a session sends what its socket receives to the tunnel it was created
  from, until it is told to stop or that tunnel fails.
\<close>

record ('s, 'u) reply_task =
  rt_socket :: 's
  rt_upstream :: 'u
  rt_sid :: u32

definition reply_datagram :: "('s, 'u) reply_task \<Rightarrow> socket_addr \<Rightarrow> bytes \<Rightarrow> datagram" where
  "reply_datagram task from_addr payload =
     datagram_new (rt_sid task) (Ip (fst from_addr) (snd from_addr)) payload"

text \<open>
  One turn of the task's loop on a received packet: the metrics, what is handed to which tunnel
  and whether the task goes on.
\<close>

definition reply_turn ::
  "('u \<Rightarrow> datagram \<Rightarrow> unit result) \<Rightarrow> metrics \<Rightarrow> ('s, 'u) reply_task \<Rightarrow> (bytes \<times> socket_addr) result
     \<Rightarrow> metrics \<times> ('u \<times> datagram) option \<times> bool" where
  "reply_turn send_datagram m task recv =
     (case recv of
        Inl _ \<Rightarrow> (m, None, False)
      | Inr (payload, from_addr) \<Rightarrow>
          let out = reply_datagram task from_addr payload;
              m = m\<lparr>mt_datagrams_tx := mt_datagrams_tx m + 1\<rparr>
          in (case send_datagram (rt_upstream task) out of
                Inl _ \<Rightarrow> (m, None, False)
              | Inr _ \<Rightarrow> (m, Some (rt_upstream task, out), True)))"

text \<open>The locked part of \<open>forward\<close>: find or create the session, and its socket.\<close>

definition udp_acquire ::
  "nat \<Rightarrow> 's result \<Rightarrow> metrics \<Rightarrow> 's udp_manager \<Rightarrow> 'u \<Rightarrow> ip_addr \<Rightarrow> u32
     \<Rightarrow> 's result \<times> ('s, 'u) reply_task option \<times> metrics \<times> 's udp_manager" where
  "udp_acquire now bind m self upstream client_ip sid =
     (let key = (client_ip, sid) in
      case fmlookup (um_sessions self) key of
        Some s \<Rightarrow>
          (Ok (us_socket s), None, m,
           self\<lparr>um_sessions := fmupd key (s\<lparr>us_last_active := now\<rparr>) (um_sessions self)\<rparr>)
      | None \<Rightarrow>
          if map_len (um_sessions self) \<ge> um_max_sessions self
          then (Fail (rate_limited (lit ''udp session table full'')), None,
                m\<lparr>mt_udp_sessions_rejected := mt_udp_sessions_rejected m + 1\<rparr>, self)
          else if get_or_0 (um_per_ip self) client_ip \<ge> um_max_per_ip self
          then (Fail (rate_limited (lit ''too many udp sessions for this ip'')), None,
                m\<lparr>mt_udp_sessions_rejected := mt_udp_sessions_rejected m + 1\<rparr>, self)
          else (case bind of
              Inl e \<Rightarrow> (Inl e, None, m, self)
            | Inr socket \<Rightarrow>
                let task = \<lparr>rt_socket = socket, rt_upstream = upstream, rt_sid = sid\<rparr>;
                    session = \<lparr>us_socket = socket, us_last_active = now, us_owner = client_ip\<rparr>;
                    self = self\<lparr>um_sessions := fmupd key session (um_sessions self)\<rparr>;
                    self = self\<lparr>um_per_ip :=
                      fmupd client_ip (get_or_0 (um_per_ip self) client_ip + 1) (um_per_ip self)\<rparr>;
                    m = m\<lparr>mt_udp_sessions_current := mt_udp_sessions_current m + 1\<rparr>;
                    m = m\<lparr>mt_udp_sessions_created := mt_udp_sessions_created m + 1\<rparr>
                in (Ok socket, Some task, m, self)))"

text \<open>\<open>remove_session\<close>; the session told to stop is part of the result.\<close>

definition remove_session ::
  "metrics \<Rightarrow> 's udp_manager \<Rightarrow> session_key \<Rightarrow> 's option \<times> metrics \<times> 's udp_manager" where
  "remove_session m self key =
     (case fmlookup (um_sessions self) key of
        None \<Rightarrow> (None, m, self)
      | Some s \<Rightarrow>
          (Some (us_socket s),
           m\<lparr>mt_udp_sessions_current := mt_udp_sessions_current m - 1\<rparr>,
           self\<lparr>um_sessions := fmdrop key (um_sessions self),
                um_per_ip := decrement_per_ip (um_per_ip self) (us_owner s)\<rparr>))"

text \<open>
  \<open>forward\<close>, without other tasks in between: \<open>send_to\<close> is the socket's. The last component
  lists the sockets whose tasks are told to stop.
\<close>

definition forward_datagram ::
  "nat \<Rightarrow> 's result \<Rightarrow> (rstring \<Rightarrow> u16 \<Rightarrow> socket_addr list result)
     \<Rightarrow> ('s \<Rightarrow> bytes \<Rightarrow> socket_addr \<Rightarrow> unit result)
     \<Rightarrow> metrics \<Rightarrow> 's udp_manager \<Rightarrow> 'u \<Rightarrow> ip_addr \<Rightarrow> datagram
     \<Rightarrow> unit result \<times> ('s, 'u) reply_task option \<times> 's option \<times> metrics \<times> 's udp_manager" where
  "forward_datagram now bind lookup_host send_to m self upstream client_ip dg =
     (let key = (client_ip, dg_session_id dg);
          (acquired, task, m, self) = udp_acquire now bind m self upstream client_ip (dg_session_id dg)
      in case acquired of
           Inl e \<Rightarrow> (Inl e, task, None, m, self)
         | Inr socket \<Rightarrow>
             (case resolve_target lookup_host (dg_address dg) of
                Inl e \<Rightarrow> (Inl e, task, None, m, self)
              | Inr target \<Rightarrow>
                  (case send_to socket (dg_payload dg) target of
                     Inl e \<Rightarrow> (let (stopped, m, self) = remove_session m self key
                               in (Inl e, task, stopped, m, self))
                   | Inr _ \<Rightarrow> (Ok (), task, None, m, self))))"

text \<open>
  One tick of \<open>sweep_loop\<close>; \<open>keys\<close> is the order in which the hash map enumerates its keys.
\<close>

definition stale_keys :: "nat \<Rightarrow> 's udp_manager \<Rightarrow> session_key list \<Rightarrow> session_key list" where
  "stale_keys now self keys =
     filter (\<lambda>k. case fmlookup (um_sessions self) k of
                  None \<Rightarrow> False | Some s \<Rightarrow> now - us_last_active s > SESSION_TIMEOUT) keys"

definition sweep_tick ::
  "nat \<Rightarrow> session_key list \<Rightarrow> metrics \<Rightarrow> 's udp_manager \<Rightarrow> 's list \<times> metrics \<times> 's udp_manager" where
  "sweep_tick now keys m self =
     foldl (\<lambda>(stopped, m, self) key.
              let (s, m, self) = remove_session m self key
              in (stopped @ (case s of None \<Rightarrow> [] | Some s \<Rightarrow> [s]), m, self))
       ([], m, self) (stale_keys now self keys)"

subsection \<open>The books balance\<close>

text \<open>
  The sessions of an address, counted in the table; the counter map has an entry for exactly the
  addresses with a session, and it holds that count.
\<close>

definition sessions_of :: "'s udp_manager \<Rightarrow> ip_addr \<Rightarrow> nat" where
  "sessions_of self ip = fcard (ffilter (\<lambda>k. fst k = ip) (fmdom (um_sessions self)))"

definition udp_inv :: "'s udp_manager \<Rightarrow> bool" where
  "udp_inv self \<longleftrightarrow>
     (\<forall>ip. fmlookup (um_per_ip self) ip
            = (if sessions_of self ip = 0 then None else Some (sessions_of self ip))) \<and>
     (\<forall>k s. fmlookup (um_sessions self) k = Some s \<longrightarrow> us_owner s = fst k) \<and>
     map_len (um_sessions self) \<le> um_max_sessions self \<and>
     (\<forall>ip. sessions_of self ip \<le> um_max_per_ip self)"

definition gauge_ok :: "metrics \<Rightarrow> 's udp_manager \<Rightarrow> bool" where
  "gauge_ok m self \<longleftrightarrow> mt_udp_sessions_current m = of_nat (map_len (um_sessions self))"

lemma udp_inv_get: "udp_inv self \<Longrightarrow> get_or_0 (um_per_ip self) ip = sessions_of self ip"
  by (simp add: udp_inv_def get_or_0_def)

lemma map_len_upd_new: "fmlookup m k = None \<Longrightarrow> map_len (fmupd k v m) = Suc (map_len m)"
  by (simp add: map_len_def fmdom_notI fcard_finsert_disjoint)

lemma map_len_upd_old: "fmlookup m k = Some w \<Longrightarrow> map_len (fmupd k v m) = map_len m"
  by (simp add: map_len_def fmdomI finsert_absorb)

lemma map_len_drop: "fmlookup m k = Some w \<Longrightarrow> Suc (map_len (fmdrop k m)) = map_len m"
  unfolding map_len_def fmdom_drop by (rule fcard_Suc_fminus1) (rule fmdomI)

lemma ffilter_finsert: "ffilter P (finsert x A) = (if P x then finsert x (ffilter P A) else ffilter P A)"
  by auto

lemma sessions_of_new:
  assumes "fmlookup (um_sessions self) k = None"
  shows "sessions_of (self\<lparr>um_sessions := fmupd k s (um_sessions self), um_per_ip := p\<rparr>) ip
     = (if fst k = ip then Suc (sessions_of self ip) else sessions_of self ip)"
proof -
  have "k |\<notin>| ffilter (\<lambda>k. fst k = ip) (fmdom (um_sessions self))"
    using assms by (simp add: fmdom_notI)
  then show ?thesis by (simp add: sessions_of_def ffilter_finsert fcard_finsert_disjoint)
qed

lemma sessions_of_old:
  "fmlookup (um_sessions self) k = Some w \<Longrightarrow>
     sessions_of (self\<lparr>um_sessions := fmupd k s (um_sessions self)\<rparr>) ip = sessions_of self ip"
  by (simp add: sessions_of_def fmdomI finsert_absorb)

lemma sessions_of_drop:
  assumes "fmlookup (um_sessions self) k = Some w"
  shows "sessions_of (self\<lparr>um_sessions := fmdrop k (um_sessions self), um_per_ip := p\<rparr>) ip
     = (if fst k = ip then sessions_of self ip - 1 else sessions_of self ip)"
proof -
  let ?F = "ffilter (\<lambda>k. fst k = ip)" and ?D = "fmdom (um_sessions self)"
  have eq: "?F (?D |-| {|k|}) = ?F ?D |-| {|k|}" by auto
  show ?thesis
  proof (cases "fst k = ip")
    case True
    then have "k |\<in>| ?F ?D" using assms by (simp add: fmdomI)
    from fcard_fminus_fsingleton [OF this] True show ?thesis by (simp add: sessions_of_def eq)
  next
    case False
    then have "?F ?D |-| {|k|} = ?F ?D" by auto
    with False show ?thesis by (simp add: sessions_of_def eq)
  qed
qed

lemma sessions_of_le: "sessions_of self ip \<le> map_len (um_sessions self)"
  unfolding sessions_of_def map_len_def by (rule fcard_mono) auto

lemma sessions_of_pos: "fmlookup (um_sessions self) k = Some w \<Longrightarrow> 0 < sessions_of self (fst k)"
proof -
  assume "fmlookup (um_sessions self) k = Some w"
  then have "k |\<in>| ffilter (\<lambda>j. fst j = fst k) (fmdom (um_sessions self))" by (simp add: fmdomI)
  then show ?thesis unfolding sessions_of_def by (auto simp: neq0_conv [symmetric])
qed

lemma fmlookup_decrement:
  "fmlookup (decrement_per_ip p ip) i
     = (if i = ip then (case fmlookup p ip of None \<Rightarrow> None | Some n \<Rightarrow> if n \<le> 1 then None else Some (n - 1))
        else fmlookup p i)"
  by (auto simp: decrement_per_ip_def Let_def split: option.splits)

lemma remove_session_inv:
  assumes inv: "udp_inv self" and g: "gauge_ok m self"
    and r: "remove_session m self key = (stopped, m', self')"
  shows "udp_inv self' \<and> gauge_ok m' self' \<and> um_sessions self' = fmdrop key (um_sessions self) \<and>
     um_max_sessions self' = um_max_sessions self \<and> um_max_per_ip self' = um_max_per_ip self"
proof (cases "fmlookup (um_sessions self) key")
  case None
  with assms show ?thesis by (auto simp: remove_session_def intro!: fmap_ext)
next
  case (Some s)
  let ?self = "self\<lparr>um_sessions := fmdrop key (um_sessions self),
    um_per_ip := decrement_per_ip (um_per_ip self) (us_owner s)\<rparr>"
  from r Some have r': "self' = ?self" "m' = m\<lparr>mt_udp_sessions_current := mt_udp_sessions_current m - 1\<rparr>"
    by (simp_all add: remove_session_def)
  from inv Some have owner: "us_owner s = fst key" by (cases key) (auto simp: udp_inv_def)
  note len = map_len_drop [OF Some] and cnt = sessions_of_drop [OF Some]
  have "fmlookup (um_per_ip ?self) ip = (if sessions_of ?self ip = 0 then None else Some (sessions_of ?self ip))" for ip
    using inv sessions_of_pos [OF Some] unfolding cnt
    by (auto simp: fmlookup_decrement udp_inv_def owner split: if_splits)
  moreover have "sessions_of ?self ip \<le> um_max_per_ip self" for ip
    using inv unfolding cnt by (auto simp: udp_inv_def intro: le_SucI le_trans [OF diff_le_self])
  moreover have "map_len (fmdrop key (um_sessions self)) \<le> um_max_sessions self"
    using inv len by (simp add: udp_inv_def)
  ultimately have "udp_inv ?self" using inv by (simp add: udp_inv_def)
  moreover have "(of_nat (map_len (um_sessions self)) :: u64) = of_nat (map_len (fmdrop key (um_sessions self))) + 1"
    using arg_cong [OF len, of "of_nat :: nat \<Rightarrow> u64"] by (simp add: add.commute)
  then have "gauge_ok m' ?self" using g by (simp add: gauge_ok_def r')
  ultimately show ?thesis by (simp add: r')
qed

lemma udp_acquire_inv:
  assumes inv: "udp_inv self" and g: "gauge_ok m self"
    and r: "udp_acquire now bind m self upstream ip sid = (res, task, m', self')"
  shows "udp_inv self' \<and> gauge_ok m' self' \<and>
     um_max_sessions self' = um_max_sessions self \<and> um_max_per_ip self' = um_max_per_ip self"
proof (cases "fmlookup (um_sessions self) (ip, sid)")
  case (Some s)
  let ?self = "self\<lparr>um_sessions := fmupd (ip, sid) (s\<lparr>us_last_active := now\<rparr>) (um_sessions self)\<rparr>"
  from r Some have r': "self' = ?self" "m' = m" by (simp_all add: udp_acquire_def)
  have "udp_inv ?self"
    using inv Some unfolding udp_inv_def sessions_of_old [OF Some]
    by (auto simp: map_len_upd_old [OF Some])
  with g Some show ?thesis by (simp add: r' gauge_ok_def map_len_upd_old [OF Some])
next
  case None
  show ?thesis
  proof (cases "map_len (um_sessions self) \<ge> um_max_sessions self \<or>
      get_or_0 (um_per_ip self) ip \<ge> um_max_per_ip self \<or> isl bind")
    case True
    with r None have "self' = self" "mt_udp_sessions_current m' = mt_udp_sessions_current m"
      by (auto simp: udp_acquire_def Let_def split: if_splits sum.splits)
    with inv g show ?thesis by (simp add: gauge_ok_def)
  next
    case False
    then obtain socket where bind: "bind = Inr socket" by (cases bind) auto
    let ?s = "\<lparr>us_socket = socket, us_last_active = now, us_owner = ip\<rparr>"
    let ?self = "self\<lparr>um_sessions := fmupd (ip, sid) ?s (um_sessions self),
      um_per_ip := fmupd ip (get_or_0 (um_per_ip self) ip + 1) (um_per_ip self)\<rparr>"
    from r None False bind have r': "self' = ?self"
      "mt_udp_sessions_current m' = mt_udp_sessions_current m + 1"
      by (auto simp: udp_acquire_def Let_def)
    note cnt = sessions_of_new [OF None]
    have "fmlookup (um_per_ip ?self) i = (if sessions_of ?self i = 0 then None else Some (sessions_of ?self i))" for i
      using inv unfolding cnt by (simp add: udp_inv_get) (simp add: udp_inv_def)
    moreover have "sessions_of ?self i \<le> um_max_per_ip self" for i
      using inv False unfolding cnt by (simp add: udp_inv_get) (auto simp: udp_inv_def)
    moreover have "map_len (fmupd (ip, sid) ?s (um_sessions self)) \<le> um_max_sessions self"
      using False by (simp add: map_len_upd_new [OF None])
    ultimately have "udp_inv ?self" using inv by (simp add: udp_inv_def)
    with g show ?thesis by (simp add: r' gauge_ok_def map_len_upd_new [OF None])
  qed
qed

subsection \<open>Sweeping\<close>

lemma sweep_fold_inv:
  "udp_inv self \<Longrightarrow> gauge_ok m self \<Longrightarrow>
    foldl (\<lambda>(stopped, m, self) key.
              let (s, m, self) = remove_session m self key
              in (stopped @ (case s of None \<Rightarrow> [] | Some s \<Rightarrow> [s]), m, self)) (st, m, self) ks
      = (st', m', self') \<Longrightarrow>
    udp_inv self' \<and> gauge_ok m' self' \<and>
    um_sessions self' = fmfilter (\<lambda>k. k \<notin> set ks) (um_sessions self) \<and>
    um_max_sessions self' = um_max_sessions self \<and> um_max_per_ip self' = um_max_per_ip self"
proof (induction ks arbitrary: st m self)
  case Nil
  then show ?case by (auto simp: fmfilter_true)
next
  case (Cons k ks)
  obtain s m1 self1 where 1: "remove_session m self k = (s, m1, self1)" by (metis prod_cases3)
  note r = remove_session_inv [OF Cons.prems(1,2) 1]
  from r have self1: "udp_inv self1" "gauge_ok m1 self1" by blast+
  have eq: "fmfilter (\<lambda>x. x \<notin> set ks) (um_sessions self1)
      = fmfilter (\<lambda>x. x \<notin> set (k # ks)) (um_sessions self)"
    using r by (intro fmap_ext) simp
  from Cons.prems(3) Cons.IH [OF self1] r show ?case unfolding eq by (simp add: 1)
qed

lemma sweep_tick_inv:
  assumes inv: "udp_inv self" and g: "gauge_ok m self"
    and keys: "set keys = fset (fmdom (um_sessions self))"
    and r: "sweep_tick now keys m self = (stopped, m', self')"
  shows "udp_inv self' \<and> gauge_ok m' self' \<and>
    (\<forall>k. fmlookup (um_sessions self') k =
       (case fmlookup (um_sessions self) k of
          None \<Rightarrow> None
        | Some s \<Rightarrow> if now - us_last_active s > SESSION_TIMEOUT then None else Some s)) \<and>
    um_max_sessions self' = um_max_sessions self \<and> um_max_per_ip self' = um_max_per_ip self"
proof -
  note f = sweep_fold_inv [OF inv g r [unfolded sweep_tick_def]]
  have "fmlookup (um_sessions self') k = (case fmlookup (um_sessions self) k of
          None \<Rightarrow> None
        | Some s \<Rightarrow> if now - us_last_active s > SESSION_TIMEOUT then None else Some s)" for k
    using f keys fmdomI [of "um_sessions self" k]
    by (auto simp: stale_keys_def split: option.splits)
  with f show ?thesis by blast
qed

subsection \<open>Interleaved operations\<close>

text \<open>
  Every critical section of any of the server's tasks is one step, in any order: a datagram
  looking up its session, the removal after a failed send, a tick of the sweep, and whatever
  other tasks do to other metrics. Tunnel handles are numbered.
\<close>

inductive udp_step :: "metrics \<times> 's udp_manager \<Rightarrow> metrics \<times> 's udp_manager \<Rightarrow> bool" where
  acquire: "udp_acquire now bind m self (upstream :: nat) ip sid = (res, task, m', self') \<Longrightarrow>
     udp_step (m, self) (m', self')"
| remove: "remove_session m self key = (stopped, m', self') \<Longrightarrow> udp_step (m, self) (m', self')"
| sweep: "set keys = fset (fmdom (um_sessions self)) \<Longrightarrow>
     sweep_tick now keys m self = (stopped, m', self') \<Longrightarrow> udp_step (m, self) (m', self')"
| others: "mt_udp_sessions_current m' = mt_udp_sessions_current m \<Longrightarrow> udp_step (m, self) (m', self)"

inductive udp_reachable :: "nat \<Rightarrow> nat \<Rightarrow> metrics \<times> 's udp_manager \<Rightarrow> bool" for max_sessions max_per_ip where
  start: "udp_reachable max_sessions max_per_ip (metrics_new, with_limits max_sessions max_per_ip)"
| step: "udp_reachable max_sessions max_per_ip s \<Longrightarrow> udp_step s s' \<Longrightarrow>
     udp_reachable max_sessions max_per_ip s'"

inductive_cases udp_stepE: "udp_step s s'"

lemma udp_inv_start: "udp_inv (with_limits a b) \<and> gauge_ok metrics_new (with_limits a b)"
  by (simp add: udp_inv_def with_limits_def sessions_of_def map_len_def gauge_ok_def metrics_new_def
      fcard.rep_eq)

lemma udp_step_inv:
  "udp_step s s' \<Longrightarrow> udp_inv (snd s) \<Longrightarrow> gauge_ok (fst s) (snd s) \<Longrightarrow>
     udp_inv (snd s') \<and> gauge_ok (fst s') (snd s') \<and>
     um_max_sessions (snd s') = um_max_sessions (snd s) \<and> um_max_per_ip (snd s') = um_max_per_ip (snd s)"
proof (induction rule: udp_step.induct)
  case (acquire now bind m self upstream ip sid res task m' self')
  then show ?case using udp_acquire_inv [OF _ _ acquire(1)] by simp
next
  case (remove m self key stopped m' self')
  then show ?case using remove_session_inv [OF _ _ remove(1)] by simp
next
  case (sweep keys self now m stopped m' self')
  then show ?case using sweep_tick_inv [OF _ _ sweep(1,2)] by simp
next
  case (others m' m self)
  then show ?case by (simp add: gauge_ok_def)
qed

lemma udp_reachable_inv:
  "udp_reachable a b s \<Longrightarrow> udp_inv (snd s) \<and> gauge_ok (fst s) (snd s) \<and>
     um_max_sessions (snd s) = um_max_sessions (with_limits a b :: 's udp_manager) \<and>
     um_max_per_ip (snd s) = um_max_per_ip (with_limits a b :: 's udp_manager)"
  for s :: "metrics \<times> 's udp_manager"
proof (induction rule: udp_reachable.induct)
  case start
  show ?case using udp_inv_start by auto
next
  case (step s s')
  then show ?case using udp_step_inv by metis
qed

subsection \<open>Properties\<close>

text \<open>
  (C15) In every reachable state the per-address counters agree with the session table, every
  session belongs to the address in its key, the table respects both caps and the gauge shows
  its size, whatever the interleaving of datagrams, failed sends and sweeps.
\<close>

theorem udp_books_balance:
  assumes "udp_reachable max_sessions max_per_ip (m, self)"
  shows "udp_inv self \<and> mt_udp_sessions_current m = of_nat (map_len (um_sessions self)) \<and>
     map_len (um_sessions self) \<le> (if max_sessions = 0 then 4096 else max_sessions) \<and>
     (\<forall>ip. sessions_of self ip \<le> (if max_per_ip = 0 then 64 else max_per_ip))"
  using udp_reachable_inv [OF assms]
  by (auto simp: udp_inv_def gauge_ok_def with_limits_def code_consts)

theorem udp_books_balance_witness:
  "udp_inv (with_limits 3 2 :: nat udp_manager) \<and>
   mt_udp_sessions_current metrics_new = of_nat (map_len (um_sessions (with_limits 3 2 :: nat udp_manager)))"
  using udp_books_balance [OF udp_reachable.start, of 3 2] by blast

text \<open>
  Admission is exact: in a reachable state a datagram of a new session is let in if and only
  if the table and the share of its address, counted in the table, have room (and a socket can
  be bound); a known session is always served, from its own socket.
\<close>

theorem udp_admission:
  assumes "udp_reachable max_sessions max_per_ip (m, self)"
  shows "(\<exists>socket task m' self'. udp_acquire now bind m self upstream ip sid = (Ok socket, task, m', self')) \<longleftrightarrow>
     (ip, sid) |\<in>| fmdom (um_sessions self) \<or>
     (fcard (fmdom (um_sessions self)) < um_max_sessions self \<and>
      fcard (ffilter (\<lambda>k. fst k = ip) (fmdom (um_sessions self))) < um_max_per_ip self \<and> \<not> isl bind)"
proof (cases "fmlookup (um_sessions self) (ip, sid)")
  case (Some s)
  then show ?thesis by (simp add: udp_acquire_def fmdomI)
next
  case None
  from udp_reachable_inv [OF assms] have "get_or_0 (um_per_ip self) ip = sessions_of self ip"
    by (intro udp_inv_get) simp
  with None show ?thesis
    by (cases bind) (auto simp: udp_acquire_def Let_def map_len_def sessions_of_def fmdom_notI)
qed

theorem udp_admission_witness:
  "\<exists>socket task m' self'.
     udp_acquire 0 (Ok (7 :: nat)) metrics_new (with_limits 3 2) (0 :: nat) (V4 1) 5 = (Ok socket, task, m', self')"
  using udp_admission [OF udp_reachable.start, of 0 "Ok (7 :: nat)" 3 2 "0 :: nat" "V4 1" 5]
  by (simp add: with_limits_def fcard.rep_eq)

text \<open>What the removal of a session and its lookup leave alone.\<close>

lemma remove_session_frame:
  assumes "udp_inv self" and "remove_session m self key = (stopped, m', self')"
  shows "um_sessions self' = fmdrop key (um_sessions self)"
    "i \<noteq> fst key \<Longrightarrow> fmlookup (um_per_ip self') i = fmlookup (um_per_ip self) i"
    "stopped = map_option us_socket (fmlookup (um_sessions self) key)"
proof -
  have "us_owner s = fst key" if "fmlookup (um_sessions self) key = Some s" for s
    using assms(1) that by (cases key) (auto simp: udp_inv_def)
  then show "um_sessions self' = fmdrop key (um_sessions self)"
    "i \<noteq> fst key \<Longrightarrow> fmlookup (um_per_ip self') i = fmlookup (um_per_ip self) i"
    "stopped = map_option us_socket (fmlookup (um_sessions self) key)"
    using assms(2)
    by (auto simp: remove_session_def fmlookup_decrement split: option.splits intro!: fmap_ext)
qed

lemma udp_acquire_frame:
  assumes "udp_acquire now bind m self upstream ip sid = (res, task, m', self')"
  shows "k \<noteq> (ip, sid) \<Longrightarrow> fmlookup (um_sessions self') k = fmlookup (um_sessions self) k"
    "i \<noteq> ip \<Longrightarrow> fmlookup (um_per_ip self') i = fmlookup (um_per_ip self) i"
    "res = Ok socket \<Longrightarrow> \<exists>s. fmlookup (um_sessions self') (ip, sid) = Some s \<and> us_socket s = socket"
    "res = Ok socket \<Longrightarrow> (case fmlookup (um_sessions self) (ip, sid) of None \<Rightarrow> bind = Ok socket | Some s \<Rightarrow> us_socket s = socket)"
  using assms by (auto simp: udp_acquire_def Let_def split: option.splits if_splits sum.splits)

text \<open>
  The socket of a session: the one in the table, or the one bound for it.
\<close>

definition own_socket :: "'s result \<Rightarrow> 's udp_manager \<Rightarrow> session_key \<Rightarrow> 's result" where
  "own_socket bind self key = (case fmlookup (um_sessions self) key of None \<Rightarrow> bind | Some s \<Rightarrow> Ok (us_socket s))"

text \<open>
  (C16) Sessions are isolated from each other: whatever happens to a datagram of session \<open>sid\<close> of the
  address \<open>ip\<close>, also when it is refused, its target does not resolve or the sending fails, the other
  sessions stay as they are, those of the same address included, and so do the counters of the
  other addresses. What is sent is sent from the session's own socket: the outcome does not depend on
  what any other socket would do. If a task is told to stop it is the one of this session, and then
  the session is gone; if the datagram was sent, the session is in the table with that socket.
\<close>

theorem udp_session_isolation:
  assumes "udp_reachable max_sessions max_per_ip (m, self)"
    and "forward_datagram now bind lookup_host send_to m self upstream ip dg = (res, task, stopped, m', self')"
  defines "key \<equiv> (ip, dg_session_id dg)"
  shows "(\<forall>k. k \<noteq> key \<longrightarrow> fmlookup (um_sessions self') k = fmlookup (um_sessions self) k) \<and>
     (\<forall>i. i \<noteq> ip \<longrightarrow> fmlookup (um_per_ip self') i = fmlookup (um_per_ip self) i) \<and>
     (\<forall>send_to'. (\<forall>socket. own_socket bind self key = Ok socket \<longrightarrow> send_to' socket = send_to socket) \<longrightarrow>
        forward_datagram now bind lookup_host send_to' m self upstream ip dg = (res, task, stopped, m', self')) \<and>
     (\<forall>socket. stopped = Some socket \<longrightarrow>
        own_socket bind self key = Ok socket \<and> fmlookup (um_sessions self') key = None) \<and>
     (res = Ok () \<longrightarrow> (\<exists>s target. fmlookup (um_sessions self') key = Some s \<and>
        own_socket bind self key = Ok (us_socket s) \<and> resolve_target lookup_host (dg_address dg) = Ok target \<and>
        send_to (us_socket s) (dg_payload dg) target = Ok ()))"
proof -
  have inv: "udp_inv self" "gauge_ok m self" using udp_reachable_inv [OF assms(1)] by simp_all
  obtain acq task1 m1 self1 where 1: "udp_acquire now bind m self upstream ip (dg_session_id dg) = (acq, task1, m1, self1)"
    by (metis prod_cases4)
  note f = udp_acquire_frame [OF 1]
  note r = assms(2) [unfolded forward_datagram_def Let_def 1 prod.case]
  show ?thesis
  proof (cases acq)
    case (Inl e)
    with r f show ?thesis unfolding key_def by (auto simp: forward_datagram_def 1 Let_def)
  next
    case (Inr socket)
    then have s: "\<exists>s. fmlookup (um_sessions self1) key = Some s \<and> us_socket s = socket"
      and own: "own_socket bind self key = Ok socket"
      using f(3,4) [of socket] by (auto simp: own_socket_def key_def split: option.splits)
    show ?thesis
    proof (cases "resolve_target lookup_host (dg_address dg)")
      case (Inl e)
      with r f Inr show ?thesis unfolding key_def by (auto simp: forward_datagram_def 1 Let_def)
    next
      case target: (Inr target)
      show ?thesis
      proof (cases "send_to socket (dg_payload dg) target")
        case (Inl e)
        obtain stop m2 self2 where 2: "remove_session m1 self1 key = (stop, m2, self2)" by (metis prod_cases3)
        have "udp_inv self1" using udp_acquire_inv [OF inv 1] by simp
        note d = remove_session_frame [OF this 2]
        from r Inr target Inl 2 have "res = Inl e" "stopped = stop" "self' = self2" by (simp_all add: key_def)
        moreover have "forward_datagram now bind lookup_host send_to' m self upstream ip dg = (res, task, stopped, m', self')"
          if "send_to' socket = send_to socket" for send_to'
          using assms(2) that Inr target by (simp add: forward_datagram_def 1 Let_def)
        ultimately show ?thesis
          using d s f(1,2) own by (auto simp: key_def)
      next
        case sent: (Inr u)
        from r Inr target sent have "res = Ok ()" "stopped = None" "self' = self1" by simp_all
        moreover have "forward_datagram now bind lookup_host send_to' m self upstream ip dg = (res, task, stopped, m', self')"
          if "send_to' socket = send_to socket" for send_to'
          using assms(2) that Inr target by (simp add: forward_datagram_def 1 Let_def)
        ultimately show ?thesis
          using s f(1,2) own target sent by (auto simp: key_def)
      qed
    qed
  qed
qed

text \<open>A datagram whose sending fails, next to a session of the same address.\<close>

theorem udp_session_isolation_witness:
  "let (res, task, m, self) = udp_acquire 0 (Ok (7 :: nat)) metrics_new (with_limits 3 2) (0 :: nat) (V4 1) 5;
       (res', task', stopped, m', self') =
         forward_datagram 1 (Ok 8) (\<lambda>host port. Fail (Io [])) (\<lambda>s p t. Fail (Io [])) m self (0 :: nat) (V4 1)
           (datagram_new 6 (Ip (V4 9) 53) [1])
   in res' = Fail (Io []) \<and> stopped = Some 8 \<and> fmlookup (um_sessions self') (V4 1, 6) = None \<and>
     fmlookup (um_sessions self') (V4 1, 5) = fmlookup (um_sessions self) (V4 1, 5) \<and>
     fmlookup (um_sessions self) (V4 1, 5) \<noteq> None"
proof -
  obtain res task m self where
    1: "udp_acquire 0 (Ok (7 :: nat)) metrics_new (with_limits 3 2) (0 :: nat) (V4 1) 5 = (res, task, m, self)"
    by (metis prod_cases4)
  have reach: "udp_reachable 3 2 (m, self)"
    by (rule udp_reachable.step [OF udp_reachable.start udp_step.acquire [OF 1]])
  let ?fwd = "forward_datagram 1 (Ok 8) (\<lambda>host port. Fail (Io [])) (\<lambda>s p t. Fail (Io [])) m self (0 :: nat) (V4 1)
      (datagram_new 6 (Ip (V4 9) 53) [1])"
  obtain res' task' stopped m' self' where 2: "?fwd = (res', task', stopped, m', self')" by (metis prod_cases5)
  from 1 have s: "self = (with_limits 3 2)\<lparr>um_sessions := fmupd (V4 1, 5) \<lparr>us_socket = 7, us_last_active = 0, us_owner = V4 1\<rparr> fmempty,
      um_per_ip := fmupd (V4 1) 1 fmempty\<rparr>"
    by (auto simp: udp_acquire_def with_limits_def map_len_def get_or_0_def Let_def fcard.rep_eq)
  from 2 have "res' = Fail (Io [])" "stopped = Some 8"
    by (auto simp: s forward_datagram_def udp_acquire_def with_limits_def map_len_def get_or_0_def remove_session_def
        datagram_new_def resolve_target_def Let_def fcard.rep_eq)
  with udp_session_isolation [OF reach 2] 1 2 show ?thesis by (simp add: s datagram_new_def)
qed

text \<open>
  A tick of the sweep removes exactly the sessions that were idle for more than two minutes,
  in whatever order the hash map enumerates them, and keeps the counters exact.
\<close>

theorem sweep_removes_exactly_stale:
  assumes "udp_reachable max_sessions max_per_ip (m, self)"
    and "set keys = fset (fmdom (um_sessions self))"
    and "sweep_tick now keys m self = (stopped, m', self')"
  shows "(\<forall>k. fmlookup (um_sessions self') k =
       (case fmlookup (um_sessions self) k of
          None \<Rightarrow> None
        | Some s \<Rightarrow> if now - us_last_active s > SESSION_TIMEOUT then None else Some s)) \<and>
     udp_inv self'"
  using sweep_tick_inv [of self m keys now stopped m' self'] udp_reachable_inv [OF assms(1)] assms(2,3)
  by simp

theorem sweep_removes_exactly_stale_witness:
  "let (res, task, m, self) =
         udp_acquire 0 (Ok (7 :: nat)) metrics_new (with_limits 3 2) (0 :: nat) (V4 1) 5;
       (stopped, m', self') = sweep_tick (seconds 121) [(V4 1, 5)] m self
   in fmlookup (um_sessions self) (V4 1, 5) \<noteq> None \<and> fmlookup (um_sessions self') (V4 1, 5) = None"
proof -
  obtain res task m self where
    1: "udp_acquire 0 (Ok (7 :: nat)) metrics_new (with_limits 3 2) (0 :: nat) (V4 1) 5 = (res, task, m, self)"
    by (metis prod_cases4)
  then have s: "um_sessions self = fmupd (V4 1, 5) \<lparr>us_socket = 7, us_last_active = 0, us_owner = V4 1\<rparr> fmempty"
    by (auto simp: udp_acquire_def with_limits_def map_len_def get_or_0_def Let_def fcard.rep_eq)
  have keys: "set [(V4 1, 5)] = fset (fmdom (um_sessions self))" by (simp add: s)
  obtain st m' self' where 2: "sweep_tick (seconds 121) [(V4 1, 5)] m self = (st, m', self')"
    by (metis prod_cases3)
  from sweep_removes_exactly_stale [OF udp_reachable.step [OF udp_reachable.start udp_step.acquire [OF 1]] keys 2]
  have "fmlookup (um_sessions self') (V4 1, 5) = None"
    by (simp add: s code_consts seconds_def)
  then show ?thesis by (simp add: 1 2) (simp add: s)
qed

text \<open>
  A datagram whose domain does not resolve leaves its new session in the table: only a failed
  send removes it, although the code means to drop such idle sessions for both.
\<close>

theorem dns_failure_keeps_session:
  assumes "fmlookup (um_sessions self) (ip, dg_session_id dg) = None"
    and "fcard (fmdom (um_sessions self)) < um_max_sessions self"
    and "get_or_0 (um_per_ip self) ip < um_max_per_ip self"
    and "resolve_target lookup_host (dg_address dg) = Fail e"
  shows "\<exists>task m' self'.
     forward_datagram now (Ok socket) lookup_host send_to m self upstream ip dg
       = (Fail e, Some task, None, m', self') \<and>
     fmlookup (um_sessions self') (ip, dg_session_id dg) \<noteq> None"
  using assms by (simp add: forward_datagram_def udp_acquire_def map_len_def Let_def)

theorem dns_failure_keeps_session_witness:
  "\<exists>task m' self'.
     forward_datagram 0 (Ok (7 :: nat)) (\<lambda>host port. Fail (Io [])) (\<lambda>s p t. Ok ()) metrics_new
       (with_limits 3 2) (0 :: nat) (V4 1) (datagram_new 5 (Domain (lit ''nowhere'') 53) [1])
       = (Fail (Io []), Some task, None, m', self') \<and>
     fmlookup (um_sessions self') (V4 1, dg_session_id (datagram_new 5 (Domain (lit ''nowhere'') 53) [1])) \<noteq> None"
  by (rule dns_failure_keeps_session)
    (simp_all add: with_limits_def get_or_0_def fcard.rep_eq datagram_new_def resolve_target_def)

text \<open>
  The task that returns the replies keeps the tunnel of the datagram that created the
  session: a datagram that arrives over another tunnel with the same address and session number
  (a reconnected client, or two clients behind one address) creates no task of its own, so the
  replies still go to the first tunnel.
\<close>

theorem replies_stay_with_first_tunnel:
  assumes "udp_acquire t1 bind1 m self up1 ip sid = (Ok socket, Some task, m1, self1)"
  shows "\<exists>m2 self2. udp_acquire t2 bind2 m1 self1 up2 ip sid = (Ok socket, None, m2, self2) \<and>
     rt_upstream task = up1 \<and> rt_socket task = socket \<and>
     (\<forall>payload from_addr. reply_turn (\<lambda>u d. Ok ()) m2 task (Ok (payload, from_addr))
        = (m2\<lparr>mt_datagrams_tx := mt_datagrams_tx m2 + 1\<rparr>,
           Some (up1, datagram_new sid (Ip (fst from_addr) (snd from_addr)) payload), True))"
  using assms
  by (auto simp: udp_acquire_def Let_def reply_turn_def reply_datagram_def
      split: option.splits if_splits sum.splits)

theorem replies_stay_with_first_tunnel_witness:
  "let (res, task, m1, self1) =
     udp_acquire 0 (Ok (7 :: nat)) metrics_new (with_limits 3 2) (10 :: nat) (V4 1) 5
   in \<exists>m2 self2. udp_acquire 1 (Ok 8) m1 self1 20 (V4 1) 5 = (Ok 7, None, m2, self2) \<and>
        map_option rt_upstream task = Some 10"
proof -
  obtain res task m1 self1 where
    1: "udp_acquire 0 (Ok (7 :: nat)) metrics_new (with_limits 3 2) (10 :: nat) (V4 1) 5 = (res, task, m1, self1)"
    by (metis prod_cases4)
  then obtain t where "res = Ok 7" "task = Some t"
    by (auto simp: udp_acquire_def with_limits_def map_len_def get_or_0_def Let_def fcard.rep_eq)
  with replies_stay_with_first_tunnel [OF 1 [unfolded this], of 1 "Ok 8" 20] 1 show ?thesis by auto
qed

text \<open>
  The message of a refused session carries the numeric code of the limit in decimal,
  \<open>[code 2]\<close>.
\<close>

theorem rate_limited_message:
  "error_to_string (rate_limited msg) = lit ''[code 2] '' @ msg"
  by (simp add: rate_limited_def show_word_def show_nat.simps lit_def code_consts)

end
