(* ===== verification/Server_Auth.thy ===== *)
theory Server_Auth
  imports Messages Metrics Rate_Limiter Udp_Manager
begin

section \<open>The server: state and authentication\<close>

text \<open>
  \<open>Server\<close> of \<open>src/crates/hydr-server/src/lib.rs\<close>: its configuration and state, the
  validation of an authentication request and the limit on concurrent tunnels. The state is one
  record; the type parameters are the UDP sockets \<open>'s\<close> and the handle \<open>'h\<close> of the tunnel to
  the next hop. The semaphore is the number of its free permits.
\<close>

definition DEFAULT_MAX_CONNS :: nat where [code_consts]: "DEFAULT_MAX_CONNS = 1024"

record quic_listen =
  ql_bind :: socket_addr
  ql_server_name :: rstring
  ql_cert :: "rstring option"
  ql_key :: "rstring option"

record ws_listen =
  wl_bind :: socket_addr
  wl_path :: rstring
  wl_obfuscation :: "rstring option"

datatype next_hop_transport =
    HopQuic socket_addr rstring bool "rstring option"
  | HopWs rstring bool "rstring option" "rstring option"

record next_hop =
  nh_transport :: next_hop_transport
  nh_password :: rstring

record server_config =
  sc_password :: rstring
  sc_cc_rx :: u64
  sc_quic :: "quic_listen option"
  sc_ws :: "ws_listen option"
  sc_next_hop :: "next_hop option"
  sc_max_conns :: nat
  sc_max_udp_sessions :: nat
  sc_max_udp_sessions_per_ip :: nat
  sc_metrics_bind :: "socket_addr option"

record ('s, 'h) server =
  sv_config :: server_config
  sv_downstream :: "'h option"
  sv_udp :: "'s udp_manager"
  sv_conn_permits :: nat
  sv_auth_attempts :: auth_attempts
  sv_replay_nonces :: nonce_cache
  sv_conns_active :: u64
  sv_next_tunnel_id :: u64

definition server_new :: "server_config \<Rightarrow> ('s, 'h) server" where
  "server_new config =
     (let max_conns = (if sc_max_conns config = 0 then DEFAULT_MAX_CONNS else sc_max_conns config);
          udp_max = sc_max_udp_sessions config;
          udp_per_ip = sc_max_udp_sessions_per_ip config
      in \<lparr>sv_config = config, sv_downstream = None, sv_udp = with_limits udp_max udp_per_ip,
          sv_conn_permits = max_conns, sv_auth_attempts = Map.empty,
          sv_replay_nonces = nonce_cache_new REPLAY_CACHE_MAX, sv_conns_active = 0,
          sv_next_tunnel_id = 1\<rparr>)"

subsection \<open>\<open>validate\<close>\<close>

definition nonce_seen :: "nat \<Rightarrow> ('s, 'h) server \<Rightarrow> bytes \<Rightarrow> bool \<times> ('s, 'h) server" where
  "nonce_seen now self nonce =
     (let (fresh, cache) = nonce_insert now (sv_replay_nonces self) nonce
      in (fresh, self\<lparr>sv_replay_nonces := cache\<rparr>))"

definition validate ::
  "derive_key_fn \<Rightarrow> keyed_hash_fn \<Rightarrow> nat \<Rightarrow> metrics \<Rightarrow> ('s, 'h) server \<Rightarrow> auth_request
     \<Rightarrow> auth_response result \<times> metrics \<times> ('s, 'h) server" where
  "validate derive keyed now m self req =
     (if aq_version req \<noteq> PROTOCOL_VERSION then
        (Ok (auth_response_error_with_code ERR_UNSUPPORTED (lit ''unsupported protocol version'')),
         m\<lparr>mt_auth_unsupported := mt_auth_unsupported m + 1\<rparr>, self)
      else if length (aq_client_nonce req) < 8 then
        (Ok (auth_response_error_with_code ERR_PROTOCOL (lit ''client nonce too short'')),
         m\<lparr>mt_auth_replay := mt_auth_replay m + 1\<rparr>, self)
      else
        let expected = compute_auth_proof derive keyed (sc_password (sv_config self)) (aq_client_nonce req) in
        if \<not> ct_eq expected (aq_auth_proof req) then
          (Ok (auth_response_error_with_code ERR_BAD_CREDENTIALS (lit ''invalid credentials'')),
           m\<lparr>mt_auth_bad_credentials := mt_auth_bad_credentials m + 1\<rparr>, self)
        else
          let (fresh, self) = nonce_seen now self (aq_client_nonce req) in
          if \<not> fresh then
            (Ok (auth_response_error_with_code ERR_PROTOCOL (lit ''replay detected'')),
             m\<lparr>mt_auth_replay := mt_auth_replay m + 1\<rparr>, self)
          else
            (Ok (auth_response_ok (sc_cc_rx (sv_config self)) FEATURE_UDP),
             m\<lparr>mt_auth_ok := mt_auth_ok m + 1\<rparr>, self))"

definition server_rate_allow :: "nat \<Rightarrow> ('s, 'h) server \<Rightarrow> ip_addr \<Rightarrow> bool \<times> ('s, 'h) server" where
  "server_rate_allow now self ip =
     (let (ok, m) = rate_allow now (sv_auth_attempts self) ip
      in (ok, self\<lparr>sv_auth_attempts := m\<rparr>))"

subsection \<open>Permits\<close>

definition try_take_conn :: "('s, 'h) server \<Rightarrow> bool \<times> ('s, 'h) server" where
  "try_take_conn self =
     (if sv_conn_permits self = 0 then (False, self)
      else (True, self\<lparr>sv_conn_permits := sv_conn_permits self - 1,
                       sv_conns_active := sv_conns_active self + 1\<rparr>))"

definition release_conn :: "('s, 'h) server \<Rightarrow> ('s, 'h) server" where
  "release_conn self =
     self\<lparr>sv_conns_active := sv_conns_active self - 1, sv_conn_permits := sv_conn_permits self + 1\<rparr>"

subsection \<open>Which requests authenticate\<close>

text \<open>The conditions on a request by itself: version, nonce length and proof.\<close>

definition genuine :: "derive_key_fn \<Rightarrow> keyed_hash_fn \<Rightarrow> rstring \<Rightarrow> auth_request \<Rightarrow> bool" where
  "genuine derive keyed password req \<longleftrightarrow>
     aq_version req = PROTOCOL_VERSION \<and> 8 \<le> length (aq_client_nonce req) \<and>
     aq_auth_proof req = compute_auth_proof derive keyed password (aq_client_nonce req)"

definition authenticated :: "auth_response result \<Rightarrow> bool" where
  "authenticated r = (case r of Inl _ \<Rightarrow> False | Inr resp \<Rightarrow> ar_status resp = STATUS_OK)"

text \<open>The server as a guard over calls of a time and a request; metrics are left aside.\<close>

definition auth_step ::
  "derive_key_fn \<Rightarrow> keyed_hash_fn \<Rightarrow> ('s, 'h) server \<Rightarrow> nat \<times> auth_request \<Rightarrow> bool \<times> ('s, 'h) server" where
  "auth_step derive keyed self call =
     (let (r, m, self) = validate derive keyed (fst call) metrics_new self (snd call)
      in (authenticated r, self))"

definition auth_spec ::
  "derive_key_fn \<Rightarrow> keyed_hash_fn \<Rightarrow> rstring \<Rightarrow> (bytes \<times> nat) list \<Rightarrow> nat \<times> auth_request
     \<Rightarrow> bool \<times> (bytes \<times> nat) list" where
  "auth_spec derive keyed password h call =
     (if genuine derive keyed password (snd call)
      then history_insert REPLAY_CACHE_MAX h (fst call, aq_client_nonce (snd call)) else (False, h))"

lemma validate_cases:
  "validate derive keyed now m self req =
     (if genuine derive keyed (sc_password (sv_config self)) req then
        let (fresh, cache) = nonce_insert now (sv_replay_nonces self) (aq_client_nonce req);
            self = self\<lparr>sv_replay_nonces := cache\<rparr>
        in if fresh
           then (Ok (auth_response_ok (sc_cc_rx (sv_config self)) FEATURE_UDP),
                 m\<lparr>mt_auth_ok := mt_auth_ok m + 1\<rparr>, self)
           else (Ok (auth_response_error_with_code ERR_PROTOCOL (lit ''replay detected'')),
                 m\<lparr>mt_auth_replay := mt_auth_replay m + 1\<rparr>, self)
      else if aq_version req \<noteq> PROTOCOL_VERSION then
        (Ok (auth_response_error_with_code ERR_UNSUPPORTED (lit ''unsupported protocol version'')),
         m\<lparr>mt_auth_unsupported := mt_auth_unsupported m + 1\<rparr>, self)
      else if length (aq_client_nonce req) < 8 then
        (Ok (auth_response_error_with_code ERR_PROTOCOL (lit ''client nonce too short'')),
         m\<lparr>mt_auth_replay := mt_auth_replay m + 1\<rparr>, self)
      else
        (Ok (auth_response_error_with_code ERR_BAD_CREDENTIALS (lit ''invalid credentials'')),
         m\<lparr>mt_auth_bad_credentials := mt_auth_bad_credentials m + 1\<rparr>, self))"
  by (auto simp: validate_def genuine_def ct_eq_iff nonce_seen_def Let_def split_beta)

lemma authenticated_simps [simp]:
  "authenticated (Ok (auth_response_ok rx f))"
  "\<not> authenticated (Ok (auth_response_error_with_code c msg))"
  by (simp_all add: authenticated_def auth_response_ok_def auth_response_error_with_code_def code_consts)

lemma auth_step_eq:
  "auth_step derive keyed self (now, req) =
     (if genuine derive keyed (sc_password (sv_config self)) req then
        let (fresh, cache) = nonce_insert now (sv_replay_nonces self) (aq_client_nonce req)
        in (fresh, self\<lparr>sv_replay_nonces := cache\<rparr>)
      else (False, self))"
  by (simp add: auth_step_def validate_cases Let_def split_beta)

definition auth_tracks ::
  "rstring \<Rightarrow> ('s, 'h) server \<Rightarrow> nat \<times> (bytes \<times> nat) list \<Rightarrow> bool" where
  "auth_tracks password self s \<longleftrightarrow>
     sc_password (sv_config self) = password \<and> nc_cap (sv_replay_nonces self) = REPLAY_CACHE_MAX \<and>
     (\<exists>t \<le> fst s. cache_tracks t (sv_replay_nonces self) (snd s))"

interpretation auth_history: guard_refinement "auth_step derive keyed"
    "timed (auth_spec derive keyed password)" "auth_tracks password" forward
proof unfold_locales
  fix self :: "('s, 'h) server" and s :: "nat \<times> (bytes \<times> nat) list" and call :: "nat \<times> auth_request"
  assume R: "auth_tracks password self s" and fwd: "forward s call"
  obtain now req where call: "call = (now, req)" by (cases call)
  from R obtain t where t: "t \<le> fst s" "cache_tracks t (sv_replay_nonces self) (snd s)"
    and pw: "sc_password (sv_config self) = password"
    and cap: "nc_cap (sv_replay_nonces self) = REPLAY_CACHE_MAX"
    by (auto simp: auth_tracks_def)
  have now: "t \<le> now" using t(1) fwd by (simp add: call forward_def)
  note ins = nonce_insert_refines [OF t(2) now, of "aq_client_nonce req"]
  have "\<exists>u \<le> now. cache_tracks u (sv_replay_nonces self) (snd s)" using t(2) now by blast
  with ins show "fst (auth_step derive keyed self call)
        = fst (timed (auth_spec derive keyed password) s call) \<and>
      auth_tracks password (snd (auth_step derive keyed self call))
        (snd (timed (auth_spec derive keyed password) s call))"
    using pw cap
    by (auto simp: call timed_simps auth_step_eq auth_spec_def auth_tracks_def Let_def split_beta)
qed

lemma auth_tracks_new: "auth_tracks (sc_password config) (server_new config) (0, [])"
  using tracks_cache_new [of REPLAY_CACHE_MAX]
  by (auto simp: auth_tracks_def server_new_def Let_def nonce_cache_new_def)

subsection \<open>The fate of a captured request\<close>

lemma auth_spec_extends:
  "\<exists>zs. snd (run_guard (auth_spec derive keyed password) h calls) = zs @ h \<and>
     length zs \<le> length calls \<and> snd ` set zs \<subseteq> fst ` set calls"
proof (induction calls arbitrary: h)
  case (Cons c calls)
  let ?h = "snd (auth_spec derive keyed password h c)"
  have "?h = h \<or> ?h = (aq_client_nonce (snd c), fst c) # h"
    by (auto simp: auth_spec_def history_insert_def)
  then obtain ys where ys: "?h = ys @ h" "length ys \<le> 1" "snd ` set ys \<subseteq> {fst c}"
    by (elim disjE) force+
  obtain zs where zs: "snd (run_guard (auth_spec derive keyed password) ?h calls) = zs @ ?h"
    "length zs \<le> length calls" "snd ` set zs \<subseteq> fst ` set calls" using Cons by blast
  have "snd (run_guard (auth_spec derive keyed password) h (c # calls)) = (zs @ ys) @ h"
    using zs(1) ys(1) by simp
  moreover have "length (zs @ ys) \<le> length (c # calls)" using zs(2) ys(2) by simp
  moreover have "snd ` set (zs @ ys) \<subseteq> fst ` set (c # calls)" using zs(3) ys(3) by auto
  ultimately show ?case by blast
qed simp

lemma auth_decisions:
  fixes config :: server_config
  assumes "sorted (map fst calls)"
  shows "fst (run_guard (auth_step derive keyed) (server_new config :: ('s, 'h) server) calls)
     = fst (run_guard (auth_spec derive keyed (sc_password config)) [] calls)"
  using auth_history.same_decisions [where s = "server_new config" and t = "(0, [])" and ks = calls
      and password = "sc_password config"] assms
  by (simp add: auth_tracks_new calls_ok_forward run_timed)

lemma spec_accepts:
  "fst (auth_spec derive keyed pw h (t, req)) \<Longrightarrow>
     genuine derive keyed pw req \<and>
     snd (auth_spec derive keyed pw h (t, req)) = (aq_client_nonce req, t) # h"
  by (auto simp: auth_spec_def history_insert_def split: if_splits)

subsection \<open>Properties\<close>

text \<open>
  (C1) Who gets in: over any sequence of requests at times that do not run backwards, the server
  authenticates exactly the requests of the right version with a nonce of at least eight bytes,
  the proof of the password for that nonce, and a nonce not among the 8192 latest ones
  authenticated within ten minutes.
\<close>

theorem auth_refines_history:
  assumes "sorted (map fst calls)"
  shows "fst (run_guard (auth_step derive keyed) (server_new config :: (nat, nat) server) calls)
     = fst (run_guard (auth_spec derive keyed (sc_password config)) [] calls)"
  by (rule auth_decisions [OF assms])

definition sample_config :: server_config where
  "sample_config =
     \<lparr>sc_password = [112, 119], sc_cc_rx = 0, sc_quic = None, sc_ws = None, sc_next_hop = None,
      sc_max_conns = 0, sc_max_udp_sessions = 0, sc_max_udp_sessions_per_ip = 0, sc_metrics_bind = None\<rparr>"

definition sample_request :: "bytes \<Rightarrow> auth_request" where
  "sample_request nonce =
     \<lparr>aq_version = PROTOCOL_VERSION, aq_auth_method = AUTH_PASSWORD, aq_client_nonce = nonce,
      aq_auth_proof = [112, 119] @ nonce, aq_cc_rx = 0, aq_features = 0, aq_padding = []\<rparr>"

lemma sample_accepted:
  "fst (run_guard (auth_step (\<lambda>ctx k. k) (\<lambda>k m. k @ m)) (server_new sample_config :: (nat, nat) server)
     [(1, sample_request (replicate 8 1))]) = [True]"
  by (subst auth_decisions)
    (simp_all add: auth_spec_def genuine_def sample_config_def sample_request_def
      compute_auth_proof_def derive_key_def history_insert_def remembered_def code_consts)

theorem auth_refines_history_witness:
  "fst (run_guard (auth_step (\<lambda>ctx k. k) (\<lambda>k m. k @ m)) (server_new sample_config :: (nat, nat) server)
     [(1, sample_request (replicate 8 1)), (2, sample_request (replicate 8 1)),
      (3, sample_request (replicate 7 1)), (4, sample_request (replicate 9 1))])
   = [True, False, False, True]"
  by (subst auth_refines_history)
    (simp_all add: auth_spec_def genuine_def sample_config_def sample_request_def
      compute_auth_proof_def derive_key_def history_insert_def remembered_def fresh_at_def
      code_consts seconds_def)

text \<open>
  A captured request is refused: once it was accepted, a request with its nonce is not
  authenticated during the next ten minutes, as long as fewer than 8192 other requests arrive
  in between.
\<close>

theorem captured_request_refused:
  assumes "sorted (map fst (xs @ [(t1, req)] @ ys @ [(t2, req')]))"
    and "last (fst (run_guard (auth_step derive keyed) (server_new config :: (nat, nat) server) (xs @ [(t1, req)])))"
    and "aq_client_nonce req' = aq_client_nonce req"
    and "t2 < t1 + REPLAY_TTL" and "length ys < REPLAY_CACHE_MAX"
  shows "\<not> last (fst (run_guard (auth_step derive keyed) (server_new config :: (nat, nat) server)
     (xs @ [(t1, req)] @ ys @ [(t2, req')])))"
proof -
  let ?spec = "auth_spec derive keyed (sc_password config)"
  let ?h = "snd (run_guard ?spec [] xs)" and ?n = "aq_client_nonce req"
  have s1: "sorted (map fst (xs @ [(t1, req)]))" using assms(1) by (simp add: sorted_append)
  have acc: "fst (?spec ?h (t1, req))"
    using assms(2) unfolding auth_decisions [OF s1] by (simp add: run_guard_append)
  obtain zs where zs: "snd (run_guard ?spec ((?n, t1) # ?h) ys) = zs @ (?n, t1) # ?h"
    "length zs \<le> length ys" "snd ` set zs \<subseteq> fst ` set ys"
    using auth_spec_extends [of derive keyed "sc_password config" "(?n, t1) # ?h" ys] by blast
  have "\<forall>z \<in> set zs. t1 \<le> snd z"
    using zs(3) assms(1) by (fastforce simp: sorted_append)
  moreover have "t2 - t1 < REPLAY_TTL" "length zs < REPLAY_CACHE_MAX"
    using assms(4,5) zs(2) by (auto simp: code_consts seconds_def)
  ultimately have "?n \<in> fst ` set (remembered REPLAY_CACHE_MAX t2 (zs @ (?n, t1) # ?h))"
    by (rule history_remembers)
  then have "\<not> fst (?spec (zs @ (?n, t1) # ?h) (t2, req'))"
    using assms(3) by (simp add: auth_spec_def history_insert_def)
  then show ?thesis
    unfolding auth_decisions [OF assms(1)]
    using spec_accepts [OF acc] zs(1)
    by (simp add: run_guard_append)
qed

theorem captured_request_refused_witness:
  "\<not> last (fst (run_guard (auth_step (\<lambda>ctx k. k) (\<lambda>k m. k @ m)) (server_new sample_config :: (nat, nat) server)
     ([] @ [(1, sample_request (replicate 8 1))] @ [(2, sample_request (replicate 8 2))] @
      [(3, sample_request (replicate 8 1))])))"
  by (rule captured_request_refused)
    (simp_all only: append_Nil sample_accepted, simp_all add: sample_request_def code_consts seconds_def)

text \<open>
  The memory ends after ten minutes: the same captured request, sent again then, is
  authenticated a second time.
\<close>

theorem captured_request_accepted_after_ttl:
  assumes "sorted (map fst (xs @ [(t1, req)]))"
    and "last (fst (run_guard (auth_step derive keyed) (server_new config :: (nat, nat) server) (xs @ [(t1, req)])))"
    and "t1 + REPLAY_TTL \<le> t2"
  shows "last (fst (run_guard (auth_step derive keyed) (server_new config :: (nat, nat) server)
     (xs @ [(t1, req), (t2, req)])))"
proof -
  let ?spec = "auth_spec derive keyed (sc_password config)"
  let ?h = "snd (run_guard ?spec [] xs)" and ?n = "aq_client_nonce req"
  have acc: "fst (?spec ?h (t1, req))"
    using assms(2) unfolding auth_decisions [OF assms(1)] by (simp add: run_guard_append)
  have s2: "sorted (map fst (xs @ [(t1, req), (t2, req)]))"
    using assms(1,3) by (fastforce simp: sorted_append)
  have "fst (?spec ((?n, t1) # ?h) (t2, req))"
    using spec_accepts [OF acc] assms(3) history_forgets [of t2 t1 REPLAY_CACHE_MAX ?n ?h]
    by (auto simp: auth_spec_def history_insert_def)
  then show ?thesis
    unfolding auth_decisions [OF s2]
    using spec_accepts [OF acc]
    by (simp add: run_guard_append)
qed

theorem captured_request_accepted_after_ttl_witness:
  "last (fst (run_guard (auth_step (\<lambda>ctx k. k) (\<lambda>k m. k @ m)) (server_new sample_config :: (nat, nat) server)
     ([] @ [(1, sample_request (replicate 8 1)), (seconds 601, sample_request (replicate 8 1))])))"
  by (rule captured_request_accepted_after_ttl)
    (simp_all only: append_Nil sample_accepted, simp_all add: code_consts seconds_def)

end
