(* ===== verification/Settings.thy ===== *)
theory Settings
  imports Client Server_Auth
begin

section \<open>Configuration files\<close>

text \<open>
  \<open>src/crates/hydr-server/src/cli.rs\<close> and \<open>src/crates/hydr-client/src/cli.rs\<close>: where the secrets come
  from, and how the two \<open>main.rs\<close> turn a parsed file into the configuration of the server and the
  client. The YAML parser, the file system, the environment variables and the parser of socket
  addresses are arguments; errors are their texts. The operating system is a Unix.
\<close>

subsection \<open>Surroundings\<close>

text \<open>
  The mode bits of a file or the error of asking for them, its contents as text or the error of
  reading it, and the variables of the environment that are valid text.
\<close>

record surroundings =
  sr_mode :: "rstring \<Rightarrow> rstring + u32"
  sr_read :: "rstring \<Rightarrow> rstring + rstring"
  sr_var :: "rstring \<Rightarrow> rstring option"

text \<open>The \<open>?\<close> operator on a boxed error.\<close>

definition or_fail :: "rstring + 'a \<Rightarrow> ('a \<Rightarrow> rstring + 'b) \<Rightarrow> rstring + 'b" where
  "or_fail r f = (case r of Inl e \<Rightarrow> Inl e | Inr x \<Rightarrow> f x)"

lemma or_fail_simps [simp]:
  "or_fail (Inr x) f = f x" "or_fail (Inl e) f = Inl e"
  "or_fail r f = Inr y \<longleftrightarrow> (\<exists>x. r = Inr x \<and> f x = Inr y)"
  by (simp_all add: or_fail_def split: sum.splits)

text \<open>\<open>Option::map(..).transpose()\<close>.\<close>

definition transpose_map :: "('a \<Rightarrow> rstring + 'b) \<Rightarrow> 'a option \<Rightarrow> rstring + 'b option" where
  "transpose_map f x = (case x of None \<Rightarrow> Inr None | Some x \<Rightarrow> or_fail (f x) (\<lambda>y. Inr (Some y)))"

text \<open>The octal digits of \<open>{mode:o}\<close>.\<close>

fun show_octal :: "nat \<Rightarrow> rstring" where
  "show_octal n = (if n < 8 then [of_nat (48 + n)] else show_octal (n div 8) @ [of_nat (48 + n mod 8)])"

declare show_octal.simps [simp del]

subsection \<open>\<open>str::trim\<close>\<close>

text \<open>The characters with the Unicode property \<open>White_Space\<close>, in UTF-8.\<close>

definition white_space :: "bytes list" where
  "white_space =
     [[0x09], [0x0A], [0x0B], [0x0C], [0x0D], [0x20], [0xC2, 0x85], [0xC2, 0xA0], [0xE1, 0x9A, 0x80]] @
     map (\<lambda>b. [0xE2, 0x80, b])
       [0x80, 0x81, 0x82, 0x83, 0x84, 0x85, 0x86, 0x87, 0x88, 0x89, 0x8A, 0xA8, 0xA9, 0xAF] @
     [[0xE2, 0x81, 0x9F], [0xE3, 0x80, 0x80]]"

definition leading :: "bytes \<Rightarrow> bytes option" where
  "leading s = find (\<lambda>w. take (length w) s = w) white_space"

definition trailing :: "bytes \<Rightarrow> bytes option" where
  "trailing s = find (\<lambda>w. length w \<le> length s \<and> drop (length s - length w) s = w) white_space"

lemma white_space_not_Nil: "w \<in> set white_space \<Longrightarrow> w \<noteq> []"
  by (auto simp: white_space_def)

lemma leading_Some: "leading s = Some w \<Longrightarrow> w \<noteq> [] \<and> take (length w) s = w"
  unfolding leading_def by (auto simp: find_Some_iff dest: white_space_not_Nil [OF nth_mem])

lemma trailing_Some:
  "trailing s = Some w \<Longrightarrow> w \<noteq> [] \<and> length w \<le> length s \<and> drop (length s - length w) s = w"
  unfolding trailing_def by (auto simp: find_Some_iff dest: white_space_not_Nil [OF nth_mem])

function trim_start :: "rstring \<Rightarrow> rstring" where
  "trim_start s = (case leading s of Some w \<Rightarrow> trim_start (drop (length w) s) | None \<Rightarrow> s)"
  by auto
termination
proof (relation "measure length")
  fix s w
  assume "leading s = Some w"
  then have "w \<noteq> []" "take (length w) s = w" by (auto dest: leading_Some)
  then show "(drop (length w) s, s) \<in> measure length" by (cases s) auto
qed simp

function trim_end :: "rstring \<Rightarrow> rstring" where
  "trim_end s = (case trailing s of Some w \<Rightarrow> trim_end (take (length s - length w) s) | None \<Rightarrow> s)"
  by auto
termination
proof (relation "measure length")
  fix s w
  assume "trailing s = Some w"
  then have "w \<noteq> []" "length w \<le> length s" by (auto dest: trailing_Some)
  then show "(take (length s - length w) s, s) \<in> measure length" by (cases w) auto
qed simp

declare trim_start.simps [simp del] trim_end.simps [simp del]

definition trim :: "rstring \<Rightarrow> rstring" where
  "trim s = trim_end (trim_start s)"

lemma leading_trim_start: "leading (trim_start s) = None"
proof (induction s rule: trim_start.induct)
  case (1 s)
  then show ?case by (subst trim_start.simps) (auto split: option.split)
qed

lemma trailing_trim_end: "trailing (trim_end s) = None"
proof (induction s rule: trim_end.induct)
  case (1 s)
  then show ?case by (subst trim_end.simps) (auto split: option.split)
qed

lemma leading_take: "leading s = None \<Longrightarrow> leading (take n s) = None"
  by (auto simp: leading_def find_None_iff) (metis append_take_drop_id length_take min.bounded_iff nle_le take_all_iff take_append take_take)

lemma leading_trim_end: "leading s = None \<Longrightarrow> leading (trim_end s) = None"
proof (induction s rule: trim_end.induct)
  case (1 s)
  then show ?case by (subst trim_end.simps) (auto split: option.split dest: leading_take)
qed

text \<open>A trimmed text has no white space at either end, so trimming again changes nothing.\<close>

lemma trim_trim: "trim (trim s) = trim s"
proof -
  have "leading (trim s) = None" "trailing (trim s) = None"
    unfolding trim_def by (simp_all add: leading_trim_end leading_trim_start trailing_trim_end)
  then show ?thesis
    by (simp add: trim_def [of "trim s"] trim_start.simps [of "trim s"] trim_end.simps [of "trim s"])
qed

subsection \<open>The secrets\<close>

text \<open>
  \<open>resolve_password\<close>, which the server's and the client's file have in the same words: a password
  file wins over the environment, and that over the configuration.
\<close>

definition HYDR_PASSWORD :: rstring where "HYDR_PASSWORD = lit ''HYDR_PASSWORD''"
definition HYDR_SOCKS5_PASSWORD :: rstring where "HYDR_SOCKS5_PASSWORD = lit ''HYDR_SOCKS5_PASSWORD''"

definition permissive_mode :: "rstring \<Rightarrow> u32 \<Rightarrow> rstring" where
  "permissive_mode p mode =
     lit ''password_file '' @ p @ lit '' has overly permissive mode '' @ show_octal (unat mode) @
     lit '' (expected 600 or 400)''"

definition resolve_password :: "surroundings \<Rightarrow> rstring option \<Rightarrow> rstring option \<Rightarrow> rstring + rstring" where
  "resolve_password env password_file password =
     (case password_file of
        Some p \<Rightarrow>
          or_fail (sr_mode env p) (\<lambda>meta.
            let mode = meta AND 0x1FF in
            if mode AND 0x3F \<noteq> 0 then Inl (permissive_mode p mode)
            else or_fail (sr_read env p) (\<lambda>s.
              let s = trim s in
              if s = [] then Inl (lit ''password_file is empty'') else Inr s))
      | None \<Rightarrow>
          let from_env = (case sr_var env HYDR_PASSWORD of None \<Rightarrow> [] | Some v \<Rightarrow> trim v) in
          if from_env \<noteq> [] then Inr from_env
          else
            (case password of
               None \<Rightarrow> Inl (lit ''password not set: use `password`, `password_file` or env HYDR_PASSWORD'')
             | Some s \<Rightarrow>
                 let s = trim s in
                 if s = [] then Inl (lit ''password not set: use `password`, `password_file` or env HYDR_PASSWORD'')
                 else Inr s))"

definition resolve_socks5_password ::
  "surroundings \<Rightarrow> rstring option \<Rightarrow> rstring option \<Rightarrow> rstring option" where
  "resolve_socks5_password env username password =
     (case username of
        None \<Rightarrow> None
      | Some _ \<Rightarrow>
          let from_env = (case sr_var env HYDR_SOCKS5_PASSWORD of None \<Rightarrow> [] | Some v \<Rightarrow> trim v) in
          if from_env \<noteq> [] then Some from_env else password)"

subsection \<open>The server's file\<close>

record quic_file =
  qf_bind :: rstring
  qf_server_name :: rstring
  qf_cert :: "rstring option"
  qf_key :: "rstring option"

record ws_file =
  wf_bind :: rstring
  wf_path :: rstring
  wf_obfuscation :: "rstring option"

datatype hop_transport_file =
    Hop_quic_file rstring rstring bool "rstring option"
  | Hop_ws_file rstring bool "rstring option" "rstring option"

record next_hop_file =
  nf_password :: rstring
  nf_transport :: hop_transport_file

record server_file =
  sf_password :: "rstring option"
  sf_password_file :: "rstring option"
  sf_cc_rx :: "u64 option"
  sf_max_conns :: "nat option"
  sf_max_udp_sessions :: "nat option"
  sf_max_udp_sessions_per_ip :: "nat option"
  sf_metrics_bind :: "rstring option"
  sf_quic :: "quic_file option"
  sf_ws :: "ws_file option"
  sf_next_hop :: "next_hop_file option"

text \<open>\<open>load\<close>, the same for both programs; the mode of the file only makes it log a warning.\<close>

definition load :: "surroundings \<Rightarrow> (rstring \<Rightarrow> rstring + 'f) \<Rightarrow> rstring \<Rightarrow> rstring + 'f" where
  "load env from_yaml path = or_fail (sr_read env path) from_yaml"

definition unwrap_or :: "'a \<Rightarrow> 'a option \<Rightarrow> 'a" where
  "unwrap_or d x = (case x of None \<Rightarrow> d | Some y \<Rightarrow> y)"

text \<open>The message that a listener is missing, in UTF-8.\<close>

definition needs_listener :: rstring where
  "needs_listener =
     [0xD0, 0xBA, 0xD0, 0xBE, 0xD0, 0xBD, 0xD1, 0x84, 0xD0, 0xB8, 0xD0, 0xB3, 0x20, 0xD0, 0xB4, 0xD0,
      0xBE, 0xD0, 0xBB, 0xD0, 0xB6, 0xD0, 0xB5, 0xD0, 0xBD, 0x20, 0xD1, 0x81, 0xD0, 0xBE, 0xD0, 0xB4,
      0xD0, 0xB5, 0xD1, 0x80, 0xD0, 0xB6, 0xD0, 0xB0, 0xD1, 0x82, 0xD1, 0x8C, 0x20, 0x71, 0x75, 0x69,
      0x63, 0x20, 0xD0, 0xB8, 0xD0, 0xBB, 0xD0, 0xB8, 0x20, 0x77, 0x73, 0x20, 0xD1, 0x81, 0xD0, 0xBB,
      0xD1, 0x83, 0xD1, 0x88, 0xD0, 0xB0, 0xD1, 0x82, 0xD0, 0xB5, 0xD0, 0xBB, 0xD1, 0x8C]"

definition hop_transport ::
  "(rstring \<Rightarrow> rstring + socket_addr) \<Rightarrow> hop_transport_file \<Rightarrow> rstring + next_hop_transport" where
  "hop_transport parse t =
     (case t of
        Hop_quic_file addr server_name insecure fingerprint \<Rightarrow>
          or_fail (parse addr) (\<lambda>addr. Inr (HopQuic addr server_name insecure fingerprint))
      | Hop_ws_file url insecure obfuscation fingerprint \<Rightarrow> Inr (HopWs url insecure obfuscation fingerprint))"

definition server_main ::
  "surroundings \<Rightarrow> (rstring \<Rightarrow> rstring + socket_addr) \<Rightarrow> (rstring \<Rightarrow> rstring + server_file) \<Rightarrow> rstring
     \<Rightarrow> rstring + server_config" where
  "server_main env parse from_yaml path =
     or_fail (load env from_yaml path) (\<lambda>file.
     or_fail (resolve_password env (sf_password_file file) (sf_password file)) (\<lambda>password.
     or_fail (transpose_map (\<lambda>q. or_fail (parse (qf_bind q)) (\<lambda>bind.
         Inr \<lparr>ql_bind = bind, ql_server_name = qf_server_name q, ql_cert = qf_cert q, ql_key = qf_key q\<rparr>))
       (sf_quic file)) (\<lambda>quic.
     or_fail (transpose_map (\<lambda>w. or_fail (parse (wf_bind w)) (\<lambda>bind.
         Inr \<lparr>wl_bind = bind, wl_path = wf_path w, wl_obfuscation = wf_obfuscation w\<rparr>))
       (sf_ws file)) (\<lambda>ws.
     or_fail (transpose_map (\<lambda>n. or_fail (hop_transport parse (nf_transport n)) (\<lambda>transport.
         Inr \<lparr>nh_transport = transport, nh_password = nf_password n\<rparr>))
       (sf_next_hop file)) (\<lambda>next_hop.
     or_fail (transpose_map parse (sf_metrics_bind file)) (\<lambda>metrics_bind.
       let config =
         \<lparr>sc_password = password, sc_cc_rx = unwrap_or 0 (sf_cc_rx file), sc_quic = quic, sc_ws = ws,
          sc_next_hop = next_hop, sc_max_conns = unwrap_or 0 (sf_max_conns file),
          sc_max_udp_sessions = unwrap_or 0 (sf_max_udp_sessions file),
          sc_max_udp_sessions_per_ip = unwrap_or 0 (sf_max_udp_sessions_per_ip file),
          sc_metrics_bind = metrics_bind\<rparr>
       in if sc_quic config = None \<and> sc_ws config = None then Inl needs_listener else Inr config))))))"

subsection \<open>The client's file\<close>

datatype transport_file =
    Quic_file rstring rstring bool "rstring option"
  | Ws_file rstring bool "rstring option" "rstring option"

record client_file =
  cl_password :: "rstring option"
  cl_password_file :: "rstring option"
  cl_cc_rx :: "u64 option"
  cl_socks5_bind :: rstring
  cl_socks5_username :: "rstring option"
  cl_socks5_password :: "rstring option"
  cl_transport :: transport_file

definition client_resolve_password :: "surroundings \<Rightarrow> client_file \<Rightarrow> rstring + rstring" where
  "client_resolve_password env self = resolve_password env (cl_password_file self) (cl_password self)"

definition client_main ::
  "surroundings \<Rightarrow> (rstring \<Rightarrow> rstring + socket_addr) \<Rightarrow> (rstring \<Rightarrow> rstring + client_file) \<Rightarrow> rstring
     \<Rightarrow> rstring + client_config" where
  "client_main env parse from_yaml path =
     or_fail (load env from_yaml path) (\<lambda>file.
     or_fail (client_resolve_password env file) (\<lambda>password.
     let socks5_password = resolve_socks5_password env (cl_socks5_username file) (cl_socks5_password file);
         socks5_username = cl_socks5_username file in
     or_fail
       (case cl_transport file of
          Quic_file addr server_name insecure fingerprint \<Rightarrow>
            or_fail (parse addr) (\<lambda>addr. Inr (Quic_transport addr server_name insecure fingerprint))
        | Ws_file url insecure obfuscation fingerprint \<Rightarrow>
            Inr (Ws_transport url insecure obfuscation fingerprint)) (\<lambda>transport.
     or_fail (parse (cl_socks5_bind file)) (\<lambda>socks5_bind.
       Inr \<lparr>cf_transport = transport, cf_password = password, cf_cc_rx = unwrap_or 0 (cl_cc_rx file),
            cf_socks5_bind = socks5_bind, cf_socks5_username = socks5_username,
            cf_socks5_password = socks5_password\<rparr>))))"

subsection \<open>Lemmas\<close>

lemma resolve_password_trimmed:
  "resolve_password env password_file password = Inr p \<Longrightarrow> p \<noteq> [] \<and> trim p = p"
  by (auto simp: resolve_password_def Let_def trim_trim split: option.splits if_splits)

lemma server_main_password:
  assumes "server_main env parse from_yaml path = Inr config"
  shows "\<exists>file. load env from_yaml path = Inr file \<and>
    resolve_password env (sf_password_file file) (sf_password file) = Inr (sc_password config) \<and>
    (sc_quic config \<noteq> None \<or> sc_ws config \<noteq> None)"
  using assms by (auto simp: server_main_def Let_def split: if_splits)

lemma client_main_password:
  assumes "client_main env parse from_yaml path = Inr config"
  shows "\<exists>file. load env from_yaml path = Inr file \<and>
    resolve_password env (cl_password_file file) (cl_password file) = Inr (cf_password config)"
  using assms by (auto simp: client_main_def client_resolve_password_def Let_def)

text \<open>A password file, if there is one, is the only source, and it is private to its owner.\<close>

lemma resolve_password_file:
  assumes "resolve_password env (Some file) password = Inr p"
  shows "\<exists>mode contents. sr_mode env file = Inr mode \<and> mode AND 0x3F = 0 \<and>
    sr_read env file = Inr contents \<and> p = trim contents"
proof -
  have "(mode AND 0x1FF) AND 0x3F = mode AND 0x3F" for mode :: u32
    by (simp add: and.assoc)
  with assms show ?thesis by (auto simp: resolve_password_def Let_def split: if_splits)
qed

lemma fresh_server_validates:
  assumes "genuine derive keyed (sc_password config) req"
  shows "fst (validate derive keyed now m (server_new config :: ('s, 'h) server) req) =
    Ok (auth_response_ok (sc_cc_rx config) FEATURE_UDP)"
  using assms
  by (simp add: validate_cases server_new_def Let_def nonce_insert_def nonce_cache_new_def evict_expired_def
      split_beta)

subsection \<open>Properties\<close>

text \<open>Samples: a password file with a newline at the end, and a configuration with white space.\<close>

definition sample_env :: surroundings where
  "sample_env =
     \<lparr>sr_mode = (\<lambda>p. Inr 0x180), sr_read = (\<lambda>p. Inr (lit ''pw'' @ [10])), sr_var = (\<lambda>v. None)\<rparr>"

definition sample_server_file :: server_file where
  "sample_server_file =
     \<lparr>sf_password = None, sf_password_file = Some [1], sf_cc_rx = Some 7, sf_max_conns = None,
      sf_max_udp_sessions = None, sf_max_udp_sessions_per_ip = None, sf_metrics_bind = None,
      sf_quic = None, sf_ws = Some \<lparr>wf_bind = [2], wf_path = [], wf_obfuscation = None\<rparr>, sf_next_hop = None\<rparr>"

definition sample_server_config :: server_config where
  "sample_server_config =
     \<lparr>sc_password = lit ''pw'', sc_cc_rx = 7, sc_quic = None,
      sc_ws = Some \<lparr>wl_bind = (V4 1, 80), wl_path = [], wl_obfuscation = None\<rparr>, sc_next_hop = None,
      sc_max_conns = 0, sc_max_udp_sessions = 0, sc_max_udp_sessions_per_ip = 0, sc_metrics_bind = None\<rparr>"

definition sample_client_file :: client_file where
  "sample_client_file =
     \<lparr>cl_password = Some (lit '' pw''), cl_password_file = None, cl_cc_rx = None, cl_socks5_bind = [2],
      cl_socks5_username = None, cl_socks5_password = None,
      cl_transport = Ws_file (lit ''wss://h'') False None None\<rparr>"

definition sample_client_config :: client_config where
  "sample_client_config =
     \<lparr>cf_transport = Ws_transport (lit ''wss://h'') False None None, cf_password = lit ''pw'', cf_cc_rx = 0,
      cf_socks5_bind = (V4 1, 80), cf_socks5_username = None, cf_socks5_password = None\<rparr>"

lemma sample_trims: "trim (lit ''pw'' @ [10]) = lit ''pw''" "trim (lit '' pw'') = lit ''pw''"
  by code_simp+

lemma lit_eq_Nil: "lit s = [] \<longleftrightarrow> s = []"
  by (simp add: lit_def)

lemma sample_server_starts:
  "server_main sample_env (\<lambda>a. Inr (V4 1, 80)) (\<lambda>t. Inr sample_server_file) [] = Inr sample_server_config"
  by (simp add: server_main_def load_def sample_env_def sample_server_file_def sample_server_config_def
      resolve_password_def transpose_map_def unwrap_or_def sample_trims lit_eq_Nil Let_def)

lemma sample_client_starts:
  "client_main sample_env (\<lambda>a. Inr (V4 1, 80)) (\<lambda>t. Inr sample_client_file) [] = Inr sample_client_config"
  by (simp add: client_main_def client_resolve_password_def load_def sample_env_def sample_client_file_def sample_client_config_def
      resolve_password_def resolve_socks5_password_def unwrap_or_def sample_trims lit_eq_Nil Let_def)

text \<open>
  (C22) The password a server starts with is a proper one: never empty, without white space at the ends,
  and if a password file is configured then it is the contents of that file, which nobody but its
  owner may access, whatever the environment and the configuration say; and the server has a
  listener.
\<close>

theorem server_starts_with_proper_password:
  assumes "server_main env parse from_yaml path = Inr config"
  shows "sc_password config \<noteq> [] \<and> trim (sc_password config) = sc_password config \<and>
    (sc_quic config \<noteq> None \<or> sc_ws config \<noteq> None) \<and>
    (\<forall>file p. load env from_yaml path = Inr file \<longrightarrow> sf_password_file file = Some p \<longrightarrow>
      (\<exists>mode contents. sr_mode env p = Inr mode \<and> mode AND 0x3F = 0 \<and>
        sr_read env p = Inr contents \<and> sc_password config = trim contents))"
proof -
  from server_main_password [OF assms] obtain sfile where
    loaded: "load env from_yaml path = Inr sfile"
    and p: "resolve_password env (sf_password_file sfile) (sf_password sfile) = Inr (sc_password config)"
    and "sc_quic config \<noteq> None \<or> sc_ws config \<noteq> None"
    by auto
  with resolve_password_trimmed [OF p] resolve_password_file [of env _ "sf_password sfile"] show ?thesis
    by auto
qed

theorem server_starts_with_proper_password_witness:
  "sc_password sample_server_config \<noteq> [] \<and> trim (sc_password sample_server_config) = lit ''pw''"
  using server_starts_with_proper_password [OF sample_server_starts]
  by (simp add: sample_server_config_def)

text \<open>The text the password is taken from, before white space is removed.\<close>

definition configured_secret :: "surroundings \<Rightarrow> rstring option \<Rightarrow> rstring option \<Rightarrow> rstring option" where
  "configured_secret env password_file password =
     (case password_file of
        Some p \<Rightarrow> (case sr_read env p of Inl e \<Rightarrow> None | Inr s \<Rightarrow> Some s)
      | None \<Rightarrow>
          (case sr_var env HYDR_PASSWORD of
             None \<Rightarrow> password
           | Some v \<Rightarrow> if trim v \<noteq> [] then Some v else password))"

lemma resolve_password_secret:
  "resolve_password env password_file password = Inr p \<Longrightarrow>
     \<exists>s. configured_secret env password_file password = Some s \<and> p = trim s"
  by (auto simp: resolve_password_def configured_secret_def Let_def split: option.splits if_splits)

text \<open>
  (C21) Two configuration files with the same password make a working pair: if the server and the
  client start, each with its password from a file, the environment or the configuration, and the
  two texts agree up to white space at the ends, then the server authenticates the request of the
  client.
\<close>

theorem matching_files_authenticate:
  assumes "server_main env parse from_yaml path = Inr sconfig"
    and "client_main env' parse' from_yaml' path' = Inr cconfig"
    and "load env from_yaml path = Inr sfile" and "load env' from_yaml' path' = Inr cfile"
    and "configured_secret env (sf_password_file sfile) (sf_password sfile) = Some secret"
    and "configured_secret env' (cl_password_file cfile) (cl_password cfile) = Some secret'"
    and "trim secret = trim secret'"
    and "new_password derive keyed (cf_password cconfig) (cf_cc_rx cconfig) FEATURE_UDP (Some nonce) = Ok req"
    and "8 \<le> length nonce"
  shows "fst (validate derive keyed now m (server_new sconfig :: ('s, 'h) server) req) =
    Ok (auth_response_ok (sc_cc_rx sconfig) FEATURE_UDP)"
proof -
  have "sc_password sconfig = trim secret"
    using server_main_password [OF assms(1)] assms(3,5) by (auto dest: resolve_password_secret)
  moreover have "cf_password cconfig = trim secret'"
    using client_main_password [OF assms(2)] assms(4,6) by (auto dest: resolve_password_secret)
  ultimately have "genuine derive keyed (sc_password sconfig) req"
    using assms(7-9) by (auto simp: new_password_def new_password_with_nonce_def genuine_def)
  then show ?thesis by (rule fresh_server_validates)
qed

theorem matching_files_authenticate_witness:
  "\<exists>req. new_password (\<lambda>c k. k) (\<lambda>k m. k @ m) (lit ''pw'') 0 FEATURE_UDP (Some (replicate 8 1)) = Ok req \<and>
     fst (validate (\<lambda>c k. k) (\<lambda>k m. k @ m) 5 metrics_new (server_new sample_server_config :: (nat, nat) server) req) =
       Ok (auth_response_ok 7 FEATURE_UDP)"
proof -
  obtain req where req: "new_password (\<lambda>c k. k) (\<lambda>k m. k @ m) (lit ''pw'') 0 FEATURE_UDP (Some (replicate 8 1)) = Ok req"
    by (simp add: new_password_def new_password_with_nonce_def)
  have "fst (validate (\<lambda>c k. k) (\<lambda>k m. k @ m) 5 metrics_new (server_new sample_server_config :: (nat, nat) server) req) =
      Ok (auth_response_ok (sc_cc_rx sample_server_config) FEATURE_UDP)"
  proof (rule matching_files_authenticate [OF sample_server_starts sample_client_starts,
        where sfile = sample_server_file and cfile = sample_client_file
        and secret = "lit ''pw'' @ [10]" and secret' = "lit '' pw''" and nonce = "replicate 8 1"])
    show "new_password (\<lambda>c k. k) (\<lambda>k m. k @ m) (cf_password sample_client_config)
        (cf_cc_rx sample_client_config) FEATURE_UDP (Some (replicate 8 1)) = Ok req"
      using req by (simp add: sample_client_config_def)
  qed (simp_all add: load_def configured_secret_def sample_env_def sample_server_file_def
      sample_client_file_def sample_trims)
  with req show ?thesis by (simp add: sample_server_config_def)
qed

text \<open>
  A SOCKS5 user name without a password is no error: the proxy then asks for a login and accepts the
  empty password.
\<close>

theorem missing_socks5_password_is_empty:
  assumes "client_main env parse from_yaml path = Inr config" and "load env from_yaml path = Inr cfile"
    and "cl_socks5_username cfile = Some user" and "cl_socks5_password cfile = None"
    and "sr_var env HYDR_SOCKS5_PASSWORD = None"
    and "user \<noteq> []" and "length user < 256" and "bi_write_error s = None"
    and "bi_recv s = [5, 1, METHOD_USERPASS] @ rfc1929_login user [] @ rest"
  shows "\<exists>s'. socks_login (cf_socks5_username config) (cf_socks5_password config) s = (Ok (), s') \<and> bi_recv s' = rest"
proof -
  have c: "cf_socks5_username config = Some user" "cf_socks5_password config = None"
    using assms(1-5) by (auto simp: client_main_def resolve_socks5_password_def Let_def)
  have n: "unat (of_nat (length user) :: u8) = length user" using assms(7) by (simp add: unat_of_nat)
  let ?s1 = "s\<lparr>bi_recv := rfc1929_login user [] @ rest, bi_sent := bi_sent s @ [5, METHOD_USERPASS]\<rparr>"
  have "negotiate_method True s = (Ok (Some METHOD_USERPASS), ?s1)"
    using assms(8,9)
    by (simp add: negotiate_method_def op_bind_def read_exact_def write_all_def Let_def)
  moreover have "verify_userpass user [] ?s1 = (Ok True, ?s1\<lparr>bi_recv := rest, bi_sent := bi_sent ?s1 @ [1, 0]\<rparr>)"
    using assms(6-8) n
    by (simp add: verify_userpass_def rfc1929_login_def op_bind_def read_exact_def write_all_def ct_eq_iff Let_def)
  ultimately show ?thesis by (simp add: c socks_login_def op_bind_def)
qed

end
