(* ===== verification/Server_Tunnels.thy ===== *)
theory Server_Tunnels
  imports Server_Auth Dialing
begin

section \<open>The server at work\<close>

text \<open>
  The rest of \<open>src/crates/hydr-server/src/lib.rs\<close>: accepting a connection, the life of a tunnel with
  its permit and its connection to the next hop, the streams and datagrams inside a tunnel, and the
  reloading of the certificate. The state is the record \<open>server\<close>; the handle \<open>'h\<close> of a tunnel is
  opaque, as are the TCP connections the server makes.
\<close>

subsection \<open>Reaching the target\<close>

text \<open>
  \<open>resolve\<close> under the timeout of ten seconds: what connecting to an address came to.
\<close>

datatype tcp_outcome = Tcp_connected | Tcp_error rstring | Tcp_timeout

definition connect_peer ::
  "('h \<Rightarrow> address \<Rightarrow> unit result) \<Rightarrow> (address \<Rightarrow> tcp_outcome) \<Rightarrow> ('s, 'h) server \<Rightarrow> address \<Rightarrow> unit result" where
  "connect_peer open_downstream tcp self addr =
     (if sc_next_hop (sv_config self) \<noteq> None then
        (case sv_downstream self of
           None \<Rightarrow> Fail (InvalidData (lit ''no next hop''))
         | Some downstream \<Rightarrow> open_downstream downstream addr)
      else
        (case tcp addr of
           Tcp_timeout \<Rightarrow> Fail (Message (lit ''connect timeout''))
         | Tcp_error e \<Rightarrow> Fail (Message (lit ''connect: '' @ e))
         | Tcp_connected \<Rightarrow> Ok ()))"

text \<open>
  \<open>handle_stream\<close> up to the copying: whether it relays. \<open>respond\<close> is \<open>reply_with_code\<close> of the
  accepted stream.
\<close>

definition handle_stream ::
  "('h \<Rightarrow> address \<Rightarrow> unit result) \<Rightarrow> (address \<Rightarrow> tcp_outcome) \<Rightarrow>
   (u8 \<Rightarrow> u8 \<Rightarrow> bytes \<Rightarrow> 'a \<Rightarrow> unit result \<times> 'a) \<Rightarrow> ('s, 'h) server \<Rightarrow> address \<Rightarrow> 'a \<Rightarrow> bool result \<times> 'a" where
  "handle_stream open_downstream tcp respond self addr acc =
     (case connect_peer open_downstream tcp self addr of
        Inl Panic \<Rightarrow> (Crash, acc)
      | Inl (Err e) \<Rightarrow>
          (Ok False, snd (respond STATUS_ERR ERR_CONNECT_FAILED (error_to_string e) acc))
      | Inr _ \<Rightarrow>
          (case respond STATUS_OK ERR_NONE [] acc of
             (Inl Panic, acc) \<Rightarrow> (Crash, acc)
           | (Inl (Err e), acc) \<Rightarrow> (Ok False, acc)
           | (Inr _, acc) \<Rightarrow> (Ok True, acc)))"

text \<open>
  \<open>handle_datagram\<close>; the record of the UDP manager's surroundings is what \<open>forward_datagram\<close> takes.
\<close>

definition handle_datagram ::
  "('h \<Rightarrow> datagram \<Rightarrow> unit result) \<Rightarrow>
   ('s udp_manager \<Rightarrow> 'u \<Rightarrow> ip_addr \<Rightarrow> datagram \<Rightarrow> unit result \<times> 's udp_manager) \<Rightarrow>
   ('s, 'h) server \<Rightarrow> 'u \<Rightarrow> ip_addr \<Rightarrow> datagram \<Rightarrow> unit result \<times> ('s, 'h) server" where
  "handle_datagram send_downstream fwd self upstream client_ip dg =
     (if sc_next_hop (sv_config self) \<noteq> None then
        (case sv_downstream self of
           None \<Rightarrow> (Fail (InvalidData (lit ''no next hop'')), self)
         | Some downstream \<Rightarrow> (send_downstream downstream dg, self))
      else
        (let (r, udp) = fwd (sv_udp self) upstream client_ip dg in (r, self\<lparr>sv_udp := udp\<rparr>)))"

subsection \<open>The life of a tunnel\<close>

text \<open>
  \<open>connect_next_hop\<close>: the client side of a tunnel to the configured server; \<open>unwrap\<close> on a missing
  hop is a panic.
\<close>

definition connect_next_hop ::
  "derive_key_fn \<Rightarrow> keyed_hash_fn \<Rightarrow> hash_fn \<Rightarrow> quinn_config \<Rightarrow> nat \<Rightarrow> ('q, 'w) network \<Rightarrow> bytes option
     \<Rightarrow> ('s, 'h) server \<Rightarrow> ('q, 'w) tunnel result" where
  "connect_next_hop derive keyed hash default_cfg mem net random self =
     (case sc_next_hop (sv_config self) of
        None \<Rightarrow> Crash
      | Some hop \<Rightarrow>
          and_then (new_password derive keyed (nh_password hop) 0 FEATURE_UDP random) (\<lambda>auth.
          case nh_transport hop of
            HopQuic addr server_name insecure fingerprint \<Rightarrow>
              and_then (require_fingerprint fingerprint) (\<lambda>pin.
              and_then (quic_connect_with_tls mem net addr server_name insecure pin
                  (Some (default_transport_config default_cfg)) auth) (\<lambda>q.
              Ok (Quic_tunnel q)))
          | HopWs url insecure obfuscation fingerprint \<Rightarrow>
              and_then (require_fingerprint fingerprint) (\<lambda>pin.
              let ob = map_option (obfuscator_new hash) obfuscation in
              and_then (ws_connect_with_tls net url insecure pin auth ob) (\<lambda>w.
              Ok (Ws_tunnel w)))))"

datatype 'h tunnel_start = Rejected | Hop_failed | Serving "'h option"

text \<open>
  \<open>handle_tunnel\<close> up to its loop, with the outcome \<open>hop\<close> of \<open>connect_next_hop\<close>. \<open>Serving (Some h)\<close>
  says that a task was spawned which brings the datagrams of \<open>h\<close> to this tunnel. If connecting
  panics, the permit goes back as the task is torn down, but the counter of active tunnels stays.
\<close>

definition start_tunnel :: "'h result \<Rightarrow> ('s, 'h) server \<Rightarrow> 'h tunnel_start result \<times> ('s, 'h) server" where
  "start_tunnel hop self =
     (let self = self\<lparr>sv_next_tunnel_id := sv_next_tunnel_id self + 1\<rparr>;
          (taken, self) = try_take_conn self
      in if \<not> taken then (Ok Rejected, self)
         else if sc_next_hop (sv_config self) \<noteq> None then
           (case hop of
              Inl Panic \<Rightarrow> (Crash, self\<lparr>sv_conn_permits := sv_conn_permits self + 1\<rparr>)
            | Inl (Err e) \<Rightarrow> (Ok Hop_failed, release_conn self)
            | Inr downstream \<Rightarrow>
                (Ok (Serving (Some downstream)), self\<lparr>sv_downstream := Some downstream\<rparr>))
         else (Ok (Serving None), self))"

text \<open>The metrics of an event of a tunnel, before its task is spawned.\<close>

datatype server_event = Stream_event address | Datagram_event datagram

definition count_event :: "metrics \<Rightarrow> server_event \<Rightarrow> metrics" where
  "count_event m ev =
     (case ev of
        Stream_event addr \<Rightarrow> m\<lparr>mt_streams_opened := mt_streams_opened m + 1\<rparr>
      | Datagram_event dg \<Rightarrow> m\<lparr>mt_datagrams_rx := mt_datagrams_rx m + 1\<rparr>)"

subsection \<open>Accepting a connection\<close>

text \<open>
  One connection of \<open>run_quic_endpoint\<close>, up to the tunnel: the rate limiter, quinn's own handshake
  (\<open>bi\<close> is the first stream, or nothing), and hydr's handshake with \<open>validate\<close>. The time of the
  check and of the validation are arguments.
\<close>

datatype quic_outcome = Rate_limited | Handshake_failed | Tunnel_ready auth_request

definition accept_quic ::
  "derive_key_fn \<Rightarrow> keyed_hash_fn \<Rightarrow> nat \<Rightarrow> nat \<Rightarrow> nat \<Rightarrow> metrics \<Rightarrow> ip_addr \<Rightarrow> bi_stream result \<Rightarrow> ('s, 'h) server
     \<Rightarrow> quic_outcome result \<times> metrics \<times> ('s, 'h) server" where
  "accept_quic derive keyed mem now now' m ip bi self =
     (let (allowed, self) = server_rate_allow now self ip in
      if \<not> allowed then (Ok Rate_limited, m\<lparr>mt_auth_rate_limited := mt_auth_rate_limited m + 1\<rparr>, self)
      else
        case bi of
          Inl Panic \<Rightarrow> (Crash, m, self)
        | Inl (Err e) \<Rightarrow> (Ok Handshake_failed, m, self)
        | Inr s \<Rightarrow>
            (let ((r, m, self), s) = server_handshake mem (\<lambda>(m, self) r. validate derive keyed now' m self r) (m, self) s
             in case r of
                  Inl Panic \<Rightarrow> (Crash, m, self)
                | Inl (Err e) \<Rightarrow> (Ok Handshake_failed, m, self)
                | Inr req \<Rightarrow> (Ok (Tunnel_ready req), m, self)))"

text \<open>
  \<open>accept_with_obfuscation\<close> of the WebSocket side: the path check during the library's upgrade
  (\<open>Inr\<close> is the requested path, \<open>refused\<close> the library's error for a refusal), then the connection
  loop on the inputs \<open>inps\<close> until the first answered request of the control stream. \<open>None\<close>: no answer
  so far. If the loop ends or panics before, the one-shot channel is closed. The counters of the
  obfuscator and of the validator are different ones, so they are threaded apart.
\<close>

definition accept_with_obfuscation ::
  "hash_fn \<Rightarrow> keyed_hash_fn \<Rightarrow> 'v validator \<Rightarrow> (rstring \<Rightarrow> rstring) \<Rightarrow> rstring + rstring \<Rightarrow> rstring \<Rightarrow>
   obfuscator option \<Rightarrow> bool \<Rightarrow> (bool \<times> bool \<times> run_input) list \<Rightarrow> 'v \<Rightarrow> auth_request result option \<times> 'v" where
  "accept_with_obfuscation hash keyed vd refused upgrade path obfuscation mux inps v =
     (case upgrade of
        Inl e \<Rightarrow> (Some (Fail (to_io_error e)), v)
      | Inr uri_path \<Rightarrow>
          case check_path path uri_path of
            Some body \<Rightarrow> (Some (Fail (to_io_error (refused body))), v)
          | None \<Rightarrow>
              case run_loop hash keyed (Some vd) inps
                     \<lparr>rs_conn = server_conn mux, rs_ob = obfuscation, rs_metrics = metrics_new, rs_validator = v\<rparr> of
                Inl e \<Rightarrow> (Some (Fail StreamClosed), v)
              | Inr (go, effs, s) \<Rightarrow>
                  ((case accept_outcome effs of
                      Some req \<Rightarrow> Some (Ok req)
                    | None \<Rightarrow> if go then None else Some (Fail StreamClosed)),
                   rs_validator s))"

text \<open>
  One connection of \<open>run_ws_listener\<close>; \<open>inps\<close> is what reached the loop within the ten seconds of the
  timeout.
\<close>

definition accept_ws ::
  "derive_key_fn \<Rightarrow> keyed_hash_fn \<Rightarrow> hash_fn \<Rightarrow> nat \<Rightarrow> nat \<Rightarrow> metrics \<Rightarrow> ip_addr \<Rightarrow> (rstring \<Rightarrow> rstring) \<Rightarrow>
   rstring + rstring \<Rightarrow> rstring \<Rightarrow> rstring option \<Rightarrow> (bool \<times> bool \<times> run_input) list \<Rightarrow> ('s, 'h) server
     \<Rightarrow> quic_outcome \<times> metrics \<times> ('s, 'h) server" where
  "accept_ws derive keyed hash now now' m ip refused upgrade path obfuscation inps self =
     (let (allowed, self) = server_rate_allow now self ip in
      if \<not> allowed then (Rate_limited, m\<lparr>mt_auth_rate_limited := mt_auth_rate_limited m + 1\<rparr>, self)
      else
        let ob = map_option (obfuscator_new hash) obfuscation;
            val = (\<lambda>(m, self) r. validate derive keyed now' m self r);
            (handshake, m, self) =
              accept_with_obfuscation hash keyed val refused upgrade path ob False inps (m, self)
        in case handshake of
             Some (Inr req) \<Rightarrow> (Tunnel_ready req, m, self)
           | Some (Inl e) \<Rightarrow> (Handshake_failed, m, self)
           | None \<Rightarrow> (Handshake_failed, m, self))"

text \<open>\<open>run\<close>: which listeners it starts, in order; none is an error.\<close>

datatype listener = Quic_listener quic_listen | Ws_listener ws_listen | Metrics_listener socket_addr

definition run_listeners :: "server_config \<Rightarrow> listener list result" where
  "run_listeners config =
     (let handles =
        (case sc_quic config of None \<Rightarrow> [] | Some q \<Rightarrow> [Quic_listener q]) @
        (case sc_ws config of None \<Rightarrow> [] | Some w \<Rightarrow> [Ws_listener w]) @
        (case sc_metrics_bind config of None \<Rightarrow> [] | Some b \<Rightarrow> [Metrics_listener b])
      in if handles = [] then Fail (InvalidData (lit ''no listeners configured'')) else Ok handles)"

subsection \<open>Reloading the certificate\<close>

text \<open>
  One turn of the loop of \<open>spawn_cert_reload\<close>: a signal or a tick, the time of the file's last change,
  what loading the files gave. \<open>build\<close> makes the QUIC configuration \<open>'q\<close> of a certificate.
\<close>

record 'q reloader =
  re_last_mtime :: "nat option"
  re_current_fp :: bytes
  re_served :: 'q

definition reload_turn ::
  "(bytes \<Rightarrow> bytes) \<Rightarrow> (generated_cert \<Rightarrow> rstring + 'q) \<Rightarrow> bool \<Rightarrow> nat option \<Rightarrow> rstring + generated_cert
     \<Rightarrow> 'q reloader \<Rightarrow> 'q reloader" where
  "reload_turn sha256 build hup mtime loaded s =
     (if \<not> hup \<and> mtime = re_last_mtime s then s
      else
        let s = s\<lparr>re_last_mtime := mtime\<rparr> in
        case loaded of
          Inl e \<Rightarrow> s
        | Inr g \<Rightarrow>
            let fp = cert_fingerprint sha256 (gc_cert g) in
            if fp = re_current_fp s then s
            else
              (case build g of
                 Inl e \<Rightarrow> s
               | Inr cfg \<Rightarrow> s\<lparr>re_served := cfg, re_current_fp := fp\<rparr>))"

text \<open>
  \<open>run_quic\<close> up to the accept loop: load or generate the certificate, build the configuration, bind
  the endpoint (\<open>bind\<close> says how that fails), and watch the files when the listener has both paths.
  The reloading task starts with no file time, so its first tick loads the files again.
\<close>

datatype 'q quic_start = Listen_failed rstring | Listening 'q bytes | Reloading "'q reloader"

definition run_quic_start ::
  "(bytes \<Rightarrow> rstring) \<Rightarrow> (rstring \<Rightarrow> rstring + bytes) \<Rightarrow> (rstring \<Rightarrow> rstring + bytes) \<Rightarrow>
   (rstring \<Rightarrow> rstring + generated_cert) \<Rightarrow> (rstring \<Rightarrow> write_fault option) \<Rightarrow> (bytes \<Rightarrow> bytes) \<Rightarrow>
   (generated_cert \<Rightarrow> rstring + 'q) \<Rightarrow> ('q \<Rightarrow> socket_addr \<Rightarrow> rstring option) \<Rightarrow> quic_listen \<Rightarrow> files
     \<Rightarrow> 'q quic_start \<times> files" where
  "run_quic_start base64 read_cert read_key generate faults sha256 build bind cfg files =
     (case load_or_generate base64 read_cert read_key (generate (ql_server_name cfg)) faults
             (ql_cert cfg) (ql_key cfg) files of
        (Inl e, files) \<Rightarrow> (Listen_failed e, files)
      | (Inr cert, files) \<Rightarrow>
          (let fp = cert_fingerprint sha256 (gc_cert cert)
           in case build cert of
                Inl e \<Rightarrow> (Listen_failed e, files)
              | Inr quinn_cfg \<Rightarrow>
                  (case bind quinn_cfg (ql_bind cfg) of
                     Some e \<Rightarrow> (Listen_failed e, files)
                   | None \<Rightarrow>
                       (if ql_cert cfg \<noteq> None \<and> ql_key cfg \<noteq> None
                        then Reloading \<lparr>re_last_mtime = None, re_current_fp = fp, re_served = quinn_cfg\<rparr>
                        else Listening quinn_cfg fp, files))))"

subsection \<open>All tunnels together\<close>

text \<open>
  The server with its open tunnels, each with the next hop its replies come from, and the number of
  tunnels lost to a panic. Tunnels open and end, and requests are checked, in any order.
\<close>

record ('s, 'h) tunnels =
  tn_server :: "('s, 'h) server"
  tn_open :: "'h option list"
  tn_panicked :: nat

datatype 'h tunnels_input =
    Opens "'h result"
  | Ends nat
  | Validates nat auth_request
  | Rate_checks nat ip_addr

definition max_tunnels :: "server_config \<Rightarrow> nat" where
  "max_tunnels config = (if sc_max_conns config = 0 then DEFAULT_MAX_CONNS else sc_max_conns config)"

fun tunnels_step ::
  "derive_key_fn \<Rightarrow> keyed_hash_fn \<Rightarrow> ('s, 'h) tunnels \<Rightarrow> 'h tunnels_input \<Rightarrow> ('s, 'h) tunnels" where
  "tunnels_step derive keyed t (Opens hop) =
     (let (r, self) = start_tunnel hop (tn_server t); t = t\<lparr>tn_server := self\<rparr>
      in case r of
           Inr (Serving h) \<Rightarrow> t\<lparr>tn_open := tn_open t @ [h]\<rparr>
         | Inr _ \<Rightarrow> t
         | Inl _ \<Rightarrow> t\<lparr>tn_panicked := tn_panicked t + 1\<rparr>)"
| "tunnels_step derive keyed t (Ends k) =
     (if k < length (tn_open t)
      then t\<lparr>tn_server := release_conn (tn_server t), tn_open := take k (tn_open t) @ drop (Suc k) (tn_open t)\<rparr>
      else t)"
| "tunnels_step derive keyed t (Validates now req) =
     t\<lparr>tn_server := snd (snd (validate derive keyed now metrics_new (tn_server t) req))\<rparr>"
| "tunnels_step derive keyed t (Rate_checks now ip) =
     t\<lparr>tn_server := snd (server_rate_allow now (tn_server t) ip)\<rparr>"

definition tunnels_run ::
  "derive_key_fn \<Rightarrow> keyed_hash_fn \<Rightarrow> server_config \<Rightarrow> 'h tunnels_input list \<Rightarrow> ('s, 'h) tunnels" where
  "tunnels_run derive keyed config es =
     foldl (tunnels_step derive keyed)
       \<lparr>tn_server = server_new config, tn_open = [], tn_panicked = 0\<rparr> es"

definition tunnels_inv :: "server_config \<Rightarrow> ('s, 'h) tunnels \<Rightarrow> bool" where
  "tunnels_inv config t \<longleftrightarrow>
     sv_config (tn_server t) = config \<and>
     sv_conn_permits (tn_server t) + length (tn_open t) = max_tunnels config \<and>
     sv_conns_active (tn_server t) = of_nat (length (tn_open t) + tn_panicked t)"

lemma validate_frame:
  "sv_config (snd (snd (validate derive keyed now m self req))) = sv_config self \<and>
   sv_conn_permits (snd (snd (validate derive keyed now m self req))) = sv_conn_permits self \<and>
   sv_conns_active (snd (snd (validate derive keyed now m self req))) = sv_conns_active self \<and>
   sv_downstream (snd (snd (validate derive keyed now m self req))) = sv_downstream self"
  by (auto simp: validate_def nonce_seen_def Let_def split_beta)

lemma server_rate_allow_frame:
  "snd (server_rate_allow now self ip) = self\<lparr>sv_auth_attempts := sv_auth_attempts (snd (server_rate_allow now self ip))\<rparr>"
  by (simp add: server_rate_allow_def split_beta Let_def)

lemma tunnels_step_inv: "tunnels_inv config t \<Longrightarrow> tunnels_inv config (tunnels_step derive keyed t e)"
proof (cases e)
  case (Opens hop)
  assume "tunnels_inv config t"
  with Opens show ?thesis
    by (auto simp: tunnels_inv_def start_tunnel_def try_take_conn_def release_conn_def Let_def
        split: sum.splits failure.splits)
next
  case (Ends k)
  assume "tunnels_inv config t"
  with Ends show ?thesis by (auto simp: tunnels_inv_def release_conn_def of_nat_diff)
next
  case (Validates now req)
  assume "tunnels_inv config t"
  with Validates validate_frame [of derive keyed now metrics_new "tn_server t" req] show ?thesis
    by (simp add: tunnels_inv_def)
next
  case (Rate_checks now ip)
  assume "tunnels_inv config t"
  with Rate_checks show ?thesis
    by (simp add: tunnels_inv_def server_rate_allow_def split_beta Let_def)
qed

lemma tunnels_foldl_inv: "tunnels_inv config t \<Longrightarrow> tunnels_inv config (foldl (tunnels_step derive keyed) t es)"
  by (induction es arbitrary: t) (auto intro: tunnels_step_inv simp del: tunnels_step.simps)

lemma tunnels_run_inv: "tunnels_inv config (tunnels_run derive keyed config es)"
  unfolding tunnels_run_def
  by (rule tunnels_foldl_inv) (simp add: tunnels_inv_def server_new_def max_tunnels_def Let_def)

subsection \<open>The handshake and what follows it\<close>

lemma server_handshake_ready:
  assumes "wf_auth_request req" "length (encode_auth_request [] req) \<le> mem" "mem < 2 ^ 62"
    and "bi_recv s = framed (encode_auth_request [] req)" "bi_write_error s = None"
    and "vf v req = (Ok resp, v')"
  shows "fst (server_handshake mem vf v s) = (Ok req, v')"
  using server_reads_request [OF assms(1-4)] assms(5,6)
  by (simp add: server_handshake_def write_len_prefixed_run)

lemma validate_returns: "\<exists>resp m' self'. validate derive keyed now m self req = (Ok resp, m', self')"
  by (auto simp: validate_def Let_def split_beta)

text \<open>The error of a failing connection, as the client sees it.\<close>

definition tcp_answer :: "tcp_outcome \<Rightarrow> unit result" where
  "tcp_answer t =
     (case t of
        Tcp_connected \<Rightarrow> Ok ()
      | Tcp_error e \<Rightarrow> Fail (Message (code_message ERR_CONNECT_FAILED (from_utf8_lossy (lit ''connect: '' @ e))))
      | Tcp_timeout \<Rightarrow> Fail (Message (code_message ERR_CONNECT_FAILED (from_utf8_lossy (lit ''connect timeout'')))))"

subsection \<open>Properties\<close>

text \<open>
  The number of open tunnels never exceeds the configured limit, whatever tunnels open and end
  and whatever requests are checked in between: the free permits and the open tunnels always add up
  to the limit, and the counter of active tunnels is exact as long as no task panicked.
\<close>

theorem tunnels_within_limit:
  fixes es :: "nat tunnels_input list"
  shows "let t = (tunnels_run derive keyed config es :: (nat, nat) tunnels)
    in length (tn_open t) \<le> max_tunnels config \<and>
    sv_conn_permits (tn_server t) + length (tn_open t) = max_tunnels config \<and>
    sv_conns_active (tn_server t) = of_nat (length (tn_open t) + tn_panicked t)"
proof -
  have "tunnels_inv config (tunnels_run derive keyed config es :: (nat, nat) tunnels)"
    by (rule tunnels_run_inv)
  then show ?thesis unfolding Let_def tunnels_inv_def by auto
qed

text \<open>
  (C4) The QUIC login is not enforced: a client whose request is not genuine (a wrong password, say)
  gets a tunnel all the same. The refusal is written to the client, but \<open>server_handshake\<close> does not
  look at it, and the server goes on to serve the tunnel and connects to any address it is asked for.
\<close>

theorem quic_login_not_enforced:
  assumes "\<not> genuine derive keyed (sc_password (sv_config self)) req"
    and "wf_auth_request req" and "length (encode_auth_request [] req) \<le> mem" and "mem < 2 ^ 62"
    and "bi_recv s = framed (encode_auth_request [] req)" and "bi_write_error s = None"
    and "fst (server_rate_allow now self ip)" and "0 < sv_conn_permits self"
    and "sc_next_hop (sv_config self) = None"
  shows "\<exists>m' self' self''.
    accept_quic derive keyed mem now now' m ip (Ok s) self = (Ok (Tunnel_ready req), m', self') \<and>
    start_tunnel hop self' = (Ok (Serving None), self'') \<and>
    (\<forall>addr. tcp addr = Tcp_connected \<longrightarrow> connect_peer open_downstream tcp self'' addr = Ok ())"
proof -
  obtain self1 where 1: "server_rate_allow now self ip = (True, self1)"
    using assms(7) by (cases "server_rate_allow now self ip") auto
  then have s1: "sv_config self1 = sv_config self" "sv_conn_permits self1 = sv_conn_permits self"
    by (auto simp: server_rate_allow_def split_beta Let_def)
  obtain resp m' self' where v: "validate derive keyed now' m self1 req = (Ok resp, m', self')"
    using validate_returns by blast
  have s': "sv_config self' = sv_config self1" "sv_conn_permits self' = sv_conn_permits self1"
    using validate_frame [of derive keyed now' m self1 req] by (simp_all add: v)
  have "fst (server_handshake mem (\<lambda>(m, self) r. validate derive keyed now' m self r) (m, self1) s) =
      (Ok req, (m', self'))"
    using assms(2-6) v by (intro server_handshake_ready [where resp = resp]) auto
  then have "accept_quic derive keyed mem now now' m ip (Ok s) self = (Ok (Tunnel_ready req), m', self')"
    by (auto simp: accept_quic_def 1 split_beta Let_def)
  moreover have "\<exists>self''. start_tunnel hop self' = (Ok (Serving None), self'') \<and>
      sv_config self'' = sv_config self'"
    using assms(8,9) s1 s' by (simp add: start_tunnel_def try_take_conn_def Let_def)
  ultimately show ?thesis
    using assms(9) s1 s' by (auto simp: connect_peer_def)
qed

theorem quic_login_not_enforced_witness:
  "let req = (sample_request (replicate 8 1))\<lparr>aq_auth_proof := [0]\<rparr> in
   \<exists>m' self' self''.
    accept_quic (\<lambda>ctx k. k) (\<lambda>k m. k @ m) 1000 1 2 metrics_new (V4 1)
      (Ok \<lparr>bi_recv = framed (encode_auth_request [] req), bi_read_error = [], bi_sent = [], bi_write_error = None\<rparr>)
      (server_new sample_config :: (nat, nat) server) = (Ok (Tunnel_ready req), m', self') \<and>
    start_tunnel Crash self' = (Ok (Serving None), self'') \<and>
    connect_peer (\<lambda>h a. Crash) (\<lambda>a. Tcp_connected) self'' (Ip (V4 9) 80) = Ok ()"
proof -
  let ?req = "(sample_request (replicate 8 1))\<lparr>aq_auth_proof := [0]\<rparr>"
  let ?s = "\<lparr>bi_recv = framed (encode_auth_request [] ?req), bi_read_error = [], bi_sent = [], bi_write_error = None\<rparr>"
  have "\<exists>m' self' self''.
    accept_quic (\<lambda>ctx k. k) (\<lambda>k m. k @ m) 1000 1 2 metrics_new (V4 1) (Ok ?s)
      (server_new sample_config :: (nat, nat) server) = (Ok (Tunnel_ready ?req), m', self') \<and>
    start_tunnel Crash self' = (Ok (Serving None), self'') \<and>
    (\<forall>addr. (\<lambda>a. Tcp_connected) addr = Tcp_connected \<longrightarrow>
       connect_peer (\<lambda>h a. Crash) (\<lambda>a. Tcp_connected) self'' addr = Ok ())"
  proof (rule quic_login_not_enforced)
    show "\<not> genuine (\<lambda>ctx k. k) (\<lambda>k m. k @ m) (sc_password (sv_config (server_new sample_config :: (nat, nat) server))) ?req"
      by (simp add: genuine_def server_new_def sample_config_def sample_request_def compute_auth_proof_def
          derive_key_def Let_def)
    show "wf_auth_request ?req" by (simp add: wf_auth_request_def sample_request_def code_consts)
    show "length (encode_auth_request [] ?req) \<le> 1000" by code_simp
    show "fst (server_rate_allow 1 (server_new sample_config :: (nat, nat) server) (V4 1))"
      by (simp add: server_rate_allow_def rate_allow_def server_new_def Let_def code_consts)
  qed (simp_all add: server_new_def sample_config_def Let_def code_consts)
  then show ?thesis unfolding Let_def by blast
qed

text \<open>
  Opening a stream end to end over QUIC, without a next hop: the client's \<open>open_stream\<close> succeeds
  exactly when the server connected to the requested address, otherwise it returns the server's
  error with its code, and the server relays exactly in the first case.
\<close>

theorem stream_open_end_to_end:
  assumes "sc_next_hop (sv_config self) = None" and "wf_address addr"
    and "length (encode_open_stream [] \<lparr>os_address = addr\<rparr>) \<le> mem" and "mem < 2 ^ 62" and "2 ^ 10 \<le> mem"
    and "\<And>e. tcp addr = Tcp_error e \<Longrightarrow> length e \<le> 1000"
    and "bi_write_error c = None" and "bi_sent c = []" and "bi_write_error s = None" and "bi_sent s = []"
    and "bi_recv s = bi_sent (snd (quic_open_stream mem addr c))"
    and "quic_accept_stream mem s = (Ok addr', s')"
    and "handle_stream open_downstream tcp quic_ack self addr' s' = (relays, s'')"
    and "bi_recv c = bi_sent s''"
  shows "fst (quic_open_stream mem addr c) = tcp_answer (tcp addr) \<and> relays = Ok (tcp addr = Tcp_connected)"
proof -
  define status where "status = (if tcp addr = Tcp_connected then STATUS_OK else STATUS_ERR)"
  define code where "code = (if tcp addr = Tcp_connected then ERR_NONE else ERR_CONNECT_FAILED)"
  define msg where "msg = (case tcp addr of Tcp_connected \<Rightarrow> [] | Tcp_error e \<Rightarrow> lit ''connect: '' @ e
     | Tcp_timeout \<Rightarrow> lit ''connect timeout'')"
  have "bi_recv s = framed (encode_open_stream [] \<lparr>os_address = addr\<rparr>) @ []"
    using quic_open_stream_sends [OF assms(7), of mem addr] assms(8,11) by simp
  from quic_accept_reads [OF assms(2,3,4) _ this] assms(12)
  have acc: "addr' = addr" "s' = s\<lparr>bi_recv := []\<rparr>" by simp_all
  let ?ack = "\<lparr>oa_status = status, oa_error_code = code, oa_message = msg\<rparr>"
  have "relays = Ok (tcp addr = Tcp_connected)" "bi_sent s'' = framed (encode_open_stream_ack [] ?ack)"
    using assms(1,9,10,13)
    by (auto simp: handle_stream_def connect_peer_def acc quic_ack_def write_len_prefixed_run
        status_def code_def msg_def split: tcp_outcome.splits)
  moreover have "length msg \<le> 1009"
    using assms(6) by (auto simp: msg_def lit_def split: tcp_outcome.splits)
  ultimately show ?thesis
    using quic_open_reads_ack [of msg status code mem "[]" c addr] length_ack [of ?ack] assms(4,5,7,8,14)
    by (auto simp: tcp_answer_def status_def code_def msg_def code_consts split: tcp_outcome.splits)
qed

theorem stream_open_end_to_end_witness:
  "\<exists>c. fst (quic_open_stream 2000 (Ip (V4 9) 80) c) = Fail (Message (lit ''[code 3] connect: refused''))"
proof -
  let ?self = "server_new sample_config :: (nat, nat) server"
  let ?a = "Ip (V4 9) 80"
  let ?tcp = "\<lambda>a :: address. Tcp_error (lit ''refused'')"
  let ?s = "\<lparr>bi_recv = framed (encode_open_stream [] \<lparr>os_address = ?a\<rparr>), bi_read_error = [], bi_sent = [], bi_write_error = None\<rparr>"
  let ?ack = "encode_open_stream_ack [] \<lparr>oa_status = STATUS_ERR, oa_error_code = ERR_CONNECT_FAILED, oa_message = lit ''connect: refused''\<rparr>"
  let ?c = "\<lparr>bi_recv = framed ?ack, bi_read_error = [], bi_sent = [], bi_write_error = None\<rparr>"
  have h: "handle_stream (\<lambda>h a. Crash) ?tcp quic_ack ?self ?a (?s\<lparr>bi_recv := []\<rparr>) =
      (Ok False, ?s\<lparr>bi_recv := [], bi_sent := framed ?ack\<rparr>)"
    by (simp add: handle_stream_def connect_peer_def server_new_def sample_config_def Let_def quic_ack_def
        write_len_prefixed_run lit_def)
  have "fst (quic_open_stream 2000 ?a ?c) = tcp_answer (?tcp ?a) \<and> Ok False = Ok (?tcp ?a = Tcp_connected)"
  proof (rule stream_open_end_to_end [OF _ _ _ _ _ _ _ _ _ _ _ _ h])
    show "quic_accept_stream 2000 ?s = (Ok ?a, ?s\<lparr>bi_recv := []\<rparr>)" by code_simp
    show "length (encode_open_stream [] \<lparr>os_address = ?a\<rparr>) \<le> 2000" by code_simp
  qed (simp_all add: server_new_def sample_config_def Let_def quic_open_stream_sends)
  moreover have "tcp_answer (Tcp_error (lit ''refused'')) = Fail (Message (lit ''[code 3] connect: refused''))"
    by code_simp
  ultimately show ?thesis by auto
qed

text \<open>
  (C40) All tunnels of a server with a next hop share the connection of the tunnel that opened last:
  once a second tunnel is served, the streams and datagrams of every client, also of the first, go
  over the second one's connection, and its answers are brought to the second tunnel; ending the
  second tunnel does not change that.
\<close>

theorem latest_tunnel_takes_next_hop:
  assumes "sc_next_hop (sv_config self) \<noteq> None"
    and "start_tunnel (Ok h1) self = (Ok (Serving (Some h1)), self1)"
    and "start_tunnel (Ok h2) self1 = (Ok start2, self2)" and "start2 \<noteq> Rejected"
  shows "start2 = Serving (Some h2) \<and>
    (\<forall>self3 \<in> {self2, release_conn self2}.
      handle_datagram send fwd self3 up ip dg = (send h2 dg, self3) \<and>
      connect_peer open_downstream tcp self3 addr = open_downstream h2 addr)"
  using assms
  by (auto simp: start_tunnel_def try_take_conn_def release_conn_def handle_datagram_def connect_peer_def
      Let_def split: if_splits)

theorem latest_tunnel_takes_next_hop_witness:
  "let self = server_new (sample_config\<lparr>sc_next_hop := Some \<lparr>nh_transport = HopWs [] False None None, nh_password = []\<rparr>\<rparr>)
        :: (nat, nat) server;
       self1 = snd (start_tunnel (Ok 5) self); self2 = snd (start_tunnel (Ok 2) self1)
   in handle_datagram (\<lambda>h dg. if h = 2 then Ok () else Crash) (\<lambda>u up ip dg. (Crash, u)) (release_conn self2)
        (0 :: nat) (V4 1) (datagram_new 1 (Ip (V4 9) 53) []) = (Ok (), release_conn self2)"
proof -
  let ?self = "server_new (sample_config\<lparr>sc_next_hop := Some \<lparr>nh_transport = HopWs [] False None None, nh_password = []\<rparr>\<rparr>)
        :: (nat, nat) server"
  have 1: "start_tunnel (Ok 5) ?self = (Ok (Serving (Some 5)), snd (start_tunnel (Ok 5) ?self))"
    and 2: "start_tunnel (Ok 2) (snd (start_tunnel (Ok 5) ?self)) =
      (Ok (Serving (Some 2)), snd (start_tunnel (Ok 2) (snd (start_tunnel (Ok 5) ?self))))"
    and 3: "sc_next_hop (sv_config ?self) \<noteq> None"
    by (simp_all add: start_tunnel_def try_take_conn_def server_new_def sample_config_def Let_def code_consts)
  show ?thesis
    unfolding Let_def
    using latest_tunnel_takes_next_hop [OF 3 1 2, where send = "\<lambda>h dg. if h = 2 then Ok () else Crash"
        and fwd = "\<lambda>u up ip dg. (Crash, u)" and up = "0 :: nat" and ip = "V4 1"
        and dg = "datagram_new 1 (Ip (V4 9) 53) []" and open_downstream = "\<lambda>h a. Crash"
        and tcp = "\<lambda>a. Tcp_timeout" and addr = "Ip (V4 9) 53"]
    by (simp del: One_nat_def)
qed

definition serves_fingerprint :: "(bytes \<Rightarrow> bytes) \<Rightarrow> (generated_cert \<Rightarrow> rstring + 'q) \<Rightarrow> 'q reloader \<Rightarrow> bool" where
  "serves_fingerprint sha256 build s \<longleftrightarrow>
     (\<exists>g. build g = Inr (re_served s) \<and> cert_fingerprint sha256 (gc_cert g) = re_current_fp s)"

lemma reload_turn_serves:
  "serves_fingerprint sha256 build s \<Longrightarrow>
   serves_fingerprint sha256 build (reload_turn sha256 build hup mtime loaded s)"
  by (auto simp: reload_turn_def serves_fingerprint_def Let_def split: sum.splits)

lemma run_quic_start_serves:
  assumes "run_quic_start base64 read_cert read_key generate faults sha256 build bind cfg files = (Reloading s, files')"
  shows "serves_fingerprint sha256 build s"
  using assms
  by (auto simp: run_quic_start_def serves_fingerprint_def Let_def
      split: prod.splits sum.splits option.splits if_splits)

text \<open>Without both paths nothing is reloaded: the certificate announced at the start stays.\<close>

lemma run_quic_start_no_reload:
  assumes "ql_cert cfg = None \<or> ql_key cfg = None"
  shows "fst (run_quic_start base64 read_cert read_key generate faults sha256 build bind cfg files) \<noteq> Reloading s"
  using assms
  by (auto simp: run_quic_start_def Let_def split: prod.splits sum.splits option.splits)

text \<open>
  Starting and reloading never mix up certificates: once a QUIC listener with certificate files
  runs, then after any sequence of signals, ticks and loads, good or bad, what its endpoint serves was
  built from a certificate with the fingerprint the task remembers.
\<close>

theorem reload_keeps_fingerprint:
  assumes "run_quic_start base64 read_cert read_key generate faults sha256 build bind cfg files = (Reloading s, files')"
  shows "serves_fingerprint sha256 build
      (foldl (\<lambda>s (hup, mtime, loaded). reload_turn sha256 build hup mtime loaded s) s turns)"
  using run_quic_start_serves [OF assms]
  by (induction turns arbitrary: s) (simp_all add: split_beta reload_turn_serves)

theorem reload_keeps_fingerprint_witness:
  "serves_fingerprint (\<lambda>c. c) (\<lambda>g. Inr (gc_key g))
     (foldl (\<lambda>s (hup, mtime, loaded). reload_turn (\<lambda>c. c) (\<lambda>g. Inr (gc_key g)) hup mtime loaded s)
       \<lparr>re_last_mtime = None, re_current_fp = [1], re_served = [2]\<rparr>
       [(True, Some 5, Inl []), (False, Some 6, Inr \<lparr>gc_cert = [3], gc_key = [4]\<rparr>)])"
proof -
  let ?cfg = "\<lparr>ql_bind = (V4 0, 443), ql_server_name = [], ql_cert = Some [10], ql_key = Some [11]\<rparr>"
  let ?files = "[[10] \<mapsto> [1], [11] \<mapsto> [2]]"
  have "run_quic_start (\<lambda>b. []) Inr Inr (\<lambda>n. Inl []) (\<lambda>p. None) (\<lambda>c. c) (\<lambda>g. Inr (gc_key g)) (\<lambda>q b. None) ?cfg ?files =
      (Reloading \<lparr>re_last_mtime = None, re_current_fp = [1], re_served = [2]\<rparr>, ?files)"
    by (simp add: run_quic_start_def load_or_generate_def cert_fingerprint_def Let_def)
  then show ?thesis by (rule reload_keeps_fingerprint)
qed

subsection \<open>The WebSocket login\<close>

lemma accept_login_frame:
  assumes "wf_auth_request req" and "length (encode_auth_request [] req) \<le> MAX_BODY_LEN"
    and v: "vd v req = (Ok resp, v')" and path: "check_path path uri = None"
  shows "accept_with_obfuscation hash keyed vd refused (Inr uri) path None mux
      [(up, room, Incoming (Some (Binary
        (encode_frame [] (frame_new 0 FRAME_AUTH_REQUEST (encode_auth_request [] req))))))] v = (Some (Ok req), v')"
proof -
  let ?body = "encode_auth_request [] req" and ?conn = "server_conn mux"
  let ?f = "frame_new 0 FRAME_AUTH_REQUEST ?body"
  have wf: "wf_frame ?f" using assms(2) by (simp add: wf_frame_def frame_new_def)
  have "length (encode_frame [] ?f) \<le> isize_max"
    by (rule length_encode_frame [OF wf])
  then have "handle_frame (Some vd) up v ?conn (encode_frame [] ?f) = dispatch_frame (Some vd) up v ?conn ?f"
    by (rule handle_frame_encoded [OF wf])
  also have "\<dots> = handle_auth_request (Some vd) up v ?conn ?f"
    by (simp add: dispatch_frame_def frame_new_def Let_def)
  also have "\<dots> = send_auth_response up 0 resp [AuthDone req] v' (?conn\<lparr>wc_server_auth_done := False\<rparr>)"
  proof -
    have "length ?body \<le> isize_max" using assms(2) by (simp add: isize_max_def code_consts)
    then have "decode_auth_request ?body = Ok (req, length ?body)"
      by (rule auth_request_codec.decode_encode [OF assms(1)])
    then show ?thesis
      by (simp add: handle_auth_request_def frame_new_def on_result_def v register_auth_def
          server_conn_def run_init_def Let_def)
  qed
  finally show ?thesis
    by (simp add: accept_with_obfuscation_def path run_step_def run_incoming_def inbound_message_def
        send_auth_response_def queue_frame_def)
qed

text \<open>
  The WebSocket login is not enforced either: whoever sends a well-formed request, genuine or not,
  on the right path gets a tunnel; only the rate limiter is in the way.
\<close>

theorem ws_login_not_enforced:
  assumes "wf_auth_request req" and "length (encode_auth_request [] req) \<le> MAX_BODY_LEN"
    and "check_path path uri = None" and "fst (server_rate_allow now self ip)"
  shows "fst (accept_ws derive keyed hash now now' m ip refused (Inr uri) path None
      [(up, room, Incoming (Some (Binary
        (encode_frame [] (frame_new 0 FRAME_AUTH_REQUEST (encode_auth_request [] req))))))] self) = Tunnel_ready req"
proof -
  obtain self1 where 1: "server_rate_allow now self ip = (True, self1)"
    using assms(4) by (cases "server_rate_allow now self ip") auto
  let ?val = "\<lambda>(m, self) r. validate derive keyed now' m self r"
  obtain resp m' self' where v: "?val (m, self1) req = (Ok resp, (m', self'))"
    using validate_returns by fastforce
  note accepted = accept_login_frame [where vd = ?val and v = "(m, self1)", OF assms(1,2) v assms(3)]
  show ?thesis by (simp add: accept_ws_def 1 accepted)
qed

end
