(* ===== verification/Server_Run.thy ===== *)
theory Server_Run
  imports Server_Tunnels
begin

section \<open>The whole server\<close>

text \<open>
  The accept loops \<open>run_quic_endpoint\<close> and \<open>run_ws_listener\<close> of \<open>src/crates/hydr-server/src/lib.rs\<close> with
  the tasks they spawn, as one transition system: the two listeners and all connections of both
  transports share one \<open>Server\<close> and take their steps in any order. A step of a task is what it does
  between two points where others can run: a handshake over QUIC up to its verdict, one turn of the
  loop of a WebSocket connection, the taking of a permit, the answer of the next hop.

  The connection loop of a WebSocket connection is a task of its own. It is spawned by
  \<open>accept_with_obfuscation\<close>, so it is not ended by the timeout of the handshake or by the end of the tunnel.
\<close>

subsection \<open>State\<close>

text \<open>
  \<open>lg_conn\<close> is the number of the connection whose request was validated. The log is not in the code;
  it records what \<open>validate\<close> was asked and answered.
\<close>

record login =
  lg_conn :: nat
  lg_time :: nat
  lg_request :: auth_request
  lg_verdict :: "auth_response result"

type_synonym ('s, 'h) authority = "login list \<times> metrics \<times> ('s, 'h) server"

datatype link = Quic_link | Ws_upgrading | Ws_loop ws_conn "obfuscator option" | Ws_down

text \<open>
  \<open>Torn\<close> is a task that panicked while it held a permit: the permit went back, the counter of active
  tunnels did not.
\<close>

datatype 'h stage = Shaking | Ready auth_request | Hopping | Serves "'h option" | Finished | Torn

record 'h conn =
  cn_arrived :: nat
  cn_ip :: ip_addr
  cn_link :: link
  cn_stage :: "'h stage"

text \<open>
  \<open>lv_quic\<close>: the QUIC endpoint is open. The counters of the obfuscation are fields of the same
  \<open>Metrics\<close> which \<open>validate\<close> does not touch; they are kept apart.
\<close>

record ('s, 'h) live =
  lv_quic :: bool
  lv_conns :: "'h conn list"
  lv_drops :: metrics
  lv_state :: "('s, 'h) authority"

record run_env =
  en_derive :: derive_key_fn
  en_keyed :: keyed_hash_fn
  en_hash :: hash_fn
  en_mem :: nat
  en_path :: rstring
  en_obfuscation :: "rstring option"

abbreviation lv_log :: "('s, 'h) live \<Rightarrow> login list" where "lv_log t \<equiv> fst (lv_state t)"

abbreviation lv_server :: "('s, 'h) live \<Rightarrow> ('s, 'h) server" where "lv_server t \<equiv> snd (snd (lv_state t))"

subsection \<open>The tasks of a connection\<close>

text \<open>The closure \<open>|r| server.validate(r)\<close> of connection \<open>i\<close> at the time \<open>now\<close>.\<close>

definition logged_validate ::
  "run_env \<Rightarrow> nat \<Rightarrow> nat \<Rightarrow> ('s, 'h) authority \<Rightarrow> auth_request \<Rightarrow> auth_response result \<times> ('s, 'h) authority" where
  "logged_validate env i now v req =
     (case v of (log, m, self) \<Rightarrow>
       let (resp, m, self) = validate (en_derive env) (en_keyed env) now m self req
       in (resp, log @ [\<lparr>lg_conn = i, lg_time = now, lg_request = req, lg_verdict = resp\<rparr>], m, self))"

text \<open>
  The spawned task of a QUIC connection up to the tunnel; \<open>bi\<close> is quinn's own handshake with the first
  stream of the connection, as in \<open>accept_quic\<close>.
\<close>

definition quic_shake ::
  "run_env \<Rightarrow> nat \<Rightarrow> nat \<Rightarrow> bi_stream result \<Rightarrow> ('s, 'h) authority \<Rightarrow> 'h stage \<times> ('s, 'h) authority" where
  "quic_shake env i now bi v =
     (case bi of
        Inl e \<Rightarrow> (Finished, v)
      | Inr s \<Rightarrow>
          (let ((r, v), s) = server_handshake (en_mem env) (logged_validate env i now) v s
           in (case r of Inl e \<Rightarrow> Finished | Inr req \<Rightarrow> Ready req, v)))"

text \<open>
  The upgrade of a WebSocket connection with the path check; then the connection loop is spawned.
\<close>

definition ws_upgrade :: "run_env \<Rightarrow> rstring + rstring \<Rightarrow> 'h stage \<times> link" where
  "ws_upgrade env upgrade =
     (case upgrade of
        Inl e \<Rightarrow> (Finished, Ws_down)
      | Inr uri_path \<Rightarrow>
          (case check_path (en_path env) uri_path of
             Some body \<Rightarrow> (Finished, Ws_down)
           | None \<Rightarrow> (Shaking, Ws_loop (server_conn False)
               (map_option (obfuscator_new (en_hash env)) (en_obfuscation env)))))"

text \<open>
  What a turn of the connection loop means for the task that waits in \<open>accept_with_obfuscation\<close>, if
  it still waits: the first answered request of the control stream, or the end of the loop.
\<close>

definition ws_stage :: "'h stage \<Rightarrow> auth_request option \<Rightarrow> bool \<Rightarrow> 'h stage" where
  "ws_stage stage answered go =
     (case stage of
        Shaking \<Rightarrow> (case answered of Some req \<Rightarrow> Ready req | None \<Rightarrow> if go then Shaking else Finished)
      | _ \<Rightarrow> stage)"

definition ws_turn ::
  "run_env \<Rightarrow> nat \<Rightarrow> nat \<Rightarrow> bool \<Rightarrow> bool \<Rightarrow> run_input \<Rightarrow> 'h stage \<Rightarrow> ws_conn \<Rightarrow> obfuscator option \<Rightarrow> metrics
     \<Rightarrow> ('s, 'h) authority \<Rightarrow> 'h stage \<times> link \<times> metrics \<times> ('s, 'h) authority" where
  "ws_turn env i now up room inp stage conn ob drops v =
     (case run_step (en_hash env) (en_keyed env) (Some (logged_validate env i now)) up room inp
             \<lparr>rs_conn = conn, rs_ob = ob, rs_metrics = drops, rs_validator = v\<rparr> of
        Inl e \<Rightarrow> (ws_stage stage None False, Ws_down, drops, v)
      | Inr (go, effs, s) \<Rightarrow>
          (ws_stage stage (accept_outcome effs) go, if go then Ws_loop (rs_conn s) (rs_ob s) else Ws_down,
           rs_metrics s, rs_validator s))"

text \<open>
  \<open>handle_tunnel\<close> in its two parts before the loop, with the connecting to the next hop between them;
  \<open>start_tunnel\<close> is both at once.
\<close>

definition take_permit :: "('s, 'h) server \<Rightarrow> 'h stage \<times> ('s, 'h) server" where
  "take_permit self =
     (let self = self\<lparr>sv_next_tunnel_id := sv_next_tunnel_id self + 1\<rparr>;
          (taken, self) = try_take_conn self
      in if \<not> taken then (Finished, self)
         else if sc_next_hop (sv_config self) \<noteq> None then (Hopping, self)
         else (Serves None, self))"

definition hop_connected :: "'h result \<Rightarrow> ('s, 'h) server \<Rightarrow> 'h stage \<times> ('s, 'h) server" where
  "hop_connected hop self =
     (case hop of
        Inl Panic \<Rightarrow> (Torn, self\<lparr>sv_conn_permits := sv_conn_permits self + 1\<rparr>)
      | Inl (Err e) \<Rightarrow> (Finished, release_conn self)
      | Inr downstream \<Rightarrow> (Serves (Some downstream), self\<lparr>sv_downstream := Some downstream\<rparr>))"

datatype 'h task_event =
    Quic_shakes nat "bi_stream result"
  | Ws_upgrades "rstring + rstring"
  | Ws_turns nat bool bool run_input
  | Ws_times_out
  | Takes_permit
  | Hop_connects "'h result"
  | Tunnel_ends

text \<open>
  A step of connection \<open>i\<close>; one that its state does not allow does nothing. A timeout before the upgrade
  drops the socket, one after it only the waiting: the spawned loop goes on.
\<close>

fun task_step ::
  "run_env \<Rightarrow> nat \<Rightarrow> 'h conn \<Rightarrow> metrics \<Rightarrow> ('s, 'h) authority \<Rightarrow> 'h task_event
     \<Rightarrow> 'h conn \<times> metrics \<times> ('s, 'h) authority" where
  "task_step env i c drops v (Quic_shakes now bi) =
     (if cn_link c = Quic_link \<and> cn_stage c = Shaking
      then let (stage, v) = quic_shake env i now bi v in (c\<lparr>cn_stage := stage\<rparr>, drops, v)
      else (c, drops, v))"
| "task_step env i c drops v (Ws_upgrades upgrade) =
     (if cn_link c = Ws_upgrading \<and> cn_stage c = Shaking
      then let (stage, link) = ws_upgrade env upgrade in (c\<lparr>cn_stage := stage, cn_link := link\<rparr>, drops, v)
      else (c, drops, v))"
| "task_step env i c drops v (Ws_turns now up room inp) =
     (case cn_link c of
        Ws_loop conn ob \<Rightarrow>
          (let (stage, link, drops, v) = ws_turn env i now up room inp (cn_stage c) conn ob drops v
           in (c\<lparr>cn_stage := stage, cn_link := link\<rparr>, drops, v))
      | _ \<Rightarrow> (c, drops, v))"
| "task_step env i c drops v Ws_times_out =
     (if cn_link c \<noteq> Quic_link \<and> cn_stage c = Shaking
      then (c\<lparr>cn_stage := Finished, cn_link := if cn_link c = Ws_upgrading then Ws_down else cn_link c\<rparr>, drops, v)
      else (c, drops, v))"
| "task_step env i c drops (log, m, self) Takes_permit =
     (case cn_stage c of
        Ready req \<Rightarrow> (let (stage, self) = take_permit self in (c\<lparr>cn_stage := stage\<rparr>, drops, (log, m, self)))
      | _ \<Rightarrow> (c, drops, (log, m, self)))"
| "task_step env i c drops (log, m, self) (Hop_connects hop) =
     (case cn_stage c of
        Hopping \<Rightarrow> (let (stage, self) = hop_connected hop self in (c\<lparr>cn_stage := stage\<rparr>, drops, (log, m, self)))
      | _ \<Rightarrow> (c, drops, (log, m, self)))"
| "task_step env i c drops (log, m, self) Tunnel_ends =
     (case cn_stage c of
        Serves h \<Rightarrow> (c\<lparr>cn_stage := Finished\<rparr>, drops, (log, m, release_conn self))
      | _ \<Rightarrow> (c, drops, (log, m, self)))"

subsection \<open>The listeners\<close>

text \<open>Both accept loops do the same before they spawn the task of a connection.\<close>

definition admit :: "nat \<Rightarrow> ip_addr \<Rightarrow> link \<Rightarrow> ('s, 'h) live \<Rightarrow> ('s, 'h) live" where
  "admit now ip link t =
     (case lv_state t of (log, m, self) \<Rightarrow>
       let (allowed, self) = server_rate_allow now self ip in
       if \<not> allowed
       then t\<lparr>lv_state := (log, m\<lparr>mt_auth_rate_limited := mt_auth_rate_limited m + 1\<rparr>, self)\<rparr>
       else t\<lparr>lv_state := (log, m, self),
              lv_conns := lv_conns t @ [\<lparr>cn_arrived = now, cn_ip = ip, cn_link = link, cn_stage = Shaking\<rparr>]\<rparr>)"

text \<open>
  \<open>Quic_closed\<close>: \<open>endpoint.accept()\<close> gives \<open>None\<close> and the loop ends. A failing \<open>accept\<close> of the TCP
  listener is logged and tried again.
\<close>

datatype 'h live_event =
    Quic_incoming nat ip_addr
  | Quic_closed
  | Ws_incoming nat ip_addr
  | Ws_accept_fails
  | Task nat "'h task_event"

fun live_step :: "run_env \<Rightarrow> ('s, 'h) live \<Rightarrow> 'h live_event \<Rightarrow> ('s, 'h) live" where
  "live_step env t (Quic_incoming now ip) = (if lv_quic t then admit now ip Quic_link t else t)"
| "live_step env t Quic_closed = t\<lparr>lv_quic := False\<rparr>"
| "live_step env t (Ws_incoming now ip) = admit now ip Ws_upgrading t"
| "live_step env t Ws_accept_fails = t"
| "live_step env t (Task i ev) =
     (if i < length (lv_conns t)
      then let (c, drops, v) = task_step env i (lv_conns t ! i) (lv_drops t) (lv_state t) ev
           in t\<lparr>lv_conns := (lv_conns t)[i := c], lv_drops := drops, lv_state := v\<rparr>
      else t)"

definition live_start :: "server_config \<Rightarrow> ('s, 'h) live" where
  "live_start config =
     \<lparr>lv_quic = True, lv_conns = [], lv_drops = metrics_new, lv_state = ([], metrics_new, server_new config)\<rparr>"

definition live_run :: "run_env \<Rightarrow> server_config \<Rightarrow> 'h live_event list \<Rightarrow> ('s, 'h) live" where
  "live_run env config es = foldl (live_step env) (live_start config) es"

text \<open>The clock readings of a run, in order.\<close>

fun event_times :: "'h live_event \<Rightarrow> nat list" where
  "event_times (Quic_incoming now ip) = [now]"
| "event_times (Ws_incoming now ip) = [now]"
| "event_times (Task i (Quic_shakes now bi)) = [now]"
| "event_times (Task i (Ws_turns now up room inp)) = [now]"
| "event_times _ = []"

definition run_times :: "'h live_event list \<Rightarrow> nat list" where
  "run_times es = concat (map event_times es)"

subsection \<open>The parts are those of one connection\<close>

lemma accept_quic_shakes:
  assumes "server_rate_allow now self ip = (True, self1)"
    and "accept_quic (en_derive env) (en_keyed env) (en_mem env) now now' m ip bi self = (r, m', self')"
  shows "\<exists>log'. quic_shake env i now' bi (log, m, self1) =
      ((case r of Inr (Tunnel_ready req) \<Rightarrow> Ready req | _ \<Rightarrow> Finished), (log', m', self'))"
  using assms
  by (auto simp: accept_quic_def quic_shake_def server_handshake_def logged_validate_def Let_def
      split: sum.splits failure.splits prod.splits)

lemma start_tunnel_parts:
  "start_tunnel hop self =
     (let (stage, self) = take_permit self
      in case stage of
           Serves h \<Rightarrow> (Ok (Serving h), self)
         | Hopping \<Rightarrow>
             (let (stage, self) = hop_connected hop self
              in (case stage of Serves h \<Rightarrow> Ok (Serving h) | Torn \<Rightarrow> Crash | _ \<Rightarrow> Ok Hop_failed, self))
         | _ \<Rightarrow> (Ok Rejected, self))"
  by (auto simp: start_tunnel_def take_permit_def hop_connected_def Let_def
      split: prod.splits sum.splits failure.splits)

subsection \<open>What a step asks the validator\<close>

text \<open>
  \<open>asked vd v v' reqs\<close>: the state of a validator goes from \<open>v\<close> to \<open>v'\<close> by at most one call, and
  \<open>reqs\<close> are among the requests it was called with.
\<close>

definition asked :: "'v validator \<Rightarrow> 'v \<Rightarrow> 'v \<Rightarrow> auth_request set \<Rightarrow> bool" where
  "asked vd v v' reqs \<longleftrightarrow> (v' = v \<and> reqs = {}) \<or> (\<exists>req. v' = snd (vd v req) \<and> reqs \<subseteq> {req})"

lemma asked_nothing [simp]: "asked vd v v {}"
  by (simp add: asked_def)

lemma asked_once: "reqs \<subseteq> {req} \<Longrightarrow> asked vd v (snd (vd v req)) reqs"
  by (auto simp: asked_def)

definition announced :: "effect list \<Rightarrow> auth_request set" where
  "announced effs = {req. AuthDone req \<in> set effs}"

lemma announced_simps [simp]:
  "announced [] = {}" "announced (AuthDone req # effs) = insert req (announced effs)"
  "announced (effs @ effs') = announced effs \<union> announced effs'"
  "announced (Queue q # effs) = announced effs" "announced (AuthAnswer r # effs) = announced effs"
  "announced (SessionAnswer sid r # effs) = announced effs" "announced (Event e # effs) = announced effs"
  "announced (OpenAnswer sid u # effs) = announced effs" "announced (Relay sid a b c # effs) = announced effs"
  "announced (Deliver n bs # effs) = announced effs"
  by (auto simp: announced_def)

lemma accept_outcome_announced: "accept_outcome effs = Some req \<Longrightarrow> req \<in> announced effs"
  by (induction effs rule: accept_outcome.induct) auto

lemma register_auth_announced: "announced (fst (register_auth sid req resp conn)) \<subseteq> {req}"
  by (auto simp: register_auth_def split: option.splits sum.splits)

lemma queue_frame_asked: "announced (fst (snd (queue_frame up effs f v conn))) = announced effs"
    "fst (snd (snd (queue_frame up effs f v conn))) = v"
  by (simp_all add: queue_frame_def)

lemma start_relay_announced [simp]: "announced (fst (start_relay sid pipe conn)) = {}"
  by (simp add: start_relay_def Let_def)

lemma handle_auth_request_asked:
  "asked vd v (fst (snd (snd (handle_auth_request (Some vd) up v conn fr))))
     (announced (fst (snd (handle_auth_request (Some vd) up v conn fr))))"
  using register_auth_announced
  by (auto simp: handle_auth_request_def on_result_def Let_def send_auth_response_def queue_frame_asked
      split_beta asked_once split: sum.splits failure.splits)

definition silent :: "'v \<Rightarrow> 'v outcome_of_step \<Rightarrow> bool" where
  "silent v r \<longleftrightarrow> fst (snd (snd r)) = v \<and> announced (fst (snd r)) = {}"

lemma silent_simps [simp]:
  "silent v (res, effs, v', conn) \<longleftrightarrow> v' = v \<and> announced effs = {}"
  "silent v (queue_frame up effs f v conn) \<longleftrightarrow> announced effs = {}"
  by (simp_all add: silent_def queue_frame_asked)

lemma silent_on_result:
  "(\<And>x. silent v (ok x)) \<Longrightarrow> (\<And>e. silent v (err e)) \<Longrightarrow> silent v (on_result r v conn ok err)"
  by (auto simp: on_result_def split: sum.splits failure.splits)

lemma silent_handlers:
  "silent v (handle_auth_response v conn fr)" "silent v (handle_open_stream up v conn fr)"
  "silent v (handle_open_stream_ack v conn fr)" "silent v (handle_stream_data v conn fr)"
  "silent v (handle_stream_credit v conn fr)" "silent v (handle_stream_close v conn fr)"
  "silent v (handle_datagram_frame v conn fr)"
  by (auto simp: handle_auth_response_def handle_open_stream_def handle_open_stream_ack_def
      handle_stream_data_def handle_stream_credit_def handle_stream_close_def handle_datagram_frame_def
      Let_def split_beta split: option.split intro!: silent_on_result)

lemma handle_frame_asked:
  "asked vd v (fst (snd (snd (handle_frame (Some vd) up v conn raw))))
     (announced (fst (snd (handle_frame (Some vd) up v conn raw))))"
proof -
  have silent: "silent v r \<Longrightarrow> asked vd v (fst (snd (snd r))) (announced (fst (snd r)))" for r
    by (simp add: silent_def)
  have "asked vd v (fst (snd (snd (dispatch_frame (Some vd) up v conn fr))))
      (announced (fst (snd (dispatch_frame (Some vd) up v conn fr))))" for fr
    unfolding dispatch_frame_def Let_def
    by (simp add: handle_auth_request_asked silent silent_handlers)
  then show ?thesis by (simp add: handle_frame_def split: sum.split)
qed

lemma run_step_asked:
  assumes "run_step hash keyed (Some vd) up room inp s = Ok (go, effs, s')"
  shows "asked vd (rs_validator s) (rs_validator s') (announced effs)"
proof (cases "\<exists>raw. inp = Incoming (Some (Binary raw))")
  case True
  then obtain raw where run: "run_incoming hash keyed (Some vd) up raw s = Ok (go, effs, s')"
    using assms by (auto simp: run_step_def)
  then obtain inb m ob where inb: "inbound_message hash keyed (rs_metrics s) (rs_ob s) raw = Ok (inb, m, ob)"
    by (cases "inbound_message hash keyed (rs_metrics s) (rs_ob s) raw") (auto simp: run_incoming_def)
  show ?thesis
  proof (cases inb)
    case (InFrame b)
    with run inb handle_frame_asked [of vd "rs_validator s" up "rs_conn s" b] show ?thesis
      by (auto simp: run_incoming_def Let_def split: prod.splits sum.splits failure.splits)
  qed (use run inb in \<open>auto simp: run_incoming_def Let_def\<close>)
next
  case False
  with assms show ?thesis
    by (auto simp: run_step_def run_command_def run_queue_def Let_def split_beta
        split: run_input.splits option.splits ws_message.splits ws_cmd.splits if_splits)
qed

lemma server_handshake_asked:
  assumes "server_handshake mem vd v s = ((r, v'), s')"
  shows "asked vd v v' (case r of Inl e \<Rightarrow> {} | Inr req \<Rightarrow> {req})"
  using assms
  by (auto simp: server_handshake_def asked_def split: prod.splits sum.splits) (metis snd_conv)+

subsection \<open>What a step of a task changes\<close>

text \<open>The guards of the server, the rate limiter and the nonce cache, are as before.\<close>

definition guards_same :: "('s, 'h) server \<Rightarrow> ('s, 'h) server \<Rightarrow> bool" where
  "guards_same self self' \<longleftrightarrow>
     sv_config self' = sv_config self \<and> sv_auth_attempts self' = sv_auth_attempts self \<and>
     sv_replay_nonces self' = sv_replay_nonces self"

lemma guards_same_refl [simp]: "guards_same self self"
  by (simp add: guards_same_def)

lemma take_permit_same: "guards_same self (snd (take_permit self))"
  by (simp add: guards_same_def take_permit_def try_take_conn_def Let_def)

lemma hop_connected_same: "guards_same self (snd (hop_connected hop self))"
  by (simp add: guards_same_def hop_connected_def release_conn_def split: sum.split failure.split)

lemma release_conn_same: "guards_same self (release_conn self)"
  by (simp add: guards_same_def release_conn_def)

definition holds_permit :: "'h stage \<Rightarrow> bool" where
  "holds_permit stage = (case stage of Hopping \<Rightarrow> True | Serves h \<Rightarrow> True | _ \<Rightarrow> False)"

definition counted :: "'h stage \<Rightarrow> bool" where
  "counted stage \<longleftrightarrow> holds_permit stage \<or> stage = Torn"

definition newly_ready :: "'h stage \<Rightarrow> 'h stage \<Rightarrow> auth_request set" where
  "newly_ready stage stage' =
     (if stage = Shaking then (case stage' of Ready req \<Rightarrow> {req} | _ \<Rightarrow> {}) else {})"

text \<open>The only ways a connection goes.\<close>

definition stage_moves :: "'h stage \<Rightarrow> 'h stage \<Rightarrow> bool" where
  "stage_moves stage stage' \<longleftrightarrow>
     stage' = stage \<or>
     (case stage of
        Shaking \<Rightarrow> (case stage' of Ready req \<Rightarrow> True | Finished \<Rightarrow> True | _ \<Rightarrow> False)
      | Ready req \<Rightarrow> (case stage' of Hopping \<Rightarrow> True | Serves h \<Rightarrow> True | Finished \<Rightarrow> True | _ \<Rightarrow> False)
      | Hopping \<Rightarrow> (case stage' of Serves h \<Rightarrow> True | Finished \<Rightarrow> True | Torn \<Rightarrow> True | _ \<Rightarrow> False)
      | Serves h \<Rightarrow> stage' = Finished
      | _ \<Rightarrow> False)"

lemma stage_moves_refl [simp]: "stage_moves stage stage"
  by (simp add: stage_moves_def)

lemma asked_mono: "asked vd v v' reqs \<Longrightarrow> reqs' \<subseteq> reqs \<Longrightarrow> asked vd v v' reqs'"
  by (auto simp: asked_def)

lemma quic_shake_moves:
  assumes "quic_shake env i now bi v = (stage, v')"
  shows "asked (logged_validate env i now) v v' (newly_ready Shaking stage)" "stage_moves Shaking stage"
proof -
  have "asked (logged_validate env i now) v v' (newly_ready Shaking stage) \<and> stage_moves Shaking stage"
  proof (cases bi)
    case (Inl e)
    with assms show ?thesis by (auto simp: quic_shake_def newly_ready_def stage_moves_def)
  next
    case (Inr s)
    obtain r v1 s1 where h: "server_handshake (en_mem env) (logged_validate env i now) v s = ((r, v1), s1)"
      by (metis prod.collapse)
    from server_handshake_asked [OF h] assms Inr h show ?thesis
      by (cases r) (auto simp: quic_shake_def newly_ready_def stage_moves_def)
  qed
  then show "asked (logged_validate env i now) v v' (newly_ready Shaking stage)" "stage_moves Shaking stage"
    by simp_all
qed

lemma ws_stage_moves: "stage_moves stage (ws_stage stage answered go)"
  by (auto simp: stage_moves_def ws_stage_def split: stage.split option.split)

lemma ws_turn_moves:
  assumes "ws_turn env i now up room inp stage conn ob drops v = (stage', link, drops', v')"
  shows "asked (logged_validate env i now) v v' (newly_ready stage stage')" "stage_moves stage stage'"
proof -
  let ?s = "\<lparr>rs_conn = conn, rs_ob = ob, rs_metrics = drops, rs_validator = v\<rparr>"
  show "asked (logged_validate env i now) v v' (newly_ready stage stage')"
  proof (cases "run_step (en_hash env) (en_keyed env) (Some (logged_validate env i now)) up room inp ?s")
    case (Inl e)
    with assms show ?thesis
      by (auto simp: ws_turn_def newly_ready_def ws_stage_def split: stage.split)
  next
    case (Inr p)
    then obtain go effs s' where p: "p = (go, effs, s')" by (cases p) simp
    from run_step_asked [OF Inr [unfolded p]] have
      "asked (logged_validate env i now) v (rs_validator s') (announced effs)" by simp
    moreover have "stage' = ws_stage stage (accept_outcome effs) go" "v' = rs_validator s'"
      using assms Inr p by (auto simp: ws_turn_def)
    moreover have "newly_ready stage (ws_stage stage (accept_outcome effs) go) \<subseteq> announced effs"
      using accept_outcome_announced [of effs]
      by (auto simp: newly_ready_def ws_stage_def split: stage.split option.split)
    ultimately show ?thesis by (auto intro: asked_mono)
  qed
  show "stage_moves stage stage'"
    using assms ws_stage_moves by (auto simp: ws_turn_def split: sum.splits prod.splits)
qed

lemma task_step_asked:
  assumes "task_step env i c drops v ev = (c', drops', v')"
  shows "newly_ready (cn_stage c) (cn_stage c') = {} \<and> fst v' = fst v \<and>
      guards_same (snd (snd v)) (snd (snd v')) \<or>
    (\<exists>now. event_times (Task i ev) = [now] \<and>
      asked (logged_validate env i now) v v' (newly_ready (cn_stage c) (cn_stage c')))"
proof (cases ev)
  case (Quic_shakes now bi)
  with assms quic_shake_moves(1) [of env i now bi v] show ?thesis
    by (auto simp: newly_ready_def split: prod.splits if_splits)
next
  case (Ws_turns now up room inp)
  with assms ws_turn_moves(1) [of env i now up room inp "cn_stage c" _ _ drops v] show ?thesis
    by (auto simp: newly_ready_def split: prod.splits link.splits)
next
  case (Ws_upgrades upgrade)
  with assms show ?thesis
    by (auto simp: newly_ready_def ws_upgrade_def split: prod.splits if_splits sum.splits option.splits)
next
  case Ws_times_out
  with assms show ?thesis by (auto simp: newly_ready_def split: if_splits)
next
  case Takes_permit
  with assms take_permit_same [of "snd (snd v)"] show ?thesis
    by (cases v) (auto simp: newly_ready_def split: stage.splits prod.splits)
next
  case (Hop_connects hop)
  with assms hop_connected_same [of "snd (snd v)" hop] show ?thesis
    by (cases v) (auto simp: newly_ready_def split: stage.splits prod.splits)
next
  case Tunnel_ends
  with assms release_conn_same [of "snd (snd v)"] show ?thesis
    by (cases v) (auto simp: newly_ready_def split: stage.splits prod.splits)
qed

lemma task_step_moves:
  assumes "task_step env i c drops v ev = (c', drops', v')"
  shows "cn_ip c' = cn_ip c" "cn_arrived c' = cn_arrived c" "stage_moves (cn_stage c) (cn_stage c')"
proof -
  have "cn_ip c' = cn_ip c \<and> cn_arrived c' = cn_arrived c \<and> stage_moves (cn_stage c) (cn_stage c')"
  proof (cases ev)
    case (Quic_shakes now bi)
    with assms show ?thesis by (auto dest: quic_shake_moves(2) split: prod.splits if_splits)
  next
    case (Ws_turns now up room inp)
    with assms show ?thesis by (auto dest: ws_turn_moves(2) split: prod.splits link.splits)
  next
    case (Ws_upgrades upgrade)
    with assms show ?thesis
      by (auto simp: stage_moves_def ws_upgrade_def split: prod.splits if_splits sum.splits option.splits)
  next
    case Ws_times_out
    with assms show ?thesis by (auto simp: stage_moves_def split: if_splits)
  next
    case Takes_permit
    with assms show ?thesis
      by (cases v) (auto simp: stage_moves_def take_permit_def Let_def split: stage.splits prod.splits if_splits)
  next
    case (Hop_connects hop)
    with assms show ?thesis
      by (cases v) (auto simp: stage_moves_def hop_connected_def split: stage.splits prod.splits sum.splits failure.splits)
  next
    case Tunnel_ends
    with assms show ?thesis by (cases v) (auto simp: stage_moves_def split: stage.splits)
  qed
  then show "cn_ip c' = cn_ip c" "cn_arrived c' = cn_arrived c" "stage_moves (cn_stage c) (cn_stage c')"
    by simp_all
qed

text \<open>The validator leaves permits and the rate limiter alone.\<close>

lemma validate_attempts:
  "sv_auth_attempts (snd (snd (validate derive keyed now m self req))) = sv_auth_attempts self"
  by (auto simp: validate_def nonce_seen_def Let_def split_beta)

lemma logged_validate_frame:
  "fst (snd (logged_validate env i now v req)) =
     fst v @ [\<lparr>lg_conn = i, lg_time = now, lg_request = req, lg_verdict = fst (logged_validate env i now v req)\<rparr>]"
  "sv_conn_permits (snd (snd (snd (logged_validate env i now v req)))) = sv_conn_permits (snd (snd v))"
  "sv_conns_active (snd (snd (snd (logged_validate env i now v req)))) = sv_conns_active (snd (snd v))"
  "sv_auth_attempts (snd (snd (snd (logged_validate env i now v req)))) = sv_auth_attempts (snd (snd v))"
  "sv_config (snd (snd (snd (logged_validate env i now v req)))) = sv_config (snd (snd v))"
  using validate_frame [where self = "snd (snd v)"] validate_attempts [where self = "snd (snd v)"]
  by (simp_all add: logged_validate_def Let_def split_beta)

lemma asked_permits:
  assumes "asked (logged_validate env i now) v v' reqs"
  shows "sv_conn_permits (snd (snd v')) = sv_conn_permits (snd (snd v))"
    "sv_conns_active (snd (snd v')) = sv_conns_active (snd (snd v))"
    "sv_auth_attempts (snd (snd v')) = sv_auth_attempts (snd (snd v))"
    "sv_config (snd (snd v')) = sv_config (snd (snd v))"
  using assms by (auto simp: asked_def logged_validate_frame)

text \<open>
  A permit is held exactly in the stages that count. The steps that ask the validator only move a
  connection between stages that hold none.
\<close>

definition permit_balance :: "('s, 'h) server \<Rightarrow> 'h stage \<Rightarrow> ('s, 'h) server \<Rightarrow> 'h stage \<Rightarrow> bool" where
  "permit_balance self stage self' stage' \<longleftrightarrow>
     sv_conn_permits self' + of_bool (holds_permit stage') = sv_conn_permits self + of_bool (holds_permit stage) \<and>
     sv_conns_active self' + of_bool (counted stage) = sv_conns_active self + of_bool (counted stage')"

lemma permit_balance_idle:
  "sv_conn_permits self' = sv_conn_permits self \<Longrightarrow> sv_conns_active self' = sv_conns_active self \<Longrightarrow>
     holds_permit stage' = holds_permit stage \<Longrightarrow> counted stage' = counted stage \<Longrightarrow>
     permit_balance self stage self' stage'"
  by (simp add: permit_balance_def)

lemma take_permit_balance:
  "permit_balance self (Ready req) (snd (take_permit self)) (fst (take_permit self))"
  by (simp add: permit_balance_def take_permit_def try_take_conn_def holds_permit_def counted_def Let_def)

lemma hop_connected_balance:
  "permit_balance self Hopping (snd (hop_connected hop self)) (fst (hop_connected hop self))"
  by (simp add: permit_balance_def hop_connected_def release_conn_def holds_permit_def counted_def
      split: sum.split failure.split)

lemma release_conn_balance: "permit_balance self (Serves h) (release_conn self) Finished"
  by (simp add: permit_balance_def release_conn_def holds_permit_def counted_def)

lemma ws_stage_idle:
  "holds_permit (ws_stage stage answered go) = holds_permit stage"
  "counted (ws_stage stage answered go) = counted stage"
  by (auto simp: holds_permit_def counted_def ws_stage_def split: stage.split option.split)

lemma quic_shake_idle:
  assumes "quic_shake env i now bi v = (stage, v')"
  shows "\<not> counted stage" "\<not> holds_permit stage"
  using quic_shake_moves(2) [OF assms]
  by (auto simp: stage_moves_def holds_permit_def counted_def split: stage.splits)

lemma ws_turn_idle:
  assumes "ws_turn env i now up room inp stage conn ob drops v = (stage', link, drops', v')"
  shows "holds_permit stage' = holds_permit stage" "counted stage' = counted stage"
  using assms ws_stage_idle [of stage] by (auto simp: ws_turn_def split: sum.splits prod.splits)

lemma task_step_balance:
  assumes "task_step env i c drops v ev = (c', drops', v')"
  shows "permit_balance (snd (snd v)) (cn_stage c) (snd (snd v')) (cn_stage c')"
proof (cases ev)
  case (Quic_shakes now bi)
  have shake: "permit_balance (snd (snd v)) Shaking (snd (snd v')) stage"
    if q: "quic_shake env i now bi v = (stage, v')" for stage
    using quic_shake_idle [OF q] asked_permits [OF quic_shake_moves(1) [OF q]]
    by (simp add: permit_balance_def holds_permit_def counted_def)
  show ?thesis
    using assms shake Quic_shakes
    by (auto simp: permit_balance_idle split: prod.splits if_splits)
next
  case (Ws_turns now up room inp)
  have turn: "permit_balance (snd (snd v)) stage (snd (snd v')) stage'"
    if w: "ws_turn env i now up room inp stage conn ob drops v = (stage', link, drops', v')"
    for stage stage' conn ob link
    using ws_turn_idle [OF w] asked_permits [OF ws_turn_moves(1) [OF w]] by (simp add: permit_balance_def)
  show ?thesis
    using assms turn Ws_turns by (auto simp: permit_balance_idle split: prod.splits link.splits)
next
  case (Ws_upgrades upgrade)
  with assms show ?thesis
    by (auto simp: permit_balance_def ws_upgrade_def holds_permit_def counted_def
        split: prod.splits if_splits sum.splits option.splits)
next
  case Ws_times_out
  with assms show ?thesis
    by (auto simp: permit_balance_def holds_permit_def counted_def split: if_splits)
next
  case Takes_permit
  with assms take_permit_balance [of "snd (snd v)"] show ?thesis
    by (cases v) (auto simp: permit_balance_idle split: stage.splits prod.splits)
next
  case (Hop_connects hop)
  with assms hop_connected_balance [of "snd (snd v)" hop] show ?thesis
    by (cases v) (auto simp: permit_balance_idle split: stage.splits prod.splits)
next
  case Tunnel_ends
  with assms release_conn_balance [of "snd (snd v)"] show ?thesis
    by (cases v) (auto simp: permit_balance_idle split: stage.splits)
qed

subsection \<open>Invariants of the whole server\<close>

lemma length_filter_update:
  "i < length xs \<Longrightarrow>
     length (filter P (xs[i := x])) + of_bool (P (xs ! i)) = length (filter P xs) + of_bool (P x)"
proof (induction xs arbitrary: i)
  case (Cons y xs)
  then show ?case by (cases i) auto
qed simp

definition open_conns :: "('s, 'h) live \<Rightarrow> 'h conn list" where
  "open_conns t = filter (\<lambda>c. holds_permit (cn_stage c)) (lv_conns t)"

definition counted_conns :: "('s, 'h) live \<Rightarrow> 'h conn list" where
  "counted_conns t = filter (\<lambda>c. counted (cn_stage c)) (lv_conns t)"

definition permits_inv :: "server_config \<Rightarrow> ('s, 'h) live \<Rightarrow> bool" where
  "permits_inv config t \<longleftrightarrow>
     sv_conn_permits (lv_server t) + length (open_conns t) = max_tunnels config \<and>
     sv_conns_active (lv_server t) = of_nat (length (counted_conns t))"

lemma admit_cases:
  "admit now ip link t =
     (let (ok, m) = rate_step (sv_auth_attempts (lv_server t)) (now, ip);
          self = (lv_server t)\<lparr>sv_auth_attempts := m\<rparr>; mt = fst (snd (lv_state t))
      in if ok
         then t\<lparr>lv_state := (lv_log t, mt, self),
                lv_conns := lv_conns t @ [\<lparr>cn_arrived = now, cn_ip = ip, cn_link = link, cn_stage = Shaking\<rparr>]\<rparr>
         else t\<lparr>lv_state := (lv_log t, mt\<lparr>mt_auth_rate_limited := mt_auth_rate_limited mt + 1\<rparr>, self)\<rparr>)"
  by (simp add: admit_def server_rate_allow_def rate_step_def Let_def split_beta)

lemma admit_permits: "permits_inv config t \<Longrightarrow> permits_inv config (admit now ip link t)"
  by (simp add: admit_cases permits_inv_def open_conns_def counted_conns_def holds_permit_def counted_def
      Let_def split_beta)

lemma balanced_count:
  assumes "(a' :: u64) + of_bool P = a + of_bool Q" "f' + of_bool P = f + of_bool Q" "a = of_nat f"
  shows "a' = of_nat f'"
proof -
  have "of_nat (f' + of_bool P) = (of_nat (f + of_bool Q) :: u64)" by (simp only: assms(2))
  then have "of_nat f' + of_bool P = (of_nat f + of_bool Q :: u64)" by simp
  with assms(1,3) have "a' + of_bool P = of_nat f' + of_bool P" by simp
  then show ?thesis by simp
qed

lemma live_step_permits: "permits_inv config t \<Longrightarrow> permits_inv config (live_step env t e)"
proof (cases e)
  case (Task i ev)
  assume inv: "permits_inv config t"
  show ?thesis
  proof (cases "i < length (lv_conns t)")
    case True
    obtain c drops v where step: "task_step env i (lv_conns t ! i) (lv_drops t) (lv_state t) ev = (c, drops, v)"
      by (metis prod.collapse)
    let ?t = "live_step env t (Task i ev)" and ?c = "lv_conns t ! i"
    have t: "lv_conns ?t = (lv_conns t)[i := c]" "lv_state ?t = v" using True step by simp_all
    from task_step_balance [OF step]
    have p: "sv_conn_permits (snd (snd v)) + of_bool (holds_permit (cn_stage c)) =
        sv_conn_permits (lv_server t) + of_bool (holds_permit (cn_stage ?c))"
      and a: "sv_conns_active (snd (snd v)) + of_bool (counted (cn_stage ?c)) =
        sv_conns_active (lv_server t) + of_bool (counted (cn_stage c))"
      by (simp_all only: permit_balance_def)
    from inv have inv': "sv_conn_permits (lv_server t) + length (open_conns t) = max_tunnels config"
      "sv_conns_active (lv_server t) = of_nat (length (counted_conns t))" by (simp_all only: permits_inv_def)
    note len = length_filter_update [OF True, of _ c]
    have "sv_conn_permits (lv_server ?t) + length (open_conns ?t) = max_tunnels config"
      using p inv'(1) len [of "\<lambda>c. holds_permit (cn_stage c)"] unfolding open_conns_def t by linarith
    moreover have "sv_conns_active (lv_server ?t) = of_nat (length (counted_conns ?t))"
      using balanced_count [OF a len [of "\<lambda>c. counted (cn_stage c)"]] inv'(2)
      unfolding counted_conns_def t by blast
    ultimately show ?thesis unfolding permits_inv_def Task by blast
  qed (use inv Task in simp)
qed (simp_all add: admit_permits, simp_all add: permits_inv_def open_conns_def counted_conns_def)

lemma permits_inv_start: "permits_inv config (live_start config)"
  by (simp add: permits_inv_def live_start_def open_conns_def counted_conns_def server_new_def max_tunnels_def Let_def)

subsection \<open>The limit per address, over both transports\<close>

definition admitted :: "('s, 'h) live \<Rightarrow> (nat \<times> ip_addr) list" where
  "admitted t = map (\<lambda>c. (cn_arrived c, cn_ip c)) (lv_conns t)"

definition rate_inv :: "nat \<Rightarrow> ('s, 'h) live \<Rightarrow> bool" where
  "rate_inv prev t \<longleftrightarrow>
     rate_tracks prev (sv_auth_attempts (lv_server t)) (rev (admitted t)) \<and>
     rate_ok (rev (admitted t)) \<and> (\<forall>e \<in> set (admitted t). fst e \<le> prev)"

lemma rate_inv_later: "rate_inv prev t \<Longrightarrow> prev \<le> now \<Longrightarrow> rate_inv now t"
  unfolding rate_inv_def rate_tracks_def by (meson order_trans)

lemma admit_rate:
  assumes "rate_inv prev t" "prev \<le> now"
  shows "rate_inv now (admit now ip link t)"
proof -
  let ?m = "sv_auth_attempts (lv_server t)" and ?h = "rev (admitted t)"
  from assms(1) have track: "rate_tracks prev ?m ?h" and ok: "rate_ok ?h"
    and past: "\<forall>e \<in> set (admitted t). fst e \<le> prev" unfolding rate_inv_def by blast+
  note step = rate_tracks_step [OF track assms(2), of ip]
  from past assms(2) have past': "\<forall>e \<in> set (admitted t). fst e \<le> now" by (meson order_trans)
  show ?thesis
  proof (cases "fst (rate_step ?m (now, ip))")
    case True
    with step have "snd (rate_spec ?h (now, ip)) = (now, ip) # ?h" "length (recent now ip ?h) < AUTH_MAX_PER_IP"
      by (auto simp: rate_spec_def split: if_splits)
    with True step ok past' show ?thesis
      by (simp add: rate_inv_def admit_cases Let_def split_beta admitted_def)
  next
    case False
    with step have "snd (rate_spec ?h (now, ip)) = ?h" by (auto simp: rate_spec_def split: if_splits)
    with False step ok past' show ?thesis
      by (simp add: rate_inv_def admit_cases Let_def split_beta admitted_def)
  qed
qed

lemma task_step_attempts:
  assumes "task_step env i c drops v ev = (c', drops', v')"
  shows "sv_auth_attempts (snd (snd v')) = sv_auth_attempts (snd (snd v))"
    "sv_config (snd (snd v')) = sv_config (snd (snd v))"
  using task_step_asked [OF assms] asked_permits(3,4) [of env i _ v v'] by (auto simp: guards_same_def)

lemma task_admitted:
  assumes "i < length (lv_conns t)" "task_step env i (lv_conns t ! i) (lv_drops t) (lv_state t) ev = (c, drops, v)"
  shows "admitted (live_step env t (Task i ev)) = admitted t"
  using assms task_step_moves(1,2) [OF assms(2)]
  by (auto simp: admitted_def nth_list_update intro: nth_equalityI)

lemma live_step_rate:
  assumes "rate_inv prev t" "sorted (prev # event_times e)"
  shows "rate_inv (last (prev # event_times e)) (live_step env t e)"
proof (cases e)
  case (Quic_incoming now ip)
  with assms show ?thesis by (auto simp: admit_rate rate_inv_later)
next
  case (Ws_incoming now ip)
  with assms show ?thesis by (auto simp: admit_rate)
next
  case (Task i ev)
  have later: "prev \<le> last (prev # event_times e)"
    using assms(2) by (cases "event_times e" rule: rev_cases) auto
  show ?thesis
  proof (cases "i < length (lv_conns t)")
    case True
    obtain c drops v where step: "task_step env i (lv_conns t ! i) (lv_drops t) (lv_state t) ev = (c, drops, v)"
      by (metis prod.collapse)
    have "rate_inv prev (live_step env t e)"
      using assms(1) task_admitted [OF True step] task_step_attempts(1) [OF step] True step
      by (simp add: rate_inv_def Task)
    then show ?thesis using later by (rule rate_inv_later)
  next
    case False
    with assms later show ?thesis by (simp add: Task rate_inv_later)
  qed
qed (use assms in \<open>simp_all add: rate_inv_def admitted_def\<close>)

lemma rate_inv_start: "rate_inv 0 (live_start config)"
  by (simp add: rate_inv_def live_start_def admitted_def server_new_def Let_def rate_tracks_empty)

subsection \<open>The verdicts, over both transports\<close>

definition login_call :: "login \<Rightarrow> nat \<times> auth_request" where
  "login_call l = (lg_time l, lg_request l)"

definition password_spec :: "run_env \<Rightarrow> server_config \<Rightarrow> (bytes \<times> nat) list \<Rightarrow> nat \<times> auth_request \<Rightarrow> bool \<times> (bytes \<times> nat) list" where
  "password_spec env config = auth_spec (en_derive env) (en_keyed env) (sc_password config)"

definition verdicts_inv :: "run_env \<Rightarrow> server_config \<Rightarrow> nat \<Rightarrow> ('s, 'h) authority \<Rightarrow> bool" where
  "verdicts_inv env config prev v \<longleftrightarrow>
     (let (ds, h) = run_guard (password_spec env config) [] (map login_call (fst v))
      in map (\<lambda>l. authenticated (lg_verdict l)) (fst v) = ds \<and>
         auth_tracks (sc_password config) (snd (snd v)) (prev, h) \<and>
         sorted (map lg_time (fst v) @ [prev]))"

lemma verdicts_later: "verdicts_inv env config prev v \<Longrightarrow> prev \<le> now \<Longrightarrow> verdicts_inv env config now v"
  by (auto simp: verdicts_inv_def auth_tracks_def sorted_append split: prod.splits) (meson order_trans)+

lemma verdicts_same:
  "verdicts_inv env config prev v \<Longrightarrow> fst v' = fst v \<Longrightarrow> guards_same (snd (snd v)) (snd (snd v')) \<Longrightarrow>
     verdicts_inv env config prev v'"
  by (auto simp: verdicts_inv_def auth_tracks_def guards_same_def split: prod.splits)

lemma logged_validate_verdicts:
  assumes "verdicts_inv env config prev v" "prev \<le> now"
  shows "verdicts_inv env config now (snd (logged_validate env i now v req))"
proof -
  obtain log m self where v: "v = (log, m, self)" by (cases v)
  let ?spec = "password_spec env config"
  let ?step = "auth_step (en_derive env) (en_keyed env)"
  obtain ds h where run: "run_guard ?spec [] (map login_call log) = (ds, h)" by (metis prod.collapse)
  from assms(1) have ds: "map (\<lambda>l. authenticated (lg_verdict l)) log = ds"
    and tr: "auth_tracks (sc_password config) self (prev, h)" and times: "sorted (map lg_time log @ [prev])"
    by (simp_all add: verdicts_inv_def v run)
  from times assms(2) have times': "sorted (map lg_time log @ [now, now])" by (fastforce simp: sorted_append)
  obtain resp m' self' where val: "validate (en_derive env) (en_keyed env) now m self req = (resp, m', self')"
    by (metis prod.collapse)
  have step: "?step self (now, req) = (authenticated resp, self')"
  proof -
    have "fst (validate d k now m1 self req) = fst (validate d k now m2 self req) \<and>
        snd (snd (validate d k now m1 self req)) = snd (snd (validate d k now m2 self req))" for d k m1 m2
      by (simp add: validate_def Let_def split_beta)
    then show ?thesis using val by (simp add: auth_step_def split_beta) (metis fst_conv snd_conv)
  qed
  have "fst (?step self (now, req)) = fst (timed ?spec (prev, h) (now, req)) \<and>
      auth_tracks (sc_password config) (snd (?step self (now, req))) (snd (timed ?spec (prev, h) (now, req)))"
    unfolding password_spec_def
    by (rule auth_history.simulates [OF tr]) (simp add: forward_def assms(2))
  then have "authenticated resp = fst (?spec h (now, req))"
    "auth_tracks (sc_password config) self' (now, snd (?spec h (now, req)))"
    by (simp_all add: step timed_simps)
  moreover have "fst (run_guard ?spec [] (map login_call log @ [(now, req)])) = ds @ [fst (?spec h (now, req))]"
    "snd (run_guard ?spec [] (map login_call log @ [(now, req)])) = snd (?spec h (now, req))"
    by (simp_all add: run_guard_append run)
  ultimately show ?thesis
    using times' by (simp add: verdicts_inv_def logged_validate_def v val login_call_def ds split_beta)
qed

lemma asked_verdicts:
  assumes "asked (logged_validate env i now) v v' reqs" "verdicts_inv env config prev v" "prev \<le> now"
  shows "verdicts_inv env config now v'"
  using assms verdicts_later [OF assms(2,3)] logged_validate_verdicts [OF assms(2,3)]
  by (auto simp: asked_def)

lemma task_step_verdicts:
  assumes "task_step env i c drops v ev = (c', drops', v')" "verdicts_inv env config prev v"
    and "sorted (prev # event_times (Task i ev))"
  shows "verdicts_inv env config (last (prev # event_times (Task i ev))) v'"
proof -
  have later: "prev \<le> last (prev # event_times (Task i ev))"
    using assms(3) by (cases "event_times (Task i ev)" rule: rev_cases) auto
  from task_step_asked [OF assms(1)] show ?thesis
  proof
    assume "newly_ready (cn_stage c) (cn_stage c') = {} \<and> fst v' = fst v \<and> guards_same (snd (snd v)) (snd (snd v'))"
    with assms(2) verdicts_same verdicts_later later show ?thesis by blast
  next
    assume "\<exists>now. event_times (Task i ev) = [now] \<and>
      asked (logged_validate env i now) v v' (newly_ready (cn_stage c) (cn_stage c'))"
    with assms(2,3) asked_verdicts show ?thesis by fastforce
  qed
qed

lemma admit_verdicts:
  "verdicts_inv env config prev (lv_state t) \<Longrightarrow> verdicts_inv env config prev (lv_state (admit now ip link t))"
  by (simp add: admit_cases Let_def split_beta verdicts_inv_def auth_tracks_def)

subsection \<open>No tunnel without a validated request\<close>

definition has_login :: "login list \<Rightarrow> nat \<Rightarrow> 'h stage \<Rightarrow> bool" where
  "has_login log i stage \<longleftrightarrow>
     (case stage of
        Shaking \<Rightarrow> True | Finished \<Rightarrow> True
      | Ready req \<Rightarrow> (\<exists>l \<in> set log. lg_conn l = i \<and> lg_request l = req)
      | _ \<Rightarrow> (\<exists>l \<in> set log. lg_conn l = i))"

lemma has_login_grows: "has_login log i stage \<Longrightarrow> set log \<subseteq> set log' \<Longrightarrow> has_login log' i stage"
  by (auto simp: has_login_def split: stage.splits)

lemma asked_log: "asked (logged_validate env i now) v v' reqs \<Longrightarrow> set (fst v) \<subseteq> set (fst v')"
  by (auto simp: asked_def logged_validate_frame)

lemma has_login_moves:
  assumes "stage_moves stage stage'" "has_login log i stage" "set log \<subseteq> set log'"
    and "\<And>req. newly_ready stage stage' = {req} \<Longrightarrow> \<exists>l \<in> set log'. lg_conn l = i \<and> lg_request l = req"
  shows "has_login log' i stage'"
proof (cases "stage' = stage")
  case True
  with has_login_grows [OF assms(2,3)] show ?thesis by simp
next
  case False
  with assms show ?thesis
    by (cases stage; cases stage') (auto simp: stage_moves_def has_login_def newly_ready_def)
qed

lemma task_step_login:
  assumes step: "task_step env i c drops v ev = (c', drops', v')" and log: "has_login (fst v) i (cn_stage c)"
  shows "set (fst v) \<subseteq> set (fst v')" "has_login (fst v') i (cn_stage c')"
proof -
  let ?new = "newly_ready (cn_stage c) (cn_stage c')"
  have "set (fst v) \<subseteq> set (fst v') \<and> (\<forall>req \<in> ?new. \<exists>l \<in> set (fst v'). lg_conn l = i \<and> lg_request l = req)"
    using task_step_asked [OF step]
  proof
    assume "\<exists>now. event_times (Task i ev) = [now] \<and> asked (logged_validate env i now) v v' ?new"
    then obtain now where asked: "asked (logged_validate env i now) v v' ?new" by blast
    from asked_log [OF asked] asked show ?thesis by (auto simp: asked_def logged_validate_frame)
  qed simp
  with has_login_moves [OF task_step_moves(3) [OF step] log]
  show "set (fst v) \<subseteq> set (fst v')" "has_login (fst v') i (cn_stage c')" by auto
qed

definition logins_inv :: "('s, 'h) live \<Rightarrow> bool" where
  "logins_inv t \<longleftrightarrow> (\<forall>i < length (lv_conns t). has_login (lv_log t) i (cn_stage (lv_conns t ! i)))"

lemma admit_logins: "logins_inv t \<Longrightarrow> logins_inv (admit now ip link t)"
proof -
  assume inv: "logins_inv t"
  have "lv_log (admit now ip link t) = lv_log t" by (simp add: admit_cases Let_def split_beta)
  moreover have "has_login log i Shaking" for log i by (simp add: has_login_def)
  ultimately show ?thesis
    using inv by (auto simp: logins_inv_def admit_cases Let_def split_beta nth_append less_Suc_eq)
qed

lemma live_step_logins: "logins_inv t \<Longrightarrow> logins_inv (live_step env t e)"
proof (cases e)
  case (Task i ev)
  assume inv: "logins_inv t"
  show ?thesis
  proof (cases "i < length (lv_conns t)")
    case True
    obtain c drops v where step: "task_step env i (lv_conns t ! i) (lv_drops t) (lv_state t) ev = (c, drops, v)"
      by (metis prod.collapse)
    have "has_login (lv_log t) i (cn_stage (lv_conns t ! i))" using inv True by (simp add: logins_inv_def)
    note login = task_step_login [OF step this]
    show ?thesis
      using inv True step login has_login_grows [OF _ login(1)]
      by (auto simp: Task logins_inv_def nth_list_update)
  qed (use inv Task in simp)
qed (simp_all add: admit_logins, simp_all add: logins_inv_def)

subsection \<open>Runs\<close>

definition live_inv :: "run_env \<Rightarrow> server_config \<Rightarrow> nat \<Rightarrow> ('s, 'h) live \<Rightarrow> bool" where
  "live_inv env config prev t \<longleftrightarrow>
     permits_inv config t \<and> rate_inv prev t \<and> verdicts_inv env config prev (lv_state t) \<and> logins_inv t"

lemma live_step_verdicts:
  assumes "verdicts_inv env config prev (lv_state t)" "sorted (prev # event_times e)"
  shows "verdicts_inv env config (last (prev # event_times e)) (lv_state (live_step env t e))"
proof (cases e)
  case (Quic_incoming now ip)
  with assms show ?thesis by (auto simp: admit_verdicts verdicts_later)
next
  case (Ws_incoming now ip)
  with assms show ?thesis by (auto simp: admit_verdicts verdicts_later)
next
  case (Task i ev)
  show ?thesis
  proof (cases "i < length (lv_conns t)")
    case True
    obtain c drops v where step: "task_step env i (lv_conns t ! i) (lv_drops t) (lv_state t) ev = (c, drops, v)"
      by (metis prod.collapse)
    from task_step_verdicts [OF step assms(1)] assms(2) True step show ?thesis by (simp add: Task)
  next
    case False
    have "prev \<le> last (prev # event_times e)"
      using assms(2) by (cases "event_times e" rule: rev_cases) auto
    from verdicts_later [OF assms(1) this] False show ?thesis by (simp add: Task del: last.simps)
  qed
qed (use assms in simp_all)

lemma live_step_inv:
  "live_inv env config prev t \<Longrightarrow> sorted (prev # event_times e) \<Longrightarrow>
     live_inv env config (last (prev # event_times e)) (live_step env t e)"
  by (simp only: live_inv_def live_step_permits live_step_rate live_step_verdicts live_step_logins)

lemma live_foldl_inv:
  "live_inv env config prev t \<Longrightarrow> sorted (prev # run_times es) \<Longrightarrow>
     \<exists>now. live_inv env config now (foldl (live_step env) t es)"
proof (induction es arbitrary: prev t)
  case (Cons e es)
  let ?now = "last (prev # event_times e)"
  have times: "sorted (prev # event_times e @ run_times es)"
    using Cons.prems(2) by (simp add: run_times_def)
  then have "sorted (prev # event_times e)" by (auto simp: sorted_append)
  from live_step_inv [OF Cons.prems(1) this] have inv: "live_inv env config ?now (live_step env t e)" .
  have "sorted (?now # run_times es)"
    using times by (auto simp: sorted_append)
  from Cons.IH [OF inv this] show ?case by simp
qed auto

lemma live_inv_start: "live_inv env config 0 (live_start config)"
  using permits_inv_start [of config] rate_inv_start [of config] auth_tracks_new [of config]
  by (simp add: live_inv_def verdicts_inv_def logins_inv_def live_start_def)

lemma live_run_inv: "sorted (run_times es) \<Longrightarrow> \<exists>now. live_inv env config now (live_run env config es)"
  unfolding live_run_def by (rule live_foldl_inv [OF live_inv_start]) simp

subsection \<open>Logging in again and again\<close>

definition login_message :: "auth_request \<Rightarrow> bytes" where
  "login_message req = encode_frame [] (frame_new 0 FRAME_AUTH_REQUEST (encode_auth_request [] req))"

definition sendable_login :: "auth_request \<Rightarrow> bool" where
  "sendable_login req \<longleftrightarrow> wf_auth_request req \<and> length (encode_auth_request [] req) \<le> MAX_BODY_LEN"

text \<open>One turn of the loop of a connection without obfuscation that reads a login.\<close>

lemma login_turn:
  assumes "sendable_login req"
  shows "\<exists>conn'. ws_turn env i now True room (Incoming (Some (Binary (login_message req)))) stage conn None drops v =
      (ws_stage stage (if wc_server_auth_done conn then Some req else None) True, Ws_loop conn' None, drops,
       snd (logged_validate env i now v req))"
proof -
  let ?body = "encode_auth_request [] req"
  let ?f = "frame_new 0 FRAME_AUTH_REQUEST ?body"
  have wf: "wf_frame ?f" using assms by (simp add: wf_frame_def frame_new_def sendable_login_def)
  have "length ?body \<le> isize_max" using assms by (simp add: isize_max_def code_consts sendable_login_def)
  then have dec: "decode_auth_request ?body = Ok (req, length ?body)"
    using auth_request_codec.decode_encode assms by (simp add: sendable_login_def)
  obtain resp v' where val: "logged_validate env i now v req = (Ok resp, v')"
    using validate_returns [of "en_derive env" "en_keyed env" now "fst (snd v)" "snd (snd v)" req]
    by (fastforce simp: logged_validate_def split_beta)
  let ?conn = "if wc_server_auth_done conn then conn\<lparr>wc_server_auth_done := False\<rparr> else conn"
  have "handle_frame (Some (logged_validate env i now)) True v conn (login_message req) =
      handle_auth_request (Some (logged_validate env i now)) True v conn ?f"
    unfolding login_message_def handle_frame_encoded [OF wf length_encode_frame [OF wf]]
    by (simp add: dispatch_frame_def frame_new_def Let_def)
  also have "\<dots> = send_auth_response True 0 resp (if wc_server_auth_done conn then [AuthDone req] else []) v' ?conn"
    by (simp add: handle_auth_request_def frame_new_def on_result_def dec val register_auth_def Let_def)
  finally have "handle_frame (Some (logged_validate env i now)) True v conn (login_message req) = \<dots>" .
  then show ?thesis
    by (simp add: ws_turn_def run_step_def run_incoming_def inbound_message_def send_auth_response_def
        queue_frame_def val)
qed

text \<open>A connection whose peer sends one login after another.\<close>

definition login_events :: "nat \<Rightarrow> auth_request list \<Rightarrow> 'h live_event list" where
  "login_events now reqs =
     map (\<lambda>req. Task 0 (Ws_turns now True True (Incoming (Some (Binary (login_message req)))))) reqs"

lemma login_events_run:
  assumes "\<forall>req \<in> set reqs. sendable_login req"
    and "lv_conns t = [c]" and "cn_link c = Ws_loop conn None"
  shows "let t' = foldl (live_step env) t (login_events now reqs)
    in map login_call (lv_log t') = map login_call (lv_log t) @ map (Pair now) reqs \<and> admitted t' = admitted t \<and>
       (\<exists>c' conn'. lv_conns t' = [c'] \<and> cn_link c' = Ws_loop conn' None)"
  using assms
proof (induction reqs arbitrary: t c conn)
  case (Cons req reqs)
  let ?e = "Task 0 (Ws_turns now True True (Incoming (Some (Binary (login_message req)))))"
  obtain conn' where turn: "ws_turn env 0 now True True (Incoming (Some (Binary (login_message req)))) (cn_stage c) conn None
      (lv_drops t) (lv_state t) =
      (ws_stage (cn_stage c) (if wc_server_auth_done conn then Some req else None) True, Ws_loop conn' None, lv_drops t,
       snd (logged_validate env 0 now (lv_state t) req))"
    using login_turn [of req env 0 now True "cn_stage c" conn "lv_drops t" "lv_state t"] Cons.prems(1)
    by auto
  let ?c = "c\<lparr>cn_stage := ws_stage (cn_stage c) (if wc_server_auth_done conn then Some req else None) True,
      cn_link := Ws_loop conn' None\<rparr>"
  have step: "live_step env t ?e =
      t\<lparr>lv_conns := [?c], lv_state := snd (logged_validate env 0 now (lv_state t) req)\<rparr>"
    using Cons.prems(2,3) turn by simp
  have "let t' = foldl (live_step env) (live_step env t ?e) (login_events now reqs)
    in map login_call (lv_log t') = map login_call (lv_log (live_step env t ?e)) @ map (Pair now) reqs \<and>
       admitted t' = admitted (live_step env t ?e) \<and>
       (\<exists>c' conn'. lv_conns t' = [c'] \<and> cn_link c' = Ws_loop conn' None)"
    by (rule Cons.IH [where c = ?c and conn = conn']) (use Cons.prems(1) in \<open>simp_all only: step list.set, simp_all\<close>)
  moreover have "map login_call (lv_log (live_step env t ?e)) = map login_call (lv_log t) @ [(now, req)]"
    "admitted (live_step env t ?e) = admitted t"
    unfolding step using Cons.prems(2) by (simp_all add: logged_validate_frame admitted_def login_call_def)
  ultimately show ?case by (simp add: login_events_def Let_def)
qed (simp add: login_events_def)

definition guessing :: "nat \<Rightarrow> ip_addr \<Rightarrow> rstring \<Rightarrow> auth_request list \<Rightarrow> 'h live_event list" where
  "guessing now ip uri reqs = [Ws_incoming now ip, Task 0 (Ws_upgrades (Inr uri))] @ login_events now reqs"

lemma run_times_guessing: "set (run_times (guessing now ip uri reqs)) \<subseteq> {now}"
  by (auto simp: run_times_def guessing_def login_events_def)

lemma sorted_constant: "set xs \<subseteq> {x} \<Longrightarrow> sorted xs"
  by (induction xs) auto

lemma password_spec_guesses:
  assumes "\<forall>c \<in> set calls. \<not> genuine (en_derive env) (en_keyed env) (sc_password config) (snd c)"
  shows "run_guard (password_spec env config) h calls = (replicate (length calls) False, h)"
  using assms
  by (induction calls) (simp_all add: password_spec_def auth_spec_def run_guard.simps(2) Let_def)

lemma guessing_run:
  fixes config :: server_config
  assumes "\<forall>req \<in> set reqs. sendable_login req" and "check_path (en_path env) uri = None" and "en_obfuscation env = None"
  shows "let t = (live_run env config (guessing now ip uri reqs) :: ('s, 'h) live)
    in map login_call (lv_log t) = map (Pair now) reqs \<and> admitted t = [(now, ip)] \<and>
       (\<exists>c conn. lv_conns t = [c] \<and> cn_link c = Ws_loop conn None)"
proof -
  let ?t0 = "foldl (live_step env) (live_start config) [Ws_incoming now ip, Task 0 (Ws_upgrades (Inr uri))] :: ('s, 'h) live"
  have t0: "lv_log ?t0 = []" "admitted ?t0 = [(now, ip)]"
    "\<exists>c. lv_conns ?t0 = [c] \<and> cn_link c = Ws_loop (server_conn False) None"
    using assms(2,3)
    by (simp_all add: live_start_def admit_def server_rate_allow_def rate_allow_def server_new_def Let_def
        code_consts admitted_def ws_upgrade_def)
  from t0(3) obtain c where "lv_conns ?t0 = [c]" "cn_link c = Ws_loop (server_conn False) None" by blast
  from login_events_run [OF assms(1) this, of env now] show ?thesis
    unfolding live_run_def guessing_def foldl_append using t0(1,2) by (auto simp: Let_def)
qed

subsection \<open>Connections that never log in\<close>

text \<open>
  Once a minute a connection of the same address, which is upgraded and then says nothing until the
  handshake times out.
\<close>

fun silent_events :: "ip_addr \<Rightarrow> rstring \<Rightarrow> nat \<Rightarrow> 'h live_event list" where
  "silent_events ip uri 0 = []"
| "silent_events ip uri (Suc k) =
     silent_events ip uri k @
     [Ws_incoming (k * AUTH_WINDOW) ip, Task k (Ws_upgrades (Inr uri)), Task k Ws_times_out]"

definition running :: "'h conn \<Rightarrow> bool" where
  "running c = (case cn_link c of Ws_loop conn ob \<Rightarrow> True | _ \<Rightarrow> False)"

lemma run_times_Cons: "run_times (e # es) = event_times e @ run_times es"
  by (simp add: run_times_def)

lemma silent_times: "run_times (silent_events ip uri n) = map (\<lambda>k. k * AUTH_WINDOW) [0..<n]"
  by (induction n) (simp_all add: run_times_def)

lemma sorted_multiples: "sorted (map (\<lambda>k. k * m) [0..<n])"
  by (induction n) (auto simp: sorted_append)

lemma rate_inv_run: "sorted (run_times es) \<Longrightarrow> \<exists>now. rate_inv now (live_run env config es)"
  using live_run_inv [of es env config] by (auto simp: live_inv_def)

lemma rate_inv_foldl:
  "rate_inv prev t \<Longrightarrow> sorted (prev # run_times es) \<Longrightarrow>
     rate_inv (last (prev # run_times es)) (foldl (live_step env) t es)"
proof (induction es arbitrary: prev t)
  case (Cons e es)
  let ?now = "last (prev # event_times e)"
  have times: "sorted (prev # event_times e @ run_times es)"
    using Cons.prems(2) by (simp add: run_times_def)
  then have "sorted (prev # event_times e)" "sorted (?now # run_times es)" by (auto simp: sorted_append)
  with Cons.IH [OF live_step_rate [OF Cons.prems(1)]]
  have "rate_inv (last (?now # run_times es)) (foldl (live_step env) (live_step env t e) es)" by blast
  moreover have "last (?now # run_times es) = last (prev # run_times (e # es))"
    by (simp add: run_times_Cons last_append)
  ultimately show ?case by simp
qed (simp add: run_times_def)

text \<open>An address with fewer than 30 connections admitted in the last minute is let through.\<close>

lemma admit_free:
  assumes "rate_inv prev t" "prev \<le> now" "length (recent now ip (rev (admitted t))) < AUTH_MAX_PER_IP"
  shows "lv_conns (admit now ip link t) =
      lv_conns t @ [\<lparr>cn_arrived = now, cn_ip = ip, cn_link = link, cn_stage = Shaking\<rparr>]"
    "admitted (admit now ip link t) = admitted t @ [(now, ip)]"
    "sv_conn_permits (lv_server (admit now ip link t)) = sv_conn_permits (lv_server t)"
    "lv_log (admit now ip link t) = lv_log t"
proof -
  have "rate_tracks prev (sv_auth_attempts (lv_server t)) (rev (admitted t))"
    using assms(1) by (simp add: rate_inv_def)
  from rate_tracks_step [OF this assms(2), of ip] assms(3)
  have "fst (rate_step (sv_auth_attempts (lv_server t)) (now, ip))" by (simp add: rate_spec_def)
  then show "lv_conns (admit now ip link t) =
      lv_conns t @ [\<lparr>cn_arrived = now, cn_ip = ip, cn_link = link, cn_stage = Shaking\<rparr>]"
    "admitted (admit now ip link t) = admitted t @ [(now, ip)]"
    "sv_conn_permits (lv_server (admit now ip link t)) = sv_conn_permits (lv_server t)"
    "lv_log (admit now ip link t) = lv_log t"
    by (simp_all add: admit_cases Let_def split_beta admitted_def)
qed

lemma admit_free_at:
  assumes "rate_inv prev t" "prev \<le> now" "\<forall>e \<in> set (admitted t). fst e + AUTH_WINDOW \<le> now"
  shows "length (recent now ip (rev (admitted t))) < AUTH_MAX_PER_IP"
proof -
  have "recent now ip (rev (admitted t)) = []"
    using assms(3) by (fastforce simp: recent_def filter_empty_conv)
  then show ?thesis by (simp add: code_consts)
qed

lemma silent_run:
  fixes config :: server_config
  assumes "check_path (en_path env) uri = None"
  shows "let t = (live_run env config (silent_events ip uri n) :: ('s, 'h) live)
    in admitted t = map (\<lambda>k. (k * AUTH_WINDOW, ip)) [0..<n] \<and> length (lv_conns t) = n \<and>
       (\<forall>c \<in> set (lv_conns t). running c \<and> cn_stage c = Finished) \<and>
       sv_conn_permits (lv_server t) = max_tunnels config \<and> lv_log t = []"
proof (induction n)
  case 0
  then show ?case
    by (simp add: live_run_def live_start_def admitted_def server_new_def max_tunnels_def Let_def)
next
  case (Suc n)
  let ?t = "live_run env config (silent_events ip uri n) :: ('s, 'h) live" and ?now = "n * AUTH_WINDOW"
  from Suc have IH: "admitted ?t = map (\<lambda>k. (k * AUTH_WINDOW, ip)) [0..<n]" "length (lv_conns ?t) = n"
    "\<forall>c \<in> set (lv_conns ?t). running c \<and> cn_stage c = Finished"
    "sv_conn_permits (lv_server ?t) = max_tunnels config" "lv_log ?t = []" by (simp_all add: Let_def)
  let ?es = "silent_events ip uri n :: 'h live_event list"
  have s: "sorted (0 # run_times ?es)"
    unfolding silent_times using sorted_multiples by simp
  have inv: "rate_inv (last (0 # run_times ?es)) ?t"
    unfolding live_run_def by (rule rate_inv_foldl [OF rate_inv_start s])
  have prev: "last (0 # run_times ?es) \<le> ?now"
    unfolding silent_times by (cases n) simp_all
  have "k * AUTH_WINDOW + AUTH_WINDOW \<le> ?now" if "k < n" for k
    using mult_le_mono1 [of "Suc k" n AUTH_WINDOW] that by simp
  then have "length (recent ?now ip (rev (admitted ?t))) < AUTH_MAX_PER_IP"
    by (intro admit_free_at [OF inv prev]) (auto simp: IH(1))
  note adm = admit_free [OF inv prev this, of Ws_upgrading]
  let ?conn = "\<lparr>cn_arrived = ?now, cn_ip = ip, cn_link = Ws_loop (server_conn False)
      (map_option (obfuscator_new (en_hash env)) (en_obfuscation env)), cn_stage = Finished\<rparr> :: 'h conn"
  let ?t' = "live_run env config (silent_events ip uri (Suc n)) :: ('s, 'h) live"
  have t': "?t' = (admit ?now ip Ws_upgrading ?t)\<lparr>lv_conns := lv_conns ?t @ [?conn]\<rparr>"
    using assms IH(2) adm(1) by (simp add: live_run_def ws_upgrade_def nth_append list_update_append)
  show ?case
    unfolding t' Let_def using IH adm by (simp add: admitted_def running_def)
qed

subsection \<open>Addresses that were never checked\<close>

definition sample_env :: run_env where
  "sample_env =
     \<lparr>en_derive = \<lambda>ctx k. k, en_keyed = \<lambda>k m. k @ m, en_hash = \<lambda>m. [], en_mem = 1000, en_path = [],
      en_obfuscation = None\<rparr>"

lemma flood_run:
  fixes config :: server_config
  assumes "n \<le> AUTH_MAX_PER_IP"
  shows "let t = (live_run env config (replicate n (Quic_incoming now ip)) :: ('s, 'h) live)
    in admitted t = replicate n (now, ip) \<and> lv_quic t \<and> rate_inv now t"
  using assms
proof (induction n)
  case 0
  have "rate_inv now (live_start config :: ('s, 'h) live)" by (rule rate_inv_later [OF rate_inv_start]) simp
  then show ?case by (simp add: live_run_def admitted_def live_start_def)
next
  case (Suc n)
  let ?t = "live_run env config (replicate n (Quic_incoming now ip)) :: ('s, 'h) live"
  from Suc have IH: "admitted ?t = replicate n (now, ip)" "lv_quic ?t" "rate_inv now ?t" by (simp_all add: Let_def)
  have "length (recent now ip (rev (admitted ?t))) \<le> length (rev (admitted ?t))"
    unfolding recent_def by (rule length_filter_le)
  then have "length (recent now ip (rev (admitted ?t))) < AUTH_MAX_PER_IP" using IH(1) Suc.prems by simp
  note adm = admit_free [OF IH(3) order_refl this, of Quic_link]
  have "live_run env config (replicate (Suc n) (Quic_incoming now ip)) = admit now ip Quic_link ?t"
    using IH(2) by (simp add: live_run_def flip: replicate_append_same)
  moreover have "lv_quic (admit now ip Quic_link ?t)" using IH(2) by (simp add: admit_cases Let_def split_beta)
  moreover have "rate_inv now (admit now ip Quic_link ?t)" by (rule admit_rate [OF IH(3) order_refl])
  ultimately show ?case using adm(2) IH(1) by (simp add: replicate_append_same)
qed

text \<open>
  The QUIC listener counts a connection before quinn has checked the address of its first packet: 30
  packets with the source address of somebody else lock that address out of both transports for a
  minute, although no handshake ever begins.
\<close>

theorem unvalidated_packets_lock_out:
  fixes config :: server_config
  assumes "now \<le> now'" "now' < now + AUTH_WINDOW"
    and "ev = Quic_incoming now' ip \<or> ev = Ws_incoming now' ip"
  shows "let es = replicate AUTH_MAX_PER_IP (Quic_incoming now ip)
    in lv_conns (live_run env config (es @ [ev]) :: (nat, nat) live) =
      lv_conns (live_run env config es :: (nat, nat) live)"
proof -
  let ?t = "live_run env config (replicate AUTH_MAX_PER_IP (Quic_incoming now ip)) :: (nat, nat) live"
  have t: "admitted ?t = replicate AUTH_MAX_PER_IP (now, ip)" "rate_inv now ?t"
    using flood_run [of AUTH_MAX_PER_IP env config now ip, where 's = nat and 'h = nat] by (simp_all add: Let_def)
  have "rate_tracks now (sv_auth_attempts (lv_server ?t)) (rev (admitted ?t))"
    using t(2) by (simp add: rate_inv_def)
  from rate_tracks_step [OF this assms(1), of ip]
  moreover have "now' - now < AUTH_WINDOW" using assms(1,2) by linarith
  ultimately have "\<not> fst (rate_step (sv_auth_attempts (lv_server ?t)) (now', ip))"
    by (simp add: rate_spec_def t(1) recent_def filter_replicate)
  then have "lv_conns (admit now' ip link ?t) = lv_conns ?t" for link
    by (simp add: admit_cases Let_def split_beta)
  with assms(3) show ?thesis by (auto simp: live_run_def Let_def)
qed

theorem unvalidated_packets_lock_out_witness:
  "lv_conns (live_run sample_env sample_config (replicate AUTH_MAX_PER_IP (Quic_incoming 5 (V4 1)) @ [Ws_incoming 6 (V4 1)]) :: (nat, nat) live)
   = lv_conns (live_run sample_env sample_config (replicate AUTH_MAX_PER_IP (Quic_incoming 5 (V4 1))) :: (nat, nat) live)"
  using unvalidated_packets_lock_out [of 5 6 "Ws_incoming 6 (V4 1)" "V4 1"]
  by (simp add: Let_def code_consts seconds_def)

subsection \<open>A request that was accepted before\<close>

lemma run_guard_length [simp]: "length (fst (run_guard step s ks)) = length ks"
  by (induction ks arbitrary: s) simp_all

lemma run_guard_nth:
  assumes "k < length ks"
  shows "fst (run_guard step s ks) ! k = last (fst (run_guard step s (take (Suc k) ks)))"
proof -
  have "fst (run_guard step s ks) = fst (run_guard step s (take (Suc k) ks @ drop (Suc k) ks))" by simp
  then have "fst (run_guard step s ks) ! k = fst (run_guard step s (take (Suc k) ks)) ! k"
    unfolding run_guard_append(1) using assms by (simp add: nth_append)
  moreover have "fst (run_guard step s (take (Suc k) ks)) \<noteq> []"
    using assms run_guard_length [of step s "take (Suc k) ks"] by (metis length_0_conv length_take min_absorb2 Suc_leI nat.distinct(1))
  ultimately show ?thesis using assms by (simp add: last_conv_nth min_absorb2)
qed

lemma split_at_two:
  assumes "k < j" "j < length xs"
  shows "take (Suc j) xs = take k xs @ [xs ! k] @ take (j - Suc k) (drop (Suc k) xs) @ [xs ! j]"
proof -
  have "take (Suc j) xs = take j xs @ [xs ! j]" using assms by (simp add: take_Suc_conv_app_nth)
  also have "take j xs = take (Suc k) xs @ take (j - Suc k) (drop (Suc k) xs)"
    using assms by (simp flip: take_add)
  also have "take (Suc k) xs = take k xs @ [xs ! k]" using assms by (simp add: take_Suc_conv_app_nth)
  finally show ?thesis by simp
qed

lemma replay_refused:
  fixes config :: server_config
  assumes s: "sorted (map fst calls)" and k: "k < j" "j < length calls"
    and spec: "ds = fst (run_guard (auth_spec derive keyed (sc_password config)) [] calls)"
    and acc: "ds ! k" and nonce: "aq_client_nonce (snd (calls ! j)) = aq_client_nonce (snd (calls ! k))"
    and near: "fst (calls ! j) < fst (calls ! k) + REPLAY_TTL" "j - k \<le> REPLAY_CACHE_MAX"
  shows "\<not> ds ! j"
proof -
  let ?step = "auth_step derive keyed" and ?s = "server_new config :: (nat, nat) server"
  let ?xs = "take k calls" and ?ys = "take (j - Suc k) (drop (Suc k) calls)"
  obtain t1 req where 1: "calls ! k = (t1, req)" by (cases "calls ! k")
  obtain t2 req' where 2: "calls ! j = (t2, req')" by (cases "calls ! j")
  have at: "take (Suc k) calls = ?xs @ [(t1, req)]" "take (Suc j) calls = ?xs @ [(t1, req)] @ ?ys @ [(t2, req')]"
    using k split_at_two [OF k] 1 2 by (simp_all add: take_Suc_conv_app_nth)
  have ds: "ds ! m = last (fst (run_guard ?step ?s (take (Suc m) calls)))" if "m < length calls" for m
    using run_guard_nth [OF that, of ?step ?s]
    unfolding spec auth_decisions [OF s, of derive keyed config] by simp
  have sort: "sorted (map fst (?xs @ [(t1, req)] @ ?ys @ [(t2, req')]))"
    unfolding at(2) [symmetric] take_map [symmetric] by (rule sorted_wrt_take [OF s])
  have "\<not> last (fst (run_guard ?step ?s (?xs @ [(t1, req)] @ ?ys @ [(t2, req')])))"
    by (rule captured_request_refused [OF sort])
      (use acc ds [of k] k nonce near 1 2 at(1) in \<open>auto simp: code_consts\<close>)
  then show ?thesis unfolding ds [OF k(2)] at(2) .
qed

subsection \<open>Properties\<close>

text \<open>
  (C3) Verdicts on the whole server: however the listeners and connections of both transports take
  their turns, the verdicts on all requests of both transports are those of one checker with one bounded
  history, in the order the requests were validated. So once a request was authenticated, on either
  transport, one with the same nonce is refused on both for ten minutes (\<open>REPLAY_TTL\<close>) and as long as at
  most 8192 (\<open>REPLAY_CACHE_MAX\<close>) further requests were checked; after that it may be authenticated again
  (\<open>Server_Auth.captured_request_accepted_after_ttl\<close>). And a connection holds a permit only after a request of
  its own was put to that check; with what verdict does not matter, since neither transport enforces it
  (\<open>Server_Tunnels.quic_login_not_enforced\<close>).
\<close>

theorem whole_server_authenticates:
  assumes "sorted (run_times es)"
  shows "let t = live_run env config es :: (nat, nat) live; log = lv_log t in
    map (\<lambda>l. authenticated (lg_verdict l)) log =
      fst (run_guard (auth_spec (en_derive env) (en_keyed env) (sc_password config)) [] (map login_call log)) \<and>
    (\<forall>k j. k < j \<and> j < length log \<and> authenticated (lg_verdict (log ! k)) \<and>
       aq_client_nonce (lg_request (log ! j)) = aq_client_nonce (lg_request (log ! k)) \<and>
       lg_time (log ! j) < lg_time (log ! k) + REPLAY_TTL \<and> j - k \<le> REPLAY_CACHE_MAX \<longrightarrow>
       \<not> authenticated (lg_verdict (log ! j))) \<and>
    (\<forall>i < length (lv_conns t). holds_permit (cn_stage (lv_conns t ! i)) \<longrightarrow> (\<exists>l \<in> set log. lg_conn l = i))"
proof -
  let ?t = "live_run env config es :: (nat, nat) live"
  let ?log = "lv_log ?t"
  obtain now where inv: "live_inv env config now ?t" using live_run_inv [OF assms] by blast
  then have verdicts: "map (\<lambda>l. authenticated (lg_verdict l)) ?log =
      fst (run_guard (auth_spec (en_derive env) (en_keyed env) (sc_password config)) [] (map login_call ?log))"
    and "sorted (map lg_time ?log @ [now])"
    by (auto simp: live_inv_def verdicts_inv_def password_spec_def split: prod.splits)
  then have sorted: "sorted (map fst (map login_call ?log))" by (simp add: login_call_def comp_def sorted_append)
  have "\<not> authenticated (lg_verdict (?log ! j))"
    if "k < j" "j < length ?log" "authenticated (lg_verdict (?log ! k))"
      "aq_client_nonce (lg_request (?log ! j)) = aq_client_nonce (lg_request (?log ! k))"
      "lg_time (?log ! j) < lg_time (?log ! k) + REPLAY_TTL" "j - k \<le> REPLAY_CACHE_MAX" for k j
    using replay_refused [OF sorted that(1) _ verdicts] that by (simp add: login_call_def)
  moreover have "has_login ?log i (cn_stage (lv_conns ?t ! i))" if "i < length (lv_conns ?t)" for i
    using inv that by (simp add: live_inv_def logins_inv_def)
  then have "\<exists>l \<in> set ?log. lg_conn l = i"
    if "i < length (lv_conns ?t)" "holds_permit (cn_stage (lv_conns ?t ! i))" for i
    using that by (fastforce simp: holds_permit_def has_login_def split: stage.splits)
  ultimately show ?thesis using verdicts unfolding Let_def by blast
qed

lemma sample_login:
  "sendable_login (sample_request (replicate 8 1))" "check_path (en_path sample_env) [] = None"
  "en_obfuscation sample_env = None"
proof -
  have "length (encode_auth_request [] (sample_request (replicate 8 1))) \<le> 100" by code_simp
  then show "sendable_login (sample_request (replicate 8 1))"
    by (simp add: sendable_login_def wf_auth_request_def sample_request_def code_consts)
qed (simp_all add: sample_env_def check_path_def)

text \<open>A captured login, first replayed on its own connection, then over QUIC from another address.\<close>

definition replay_events :: "nat live_event list" where
  "replay_events =
     guessing 5 (V4 1) [] [sample_request (replicate 8 1), sample_request (replicate 8 1)] @
     [Quic_incoming 6 (V4 2),
      Task 1 (Quic_shakes 7 (Ok \<lparr>bi_recv = framed (encode_auth_request [] (sample_request (replicate 8 1))),
        bi_read_error = [], bi_sent = [], bi_write_error = None\<rparr>)), Task 1 Takes_permit]"

lemma replay_log:
  "map login_call (lv_log (live_run sample_env sample_config replay_events :: (nat, nat) live)) =
     [(5, sample_request (replicate 8 1)), (5, sample_request (replicate 8 1)), (7, sample_request (replicate 8 1))]"
proof -
  let ?req = "sample_request (replicate 8 1)"
  let ?t = "live_run sample_env sample_config (guessing 5 (V4 1) [] [?req, ?req]) :: (nat, nat) live"
  let ?s = "\<lparr>bi_recv = framed (encode_auth_request [] ?req), bi_read_error = [], bi_sent = [], bi_write_error = None\<rparr>"
  have "\<forall>req \<in> set [?req, ?req]. sendable_login req" using sample_login(1) by simp
  from guessing_run [OF this sample_login(2,3), of sample_config 5 "V4 1", where 's = nat and 'h = nat]
  obtain c conn where t: "map login_call (lv_log ?t) = [(5, ?req), (5, ?req)]" "admitted ?t = [(5, V4 1)]"
    "lv_conns ?t = [c]" by (auto simp: Let_def)
  have quic: "lv_quic ?t"
    by (simp add: live_run_def guessing_def login_events_def live_start_def admit_def split_beta Let_def)
  have "sorted (0 # run_times (guessing 5 (V4 1) [] [?req, ?req] :: nat live_event list))"
    and last: "last (0 # run_times (guessing 5 (V4 1) [] [?req, ?req] :: nat live_event list)) = 5"
    by (simp_all add: run_times_def guessing_def login_events_def)
  from rate_inv_foldl [OF rate_inv_start this(1), of sample_env sample_config]
  have inv: "rate_inv 5 ?t" unfolding last by (simp add: live_run_def)
  have "length (recent 6 (V4 2) (rev (admitted ?t))) < AUTH_MAX_PER_IP"
    by (simp add: t(2) recent_def code_consts)
  note adm = admit_free [OF inv _ this, of Quic_link]
  let ?t1 = "admit 6 (V4 2) Quic_link ?t"
  let ?val = "logged_validate sample_env 1 7"
  obtain resp v' where v: "?val (lv_state ?t1) ?req = (Ok resp, v')"
    using validate_returns [of "en_derive sample_env" "en_keyed sample_env" 7 "fst (snd (lv_state ?t1))" "lv_server ?t1" ?req]
    by (fastforce simp: logged_validate_def split_beta)
  have "length (encode_auth_request [] ?req) \<le> 1000" by code_simp
  then have "fst (server_handshake 1000 ?val (lv_state ?t1) ?s) = (Ok ?req, v')"
    using sample_login(1) v by (intro server_handshake_ready [where resp = resp]) (simp_all add: sendable_login_def)
  then have shake: "quic_shake sample_env 1 7 (Ok ?s) (lv_state ?t1) = (Ready ?req, v')"
    by (simp add: quic_shake_def sample_env_def split_beta)
  have "fst v' = lv_log ?t1 @ [\<lparr>lg_conn = 1, lg_time = 7, lg_request = ?req, lg_verdict = Ok resp\<rparr>]"
    using logged_validate_frame(1) [of sample_env 1 7 "lv_state ?t1" ?req] v by simp
  moreover have "lv_log (live_run sample_env sample_config replay_events :: (nat, nat) live) = fst v'"
    using quic adm(1) t(3) shake
    by (cases v') (simp add: live_run_def replay_events_def split_beta)
  ultimately show ?thesis using t(1) adm(4) by (simp add: login_call_def)
qed

theorem whole_server_authenticates_witness:
  "map (\<lambda>l. authenticated (lg_verdict l)) (lv_log (live_run sample_env sample_config replay_events :: (nat, nat) live))
     = [True, False, False]"
proof -
  have "sorted (run_times replay_events)"
    by (simp add: run_times_def replay_events_def guessing_def login_events_def)
  from whole_server_authenticates [OF this, of sample_env sample_config]
  have "map (\<lambda>l. authenticated (lg_verdict l)) (lv_log (live_run sample_env sample_config replay_events :: (nat, nat) live)) =
      fst (run_guard (auth_spec (en_derive sample_env) (en_keyed sample_env) (sc_password sample_config)) []
        (map login_call (lv_log (live_run sample_env sample_config replay_events :: (nat, nat) live))))"
    unfolding Let_def by blast
  then show ?thesis
    unfolding replay_log
    by (simp add: auth_spec_def genuine_def sample_env_def sample_config_def sample_request_def
        compute_auth_proof_def derive_key_def history_insert_def remembered_def fresh_at_def code_consts seconds_def)
qed

text \<open>
  (C11) The limits of the whole server: in every run free permits and open tunnels of both transports
  add up to the configured limit, the counter of active tunnels is exact but for tasks that panicked,
  and in no minute are more than 30 connections of one address let through, whichever transports
  they use.
\<close>

theorem whole_server_limits:
  assumes "sorted (run_times es)"
  shows "let t = live_run env config es :: (nat, nat) live in
    sv_conn_permits (lv_server t) + length (open_conns t) = max_tunnels config \<and>
    sv_conns_active (lv_server t) = of_nat (length (counted_conns t)) \<and>
    length (in_window ip a (admitted t)) \<le> AUTH_MAX_PER_IP"
proof -
  let ?t = "live_run env config es :: (nat, nat) live"
  obtain now where inv: "live_inv env config now ?t" using live_run_inv [OF assms] by blast
  then have "rate_ok (rev (admitted ?t))" by (simp add: live_inv_def rate_inv_def)
  from rate_ok_window [OF this, of ip a] have "length (in_window ip a (admitted ?t)) \<le> AUTH_MAX_PER_IP"
    by (simp add: in_window_def flip: rev_filter)
  with inv show ?thesis by (simp add: live_inv_def permits_inv_def Let_def)
qed

theorem whole_server_limits_witness:
  "let t = live_run sample_env sample_config (silent_events (V4 1) [] 40) :: (nat, nat) live in
    sv_conn_permits (lv_server t) + length (open_conns t) = 1024 \<and>
    length (in_window (V4 1) 7 (admitted t)) \<le> 30"
  using whole_server_limits [of "silent_events (V4 1) [] 40" sample_env sample_config "V4 1" 7]
    sorted_multiples [of AUTH_WINDOW 40]
  by (simp only: silent_times Let_def) (simp add: max_tunnels_def sample_config_def code_consts)

text \<open>
  (C39) The limit on login attempts is one on connections: over one WebSocket connection a client can
  try any number of passwords in the same instant. All are validated, the right one is accepted, and
  the rate limiter has seen a single attempt.
\<close>

theorem one_connection_tries_all_passwords:
  fixes config :: server_config
  assumes "\<forall>req \<in> set (wrong @ [right]). sendable_login req"
    and "\<forall>req \<in> set wrong. \<not> genuine (en_derive env) (en_keyed env) (sc_password config) req"
    and "genuine (en_derive env) (en_keyed env) (sc_password config) right"
    and "check_path (en_path env) uri = None" and "en_obfuscation env = None"
  shows "let t = live_run env config (guessing now ip uri (wrong @ [right])) :: (nat, nat) live in
    map lg_request (lv_log t) = wrong @ [right] \<and>
    map (\<lambda>l. authenticated (lg_verdict l)) (lv_log t) = replicate (length wrong) False @ [True] \<and>
    admitted t = [(now, ip)]"
proof -
  let ?es = "guessing now ip uri (wrong @ [right]) :: nat live_event list"
  let ?t = "live_run env config ?es :: (nat, nat) live"
  have run: "map login_call (lv_log ?t) = map (Pair now) wrong @ [(now, right)]" "admitted ?t = [(now, ip)]"
    using guessing_run [OF assms(1,4,5), of config now ip, where 's = nat and 'h = nat] by (simp_all add: Let_def)
  obtain t' where "live_inv env config t' ?t"
    using live_run_inv [OF sorted_constant [OF run_times_guessing]] by blast
  then have verdicts: "map (\<lambda>l. authenticated (lg_verdict l)) (lv_log ?t) =
      fst (run_guard (password_spec env config) [] (map login_call (lv_log ?t)))"
    by (auto simp: live_inv_def verdicts_inv_def split: prod.splits)
  have wrong: "\<forall>c \<in> set (map (Pair now) wrong). \<not> genuine (en_derive env) (en_keyed env) (sc_password config) (snd c)"
    using assms(2) by simp
  have "fst (password_spec env config [] (now, right))"
    using assms(3) by (simp add: password_spec_def auth_spec_def history_insert_def remembered_def)
  then have "fst (run_guard (password_spec env config) [] (map (Pair now) wrong @ [(now, right)])) =
      replicate (length wrong) False @ [True]"
    by (simp add: run_guard_append password_spec_guesses [OF wrong])
  moreover have "map lg_request (lv_log ?t) = map snd (map login_call (lv_log ?t))" by (simp add: login_call_def)
  then have "map lg_request (lv_log ?t) = wrong @ [right]" by (simp only: run(1)) (simp add: comp_def)
  ultimately show ?thesis using run verdicts by (simp add: Let_def)
qed

theorem one_connection_tries_all_passwords_witness:
  "let wrong = replicate 1000 ((sample_request (replicate 8 1))\<lparr>aq_auth_proof := [0]\<rparr>);
       right = sample_request (replicate 8 1);
       t = live_run sample_env sample_config (guessing 5 (V4 1) [] (wrong @ [right])) :: (nat, nat) live
   in map (\<lambda>l. authenticated (lg_verdict l)) (lv_log t) = replicate 1000 False @ [True] \<and>
      admitted t = [(5, V4 1)]"
proof -
  let ?right = "sample_request (replicate 8 1)" and ?bad = "(sample_request (replicate 8 1))\<lparr>aq_auth_proof := [0]\<rparr>"
  have "length (encode_auth_request [] ?bad) \<le> 100" by code_simp
  then have bad: "sendable_login ?bad"
    by (simp add: sendable_login_def wf_auth_request_def sample_request_def code_consts)
  have 1: "\<forall>req \<in> set (replicate n ?bad @ [?right]). sendable_login req" for n
    using bad sample_login(1) by simp
  have 2: "\<forall>req \<in> set (replicate n ?bad).
      \<not> genuine (en_derive sample_env) (en_keyed sample_env) (sc_password sample_config) req" for n
    by (simp add: genuine_def sample_env_def sample_config_def sample_request_def compute_auth_proof_def
        derive_key_def code_consts)
  have 3: "genuine (en_derive sample_env) (en_keyed sample_env) (sc_password sample_config) ?right"
    by (simp add: genuine_def sample_env_def sample_config_def sample_request_def compute_auth_proof_def
        derive_key_def code_consts)
  show ?thesis
    using one_connection_tries_all_passwords [OF 1 [of 1000] 2 3 sample_login(2,3), of 5 "V4 1"]
    unfolding Let_def by (simp only: length_replicate)
qed

text \<open>
  (C35) The timeout of the handshake does not end a connection and the limit on tunnels does not count
  it: an address that opens one WebSocket connection a minute and says nothing keeps all of them, any
  number, with their loops running and not one permit taken.
\<close>

theorem silent_connections_pile_up:
  fixes config :: server_config
  assumes "check_path (en_path env) uri = None"
  shows "let t = live_run env config (silent_events ip uri n) :: (nat, nat) live in
    length (filter running (lv_conns t)) = n \<and> (\<forall>c \<in> set (lv_conns t). cn_stage c = Finished) \<and>
    sv_conn_permits (lv_server t) = max_tunnels config"
  using silent_run [OF assms, of config ip n] by (auto simp: Let_def filter_id_conv [THEN iffD2])

theorem silent_connections_pile_up_witness:
  "let t = live_run sample_env sample_config (silent_events (V4 1) [] 5000) :: (nat, nat) live in
    length (filter running (lv_conns t)) = 5000 \<and> sv_conn_permits (lv_server t) = max_tunnels sample_config"
  using silent_connections_pile_up [OF sample_login(2), of sample_config "V4 1" 5000]
  unfolding Let_def by blast

end
