(* ===== verification/Listeners.thy ===== *)
theory Listeners
  imports Server_Run Client
begin

section \<open>Listeners\<close>

text \<open>
  What both programs start with: the QUIC configuration a server builds from its certificate and the
  endpoints made from it (\<open>src/crates/hydr-server/src/lib.rs\<close>, \<open>make_server_config\<close> of
  \<open>src/crates/hydr-transport/src/tls.rs\<close> and \<open>quic.rs\<close>), \<open>run_ws\<close>, the metrics endpoint, and the SOCKS5
  listener of the client (\<open>src/crates/hydr-client/src/lib.rs\<close>). Binding a socket is an argument: \<open>denied\<close>
  gives the error for an address that cannot be bound.
\<close>

subsection \<open>The configuration of a QUIC server\<close>

text \<open>
  \<open>rcgen\<close> makes a certificate and a key for a list of names; \<open>single_cert\<close> is rustls' server
  configuration for a chain of certificates and a key, \<open>crypto\<close> its conversion for quinn.
\<close>

definition generate_self_signed ::
  "(rstring list \<Rightarrow> rstring + bytes \<times> bytes) \<Rightarrow> rstring \<Rightarrow> rstring + generated_cert" where
  "generate_self_signed rcgen server_name =
     (case rcgen [server_name] of
        Inl e \<Rightarrow> Inl e
      | Inr (cert, key) \<Rightarrow> Inr \<lparr>gc_cert = cert, gc_key = key\<rparr>)"

definition tls_make_server_config :: "(bytes list \<Rightarrow> bytes \<Rightarrow> rstring + 'r) \<Rightarrow> bytes \<Rightarrow> bytes \<Rightarrow> rstring + 'r" where
  "tls_make_server_config single_cert cert_der key_der = single_cert [cert_der] key_der"

text \<open>\<open>qs_transport = None\<close> is quinn's default.\<close>

record 'c quinn_server =
  qs_crypto :: 'c
  qs_transport :: "quinn_config option"

definition quic_make_server_config ::
  "('r \<Rightarrow> rstring + 'c) \<Rightarrow> 'r \<Rightarrow> quinn_config option \<Rightarrow> hydr_error + 'c quinn_server" where
  "quic_make_server_config crypto rustls_cfg transport =
     (case crypto rustls_cfg of
        Inl e \<Rightarrow> Inl (to_io_error e)
      | Inr quic_cfg \<Rightarrow>
          (let cfg = \<lparr>qs_crypto = quic_cfg, qs_transport = None\<rparr>
           in Inr (case transport of None \<Rightarrow> cfg | Some t \<Rightarrow> cfg\<lparr>qs_transport := Some t\<rparr>)))"

record ('r, 'c) quic_lib =
  qb_single_cert :: "bytes list \<Rightarrow> bytes \<Rightarrow> rstring + 'r"
  qb_crypto :: "'r \<Rightarrow> rstring + 'c"
  qb_default :: quinn_config

text \<open>The error is a boxed one; what is kept of it is its text.\<close>

definition build_quinn_server_config ::
  "('r, 'c) quic_lib \<Rightarrow> u64 \<Rightarrow> generated_cert \<Rightarrow> rstring + 'c quinn_server" where
  "build_quinn_server_config lib cc_rx cert =
     (case tls_make_server_config (qb_single_cert lib) (gc_cert cert) (gc_key cert) of
        Inl e \<Rightarrow> Inl e
      | Inr rustls_cfg \<Rightarrow>
          (case quic_make_server_config (qb_crypto lib) rustls_cfg (Some (transport_config (qb_default lib) cc_rx)) of
             Inl e \<Rightarrow> Inl (error_to_string e)
           | Inr cfg \<Rightarrow> Inr cfg))"

text \<open>An endpoint is its configuration and address; the fingerprint is returned beside it.\<close>

definition make_quic_endpoint_from_cert ::
  "('r, 'c) quic_lib \<Rightarrow> (bytes \<Rightarrow> bytes) \<Rightarrow> (socket_addr \<Rightarrow> rstring option) \<Rightarrow> socket_addr \<Rightarrow> generated_cert \<Rightarrow> u64
     \<Rightarrow> rstring + ('c quinn_server \<times> socket_addr) \<times> bytes" where
  "make_quic_endpoint_from_cert lib sha256 denied bind cert cc_rx =
     (let fp = cert_fingerprint sha256 (gc_cert cert) in
      case tls_make_server_config (qb_single_cert lib) (gc_cert cert) (gc_key cert) of
        Inl e \<Rightarrow> Inl e
      | Inr rustls_cfg \<Rightarrow>
          (case quic_make_server_config (qb_crypto lib) rustls_cfg (Some (transport_config (qb_default lib) cc_rx)) of
             Inl e \<Rightarrow> Inl (error_to_string e)
           | Inr quinn_cfg \<Rightarrow>
               (case denied bind of Some e \<Rightarrow> Inl e | None \<Rightarrow> Inr ((quinn_cfg, bind), fp))))"

definition make_quic_endpoint_with ::
  "('r, 'c) quic_lib \<Rightarrow> (bytes \<Rightarrow> bytes) \<Rightarrow> (rstring list \<Rightarrow> rstring + bytes \<times> bytes) \<Rightarrow> (socket_addr \<Rightarrow> rstring option)
     \<Rightarrow> socket_addr \<Rightarrow> rstring \<Rightarrow> u64 \<Rightarrow> rstring + ('c quinn_server \<times> socket_addr) \<times> bytes" where
  "make_quic_endpoint_with lib sha256 rcgen denied bind server_name cc_rx =
     (case generate_self_signed rcgen server_name of
        Inl e \<Rightarrow> Inl e
      | Inr cert \<Rightarrow> make_quic_endpoint_from_cert lib sha256 denied bind cert cc_rx)"

definition make_quic_endpoint ::
  "('r, 'c) quic_lib \<Rightarrow> (bytes \<Rightarrow> bytes) \<Rightarrow> (rstring list \<Rightarrow> rstring + bytes \<times> bytes) \<Rightarrow> (socket_addr \<Rightarrow> rstring option)
     \<Rightarrow> socket_addr \<Rightarrow> rstring \<Rightarrow> rstring + ('c quinn_server \<times> socket_addr) \<times> bytes" where
  "make_quic_endpoint lib sha256 rcgen denied bind server_name =
     make_quic_endpoint_with lib sha256 rcgen denied bind server_name 0"

subsection \<open>The other listeners of the server\<close>

text \<open>\<open>run_ws\<close>: the surroundings in which the accept loop runs, if the address can be bound.\<close>

definition run_ws :: "(socket_addr \<Rightarrow> rstring option) \<Rightarrow> ws_listen \<Rightarrow> run_env \<Rightarrow> run_env option" where
  "run_ws denied cfg env =
     (case denied (wl_bind cfg) of
        Some e \<Rightarrow> None
      | None \<Rightarrow> Some (env\<lparr>en_path := wl_path cfg, en_obfuscation := wl_obfuscation cfg\<rparr>))"

text \<open>
  \<open>serve\<close> of the metrics endpoint: for each accepted connection, with the counters as they are then and
  what was read of the request, the answer. A failing \<open>accept\<close> is logged.
\<close>

definition serve_metrics ::
  "(socket_addr \<Rightarrow> rstring option) \<Rightarrow> socket_addr \<Rightarrow> (metrics \<times> (rstring + bytes)) list \<Rightarrow> bytes list" where
  "serve_metrics denied bind turns =
     (case denied bind of
        Some e \<Rightarrow> []
      | None \<Rightarrow> concat (map (\<lambda>(m, accepted). case accepted of Inl e \<Rightarrow> [] | Inr request \<Rightarrow> [metrics_response m request]) turns))"

subsection \<open>The SOCKS5 listener of the client\<close>

definition is_loopback :: "ip_addr \<Rightarrow> bool" where
  "is_loopback ip = (case ip of V4 a \<Rightarrow> drop_bit 24 a = 127 | V6 a \<Rightarrow> a = 1)"

text \<open>
  \<open>Client::connect\<close>: whether it warns about an open proxy, and the tunnel it starts with, whatever the
  warning.
\<close>

definition client_connect ::
  "derive_key_fn \<Rightarrow> keyed_hash_fn \<Rightarrow> hash_fn \<Rightarrow> quinn_config \<Rightarrow> nat \<Rightarrow> ('q, 'w) network \<Rightarrow> bytes option
     \<Rightarrow> client_config \<Rightarrow> bool \<times> ('q, 'w) tunnel result" where
  "client_connect derive keyed hash default_cfg mem net random config =
     (let warned = (cf_socks5_username config = None \<and> \<not> is_loopback (fst (cf_socks5_bind config)))
      in (warned, connect_tunnel derive keyed hash default_cfg mem net random config))"

text \<open>
  \<open>run_socks5_on\<close>: each accepted connection gets a task of its own, a function of the client's state
  at the time it runs.
\<close>

type_synonym 'c socks_task = "'c \<Rightarrow> (socks_session result \<times> 'c) \<times> bi_stream"

definition run_socks5_on ::
  "(address \<Rightarrow> 'c \<Rightarrow> unit result \<times> 'c) \<Rightarrow> ('c \<Rightarrow> bi_stream \<Rightarrow> (u32 result \<times> 'c) \<times> bi_stream) \<Rightarrow> client_config
     \<Rightarrow> (rstring + bi_stream) list \<Rightarrow> 'c socks_task list" where
  "run_socks5_on connect udp config accepts =
     concat (map (\<lambda>accepted. case accepted of
         Inl e \<Rightarrow> []
       | Inr tcp \<Rightarrow> [\<lambda>c. handle_conn connect udp (cf_socks5_username config) (cf_socks5_password config) c tcp]) accepts)"

text \<open>\<open>run_socks5\<close>: once the address is bound the loop goes on for ever.\<close>

definition run_socks5 ::
  "(socket_addr \<Rightarrow> rstring option) \<Rightarrow> (address \<Rightarrow> 'c \<Rightarrow> unit result \<times> 'c) \<Rightarrow>
   ('c \<Rightarrow> bi_stream \<Rightarrow> (u32 result \<times> 'c) \<times> bi_stream) \<Rightarrow> client_config \<Rightarrow> (rstring + bi_stream) list
     \<Rightarrow> unit result \<times> 'c socks_task list" where
  "run_socks5 denied connect udp config accepts =
     (case denied (cf_socks5_bind config) of
        Some e \<Rightarrow> (Fail (Io e), [])
      | None \<Rightarrow> (Ok (), run_socks5_on connect udp config accepts))"

subsection \<open>What a QUIC server announces\<close>

text \<open>
  The configuration an endpoint serves and the fingerprint the log shows for it, at the start and
  after any turns of the reloading task.
\<close>

definition after_reloads ::
  "(bytes \<Rightarrow> bytes) \<Rightarrow> (generated_cert \<Rightarrow> rstring + 'q) \<Rightarrow> (bool \<times> nat option \<times> (rstring + generated_cert)) list
     \<Rightarrow> 'q quic_start \<Rightarrow> 'q quic_start" where
  "after_reloads sha256 build turns start =
     (case start of
        Reloading s \<Rightarrow> Reloading (foldl (\<lambda>s (hup, mtime, loaded). reload_turn sha256 build hup mtime loaded s) s turns)
      | _ \<Rightarrow> start)"

definition announces :: "'q quic_start \<Rightarrow> ('q \<times> bytes) option" where
  "announces start =
     (case start of
        Listen_failed e \<Rightarrow> None
      | Listening q fp \<Rightarrow> Some (q, fp)
      | Reloading s \<Rightarrow> Some (re_served s, re_current_fp s))"

lemma reload_turns_serve:
  "serves_fingerprint sha256 build s \<Longrightarrow>
     serves_fingerprint sha256 build (foldl (\<lambda>s (hup, mtime, loaded). reload_turn sha256 build hup mtime loaded s) s turns)"
  by (induction turns arbitrary: s) (simp_all add: split_beta reload_turn_serves)

lemma announces_served:
  assumes "run_quic_start base64 read_cert read_key generate faults sha256 build bind cfg files = (start, files')"
    and "announces (after_reloads sha256 build turns start) = Some (q, fp)"
  shows "\<exists>g. build g = Inr q \<and> cert_fingerprint sha256 (gc_cert g) = fp"
proof (cases start)
  case (Listen_failed e)
  with assms(2) show ?thesis by (simp add: announces_def after_reloads_def)
next
  case (Listening q' fp')
  with assms show ?thesis
    by (auto simp: announces_def after_reloads_def run_quic_start_def Let_def
        split: prod.splits sum.splits option.splits if_splits)
next
  case (Reloading s)
  from reload_turns_serve [OF run_quic_start_serves [OF assms(1) [unfolded Reloading]]] assms(2) show ?thesis
    by (auto simp: Reloading announces_def after_reloads_def serves_fingerprint_def)
qed

lemma build_quinn_transport:
  "build_quinn_server_config lib cc_rx g = Inr q \<Longrightarrow> qs_transport q = Some (transport_config (qb_default lib) cc_rx)"
  by (auto simp: build_quinn_server_config_def quic_make_server_config_def Let_def split: sum.splits)

lemma map_lower_hex: "map lower (filter (\<lambda>c. c \<noteq> COLON) (hex_encode bs)) = hex_encode bs"
proof -
  have "c \<noteq> COLON" if "c \<in> set (hex_encode bs)" for c
    using hex_encode_digits [of bs] that by (auto simp: list_all_iff is_hexdigit_def COLON_def)
  then have "filter (\<lambda>c. c \<noteq> COLON) (hex_encode bs) = hex_encode bs" by (simp add: filter_id_conv)
  moreover have "map lower (hex_encode bs) = hex_encode bs"
    by (induction bs) (simp_all add: hex_byte_def hex_digit_nibble nibbles)
  ultimately show ?thesis by simp
qed

lemma fingerprint_hex_parses:
  "length fp = 32 \<Longrightarrow> require_fingerprint (Some (fingerprint_hex fp)) = Ok (Some fp)"
  using parse_fingerprint_iff [of fp "hex_encode fp"] map_lower_hex [of fp]
  by (simp add: require_fingerprint_def fingerprint_hex_def)

text \<open>An endpoint made from a certificate returns that certificate's fingerprint beside it.\<close>

lemma make_quic_endpoint_builds:
  "make_quic_endpoint_from_cert lib sha256 denied bind g cc_rx = Inr ((q, addr), fp) \<Longrightarrow>
     build_quinn_server_config lib cc_rx g = Inr q \<and> addr = bind \<and> fp = cert_fingerprint sha256 (gc_cert g)"
  by (auto simp: make_quic_endpoint_from_cert_def build_quinn_server_config_def split: sum.splits option.splits)

subsection \<open>Properties\<close>

text \<open>
  The rates the two sides tell each other during the login are not used: neither the verdict of the
  server nor what the client makes of the answer depends on them. Each side sends at the rate of its
  own configuration.
\<close>

theorem advertised_rates_unused:
  "validate derive keyed now m self (req\<lparr>aq_cc_rx := rx\<rparr>) = validate derive keyed now m self req \<and>
   connect_answer (Ok (resp\<lparr>ar_server_cc_rx := rx\<rparr>)) = connect_answer (Ok resp) \<and>
   (build_quinn_server_config lib cc_rx g = Inr q \<longrightarrow>
      qs_transport q = Some (transport_config (qb_default lib) cc_rx))"
  using build_quinn_transport by (auto simp: validate_def connect_answer_def Let_def)

text \<open>
  (C19) What the server announces is what a client can pin: the fingerprint shown for a QUIC endpoint, at
  its start or after any turns of the reloading task, is accepted by the configuration of a client, and
  a client with it trusts the certificate the endpoint was built from, and exactly the certificates
  with the same digest, with or without \<open>insecure\<close>.
\<close>

theorem announced_fingerprint_pins:
  assumes "\<And>c. length (sha256 c) = 32"
    and "run_quic_start base64 read_cert read_key generate faults sha256 (build_quinn_server_config lib cc_rx) bind cfg files
      = (start, files')"
    and "announces (after_reloads sha256 (build_quinn_server_config lib cc_rx) turns start) = Some (q, fp)"
  shows "require_fingerprint (Some (fingerprint_hex fp)) = Ok (Some fp) \<and>
    (\<exists>g. build_quinn_server_config lib cc_rx g = Inr q \<and>
       trusts sha256 webpki (make_client_config_with_pin insecure (Some fp)) (gc_cert g)) \<and>
    (\<forall>cert. trusts sha256 webpki (make_client_config_with_pin insecure (Some fp)) cert \<longleftrightarrow> sha256 cert = fp)"
proof -
  obtain g where g: "build_quinn_server_config lib cc_rx g = Inr q" "cert_fingerprint sha256 (gc_cert g) = fp"
    using announces_served [OF assms(2,3)] by blast
  then have "length fp = 32" using assms(1) by (auto simp: cert_fingerprint_def)
  moreover have "trusts sha256 webpki (make_client_config_with_pin insecure (Some fp)) cert \<longleftrightarrow> sha256 cert = fp" for cert
    by (simp add: trusts_def make_client_config_with_pin_def verify_server_cert_def cert_fingerprint_def)
  ultimately show ?thesis using g fingerprint_hex_parses by (auto simp: cert_fingerprint_def)
qed

theorem announced_fingerprint_pins_witness:
  "trusts (\<lambda>c. replicate 32 (hd (c @ [0]))) (\<lambda>r c. False)
     (make_client_config_with_pin False (Some (replicate 32 3))) [3, 7]"
proof -
  let ?sha = "\<lambda>c :: bytes. replicate 32 (hd (c @ [0]))"
  let ?lib = "\<lparr>qb_single_cert = \<lambda>certs key. Inr (hd certs), qb_crypto = Inr,
    qb_default = \<lparr>qc_max_concurrent_bidi_streams = 100, qc_keep_alive_interval = None, qc_max_idle_timeout = None,
      qc_congestion_controller = None\<rparr>\<rparr> :: (bytes, bytes) quic_lib"
  let ?cfg = "\<lparr>ql_bind = (V4 0, 443), ql_server_name = [], ql_cert = Some [10], ql_key = Some [11]\<rparr>"
  let ?files = "[[10] \<mapsto> [1], [11] \<mapsto> [2]]"
  let ?build = "build_quinn_server_config ?lib 0"
  let ?q = "\<lambda>c. \<lparr>qs_crypto = c, qs_transport = Some (transport_config (qb_default ?lib) 0)\<rparr>"
  have build: "?build g = Inr (?q (gc_cert g))" for g
    by (simp add: build_quinn_server_config_def tls_make_server_config_def quic_make_server_config_def)
  have start: "run_quic_start (\<lambda>b. []) Inr Inr (\<lambda>n. Inl []) (\<lambda>p. None) ?sha ?build (\<lambda>q b. None) ?cfg ?files =
      (Reloading \<lparr>re_last_mtime = None, re_current_fp = replicate 32 1, re_served = ?q [1]\<rparr>, ?files)"
    by (simp add: run_quic_start_def load_or_generate_def cert_fingerprint_def build Let_def)
  have "announces (after_reloads ?sha ?build [(True, Some 5, Inr \<lparr>gc_cert = [3, 7], gc_key = [4]\<rparr>)]
      (Reloading \<lparr>re_last_mtime = None, re_current_fp = replicate 32 1, re_served = ?q [1]\<rparr>)) =
      Some (?q [3, 7], replicate 32 3)"
    by (simp add: announces_def after_reloads_def reload_turn_def cert_fingerprint_def build Let_def numeral_eq_Suc)
  from announced_fingerprint_pins [OF _ start this, where webpki = "\<lambda>r c. False" and insecure = False]
  show ?thesis by (simp del: replicate_numeral)
qed

end
