(* ===== verification/Quic_Events.thy ===== *)
theory Quic_Events
  imports Quic_Transport
begin

section \<open>Events of a QUIC tunnel\<close>

text \<open>
  \<open>Tunnel::next_event\<close> of \<open>src/crates/hydr-transport/src/lib.rs\<close> on a QUIC tunnel, and the loop of
  \<open>handle_tunnel\<close> that calls it. A \<open>select!\<close> polls the future of \<open>accept_stream\<close> and that of
  \<open>recv_datagram\<close> in a random order and drops the other one when one of them is ready. The future of
  \<open>accept_stream\<close> has two points to wait at: for the next stream of the peer, and, owning that
  stream, for the bytes of its header.
\<close>

subsection \<open>State\<close>

text \<open>
  Streams the peer opened that nobody has accepted yet, the bytes of each stream that arrived, the
  datagrams that arrived, and the stream the future of the running call owns.
\<close>

record quic_events =
  qe_incoming :: "nat list"
  qe_bytes :: "nat \<Rightarrow> bytes"
  qe_datagrams :: "bytes list"
  qe_reading :: "nat option"

definition quic_events_new :: quic_events where
  "quic_events_new = \<lparr>qe_incoming = [], qe_bytes = (\<lambda>sid. []), qe_datagrams = [], qe_reading = None\<rparr>"

datatype quic_event = Quic_stream nat address | Quic_datagram datagram

text \<open>
  Whether \<open>read_message\<close> on these bytes does not have to wait: the length is there, and so is the
  body, unless it cannot be allocated or the length is no varint.
\<close>

definition header_arrived :: "nat \<Rightarrow> bytes \<Rightarrow> bool" where
  "header_arrived mem bs =
     (case decode_varint bs of
        Inl e \<Rightarrow> e \<noteq> Err UnexpectedEof
      | Inr (v, n) \<Rightarrow> mem < unat v \<or> unat v \<le> length bs - n)"

subsection \<open>Polling\<close>

definition poll_accept :: "nat \<Rightarrow> quic_events \<Rightarrow> quic_event result option \<times> quic_events" where
  "poll_accept mem s =
     (case (case qe_reading s of
              Some sid \<Rightarrow> Some (sid, qe_incoming s)
            | None \<Rightarrow> (case qe_incoming s of [] \<Rightarrow> None | sid # q \<Rightarrow> Some (sid, q))) of
        None \<Rightarrow> (None, s)
      | Some (sid, q) \<Rightarrow>
          let s = s\<lparr>qe_incoming := q, qe_reading := Some sid\<rparr> in
          if header_arrived mem (qe_bytes s sid) then
            let (r, st) = quic_accept_stream mem
                  \<lparr>bi_recv = qe_bytes s sid, bi_read_error = [], bi_sent = [], bi_write_error = None\<rparr>
            in (Some (and_then r (\<lambda>addr. Ok (Quic_stream sid addr))),
                s\<lparr>qe_bytes := (qe_bytes s)(sid := bi_recv st)\<rparr>)
          else (None, s))"

definition poll_datagram :: "quic_events \<Rightarrow> quic_event result option \<times> quic_events" where
  "poll_datagram s =
     (case qe_datagrams s of
        [] \<Rightarrow> (None, s)
      | d # ds \<Rightarrow>
          (Some (and_then (quic_recv_datagram (Inr d)) (\<lambda>dg. Ok (Quic_datagram dg))), s\<lparr>qe_datagrams := ds\<rparr>))"

text \<open>One poll of the \<open>select!\<close>; when it returns, both futures are gone.\<close>

definition poll_next_event :: "nat \<Rightarrow> bool \<Rightarrow> quic_events \<Rightarrow> quic_event result option \<times> quic_events" where
  "poll_next_event mem accept_first s =
     (let poll1 = (if accept_first then poll_accept mem else poll_datagram);
          poll2 = (if accept_first then poll_datagram else poll_accept mem)
      in case poll1 s of
           (Some r, s) \<Rightarrow> (Some r, s\<lparr>qe_reading := None\<rparr>)
         | (None, s) \<Rightarrow>
             (case poll2 s of
                (Some r, s) \<Rightarrow> (Some r, s\<lparr>qe_reading := None\<rparr>)
              | (None, s) \<Rightarrow> (None, s)))"

text \<open>
  The tunnel's loop between arrivals from the network: it goes on with every event and ends with
  the first error.
\<close>

datatype quic_input = Stream_opens nat | Bytes_arrive nat bytes | Datagram_arrives_quic bytes | Poll bool

fun serve_events :: "nat \<Rightarrow> quic_input list \<Rightarrow> quic_events \<Rightarrow> quic_event list \<times> quic_events" where
  "serve_events mem [] s = ([], s)"
| "serve_events mem (Stream_opens sid # inps) s =
     serve_events mem inps (s\<lparr>qe_incoming := qe_incoming s @ [sid]\<rparr>)"
| "serve_events mem (Bytes_arrive sid bs # inps) s =
     serve_events mem inps (s\<lparr>qe_bytes := (qe_bytes s)(sid := qe_bytes s sid @ bs)\<rparr>)"
| "serve_events mem (Datagram_arrives_quic d # inps) s =
     serve_events mem inps (s\<lparr>qe_datagrams := qe_datagrams s @ [d]\<rparr>)"
| "serve_events mem (Poll accept_first # inps) s =
     (case poll_next_event mem accept_first s of
        (None, s) \<Rightarrow> serve_events mem inps s
      | (Some (Inl e), s) \<Rightarrow> ([], s)
      | (Some (Inr ev), s) \<Rightarrow> (let (evs, s) = serve_events mem inps s in (ev # evs, s)))"

subsection \<open>Lost streams\<close>

definition forgotten :: "nat \<Rightarrow> quic_events \<Rightarrow> bool" where
  "forgotten sid s \<longleftrightarrow> sid \<notin> set (qe_incoming s) \<and> qe_reading s \<noteq> Some sid"

lemma poll_forgotten:
  assumes "poll_next_event mem accept_first s = (r, s')" and "forgotten sid s"
  shows "forgotten sid s' \<and> (\<forall>addr. r \<noteq> Some (Ok (Quic_stream sid addr)))"
  using assms
  by (auto simp: poll_next_event_def poll_accept_def poll_datagram_def forgotten_def Let_def and_then_eq_Ok
      split: if_splits option.splits list.splits prod.splits)

text \<open>A stream in no queue and owned by no future never becomes an event.\<close>

lemma forgotten_for_ever:
  "forgotten sid s \<Longrightarrow> Stream_opens sid \<notin> set inps \<Longrightarrow> Quic_stream sid addr \<notin> set (fst (serve_events mem inps s))"
proof (induction mem inps s rule: serve_events.induct)
  case (5 mem accept_first inps s)
  obtain r s' where p: "poll_next_event mem accept_first s = (r, s')" by fastforce
  note f = poll_forgotten [OF p 5(3)]
  show ?case
  proof (cases r)
    case None
    with 5 p f show ?thesis by auto
  next
    case (Some res)
    show ?thesis
    proof (cases res)
      case (Inl e)
      with p Some show ?thesis by simp
    next
      case (Inr ev)
      have "Quic_stream sid addr \<notin> set (fst (serve_events mem inps s'))"
        using 5(2) [OF p [symmetric] Some Inr] f 5(4) by simp
      with p Some Inr f show ?thesis by (auto split: prod.splits)
    qed
  qed
qed (auto simp: forgotten_def)

text \<open>The bytes of a header without its end are not enough.\<close>

lemma header_prefix_waits:
  assumes "framed body = h1 @ h2" and "h2 \<noteq> []" and "length body < 2 ^ 62" and "length body \<le> mem"
    and "length (framed body) \<le> isize_max"
  shows "\<not> header_arrived mem h1"
proof -
  let ?v = "of_nat (length body) :: u64"
  have v: "unat ?v = length body" using assms(3) by (simp add: unat_of_nat_length)
  have dec: "decode_varint (framed body) = Ok (?v, length (encode_varint [] ?v))"
    unfolding framed_def
    by (rule varint_codec.decode_encode_rest [OF of_nat_length_less [OF assms(3)] assms(5) [unfolded framed_def]])
  show ?thesis
  proof (cases "decode_varint h1 = Fail UnexpectedEof")
    case True
    then show ?thesis by (simp add: header_arrived_def)
  next
    case False
    have "length (h1 @ h2) \<le> isize_max" using assms(1,5) by simp
    from varint_codec.decode_extend [OF this False]
    have h1: "decode_varint h1 = Ok (?v, length (encode_varint [] ?v))" using dec assms(1) by simp
    have "length (encode_varint [] ?v) + length body = length h1 + length h2"
      using arg_cong [OF assms(1), of length] by (simp add: framed_def)
    then have "length h1 - length (encode_varint [] ?v) < length body"
      using assms(2) varint_codec.decode_bound [OF _ h1] assms(1,5) by (cases h2) auto
    then show ?thesis using assms(4) v by (simp add: header_arrived_def h1)
  qed
qed

lemma poll_accepts_header:
  assumes "qe_reading s = Some sid \<or> qe_reading s = None \<and> qe_incoming s = [sid]"
    and "qe_bytes s sid = framed (encode_open_stream [] \<lparr>os_address = addr\<rparr>)" and "wf_address addr"
    and "length (encode_open_stream [] \<lparr>os_address = addr\<rparr>) \<le> mem" and "mem < 2 ^ 62"
  shows "fst (poll_next_event mem True s) = Some (Ok (Quic_stream sid addr))"
proof -
  let ?body = "encode_open_stream [] \<lparr>os_address = addr\<rparr>"
  let ?st = "\<lparr>bi_recv = framed ?body, bi_read_error = [], bi_sent = [], bi_write_error = None\<rparr>"
  have len: "length (framed ?body) \<le> isize_max" using framed_fits [OF le_less_trans [OF assms(4,5)], of "[]"] by simp
  have "quic_accept_stream mem ?st = (Ok addr, ?st\<lparr>bi_recv := []\<rparr>)"
    using assms(3-5) len unfolding quic_accept_stream_def
    by (simp add: op_bind_def wf_open_stream_def
        open_stream_codec.read_message_written [where x = "\<lparr>os_address = addr\<rparr>" and rest = "[]"])
  moreover have "header_arrived mem (framed ?body)"
  proof -
    have "decode_varint (framed ?body) = Ok (of_nat (length ?body), length (encode_varint [] (of_nat (length ?body) :: u64)))"
      unfolding framed_def using assms(4,5)
      by (intro varint_codec.decode_encode_rest of_nat_length_less len [unfolded framed_def]) simp
    then show ?thesis
      using assms(4,5) by (simp add: header_arrived_def framed_def unat_of_nat_length)
  qed
  ultimately show ?thesis
    using assms(1,2) by (auto simp: poll_next_event_def poll_accept_def Let_def)
qed

text \<open>
  (C36) A datagram makes a QUIC tunnel lose a stream: if a datagram arrives between two parts of the
  header of a new stream, the half-read stream is dropped with its future and never becomes an
  event, whatever arrives later; without the datagram the same parts deliver it.
\<close>

theorem datagram_loses_stream:
  assumes "framed (encode_open_stream [] \<lparr>os_address = addr\<rparr>) = h1 @ h2" and "h2 \<noteq> []"
    and "wf_address addr" and "length (encode_open_stream [] \<lparr>os_address = addr\<rparr>) \<le> mem" and "mem < 2 ^ 62"
    and "decode_datagram d = Ok (dg, used)" and "Stream_opens sid \<notin> set inps"
  shows "(\<forall>a. Quic_stream sid a \<notin> set (fst (serve_events mem
        ([Stream_opens sid, Bytes_arrive sid h1, Poll b, Datagram_arrives_quic d, Poll b'] @
         Bytes_arrive sid h2 # inps) quic_events_new))) \<and>
      fst (serve_events mem
        [Stream_opens sid, Bytes_arrive sid h1, Poll b, Bytes_arrive sid h2, Poll True] quic_events_new) =
      [Quic_stream sid addr]"
proof (intro conjI allI)
  fix a
  let ?s = "quic_events_new\<lparr>qe_reading := Some sid, qe_bytes := (\<lambda>sid. [])(sid := h1)\<rparr>"
  have len: "length (framed (encode_open_stream [] \<lparr>os_address = addr\<rparr>)) \<le> isize_max"
    using framed_fits [OF le_less_trans [OF assms(4,5)], of "[]"] by simp
  have wait: "\<not> header_arrived mem h1"
    using assms(4,5) by (intro header_prefix_waits [OF assms(1,2) _ _ len]) simp_all
  have 1: "poll_next_event mem b (quic_events_new\<lparr>qe_incoming := [sid], qe_bytes := (\<lambda>sid. [])(sid := h1)\<rparr>) =
      (None, ?s)"
    using wait by (simp add: poll_next_event_def poll_accept_def poll_datagram_def quic_events_new_def Let_def)
  have 2: "poll_next_event mem b' (?s\<lparr>qe_datagrams := [d]\<rparr>) =
      (Some (Ok (Quic_datagram dg)), ?s\<lparr>qe_reading := None\<rparr>)"
    using wait assms(6)
    by (simp add: poll_next_event_def poll_accept_def poll_datagram_def quic_events_new_def
        quic_recv_datagram_def Let_def)
  have "Quic_stream sid a \<notin> set (fst (serve_events mem (Bytes_arrive sid h2 # inps) (?s\<lparr>qe_reading := None\<rparr>)))"
    using assms(7) by (intro forgotten_for_ever) (simp_all add: forgotten_def quic_events_new_def)
  with 1 2 show "Quic_stream sid a \<notin> set (fst (serve_events mem
        ([Stream_opens sid, Bytes_arrive sid h1, Poll b, Datagram_arrives_quic d, Poll b'] @
         Bytes_arrive sid h2 # inps) quic_events_new))"
    by (auto simp: quic_events_new_def split: prod.splits)
  have "fst (poll_next_event mem True (?s\<lparr>qe_bytes := (\<lambda>sid. [])(sid := h1 @ h2)\<rparr>)) = Some (Ok (Quic_stream sid addr))"
    using assms(1,3-5) by (intro poll_accepts_header) simp_all
  with 1 show "fst (serve_events mem
        [Stream_opens sid, Bytes_arrive sid h1, Poll b, Bytes_arrive sid h2, Poll True] quic_events_new) =
      [Quic_stream sid addr]"
    by (auto simp: quic_events_new_def split: prod.splits)
qed

theorem datagram_loses_stream_witness:
  "let h = framed (encode_open_stream [] \<lparr>os_address = Ip (V4 9) 80\<rparr>);
       d = encode_datagram [] (datagram_new 1 (Ip (V4 7) 53) [1])
   in (\<forall>a. Quic_stream 4 a \<notin> set (fst (serve_events 1000
        ([Stream_opens 4, Bytes_arrive 4 (take 3 h), Poll True, Datagram_arrives_quic d, Poll True] @
         Bytes_arrive 4 (drop 3 h) # [Poll True, Poll False]) quic_events_new))) \<and>
      fst (serve_events 1000
        [Stream_opens 4, Bytes_arrive 4 (take 3 h), Poll True, Bytes_arrive 4 (drop 3 h), Poll True] quic_events_new) =
      [Quic_stream 4 (Ip (V4 9) 80)]"
  unfolding Let_def
proof (rule datagram_loses_stream [where used = "length (encode_datagram [] (datagram_new 1 (Ip (V4 7) 53) [1]))"
      and dg = "datagram_new 1 (Ip (V4 7) 53) [1]"])
  show "drop 3 (framed (encode_open_stream [] \<lparr>os_address = Ip (V4 9) 80\<rparr>)) \<noteq> []" by code_simp
  show "length (encode_open_stream [] \<lparr>os_address = Ip (V4 9) 80\<rparr>) \<le> 1000" by code_simp
  show "decode_datagram (encode_datagram [] (datagram_new 1 (Ip (V4 7) 53) [1])) =
      Ok (datagram_new 1 (Ip (V4 7) 53) [1], length (encode_datagram [] (datagram_new 1 (Ip (V4 7) 53) [1])))"
    by code_simp
qed simp_all

end
