(* ===== verification/Wire_Types.thy ===== *)
theory Wire_Types
  imports Frames Messages
begin

section \<open>What the decoders return\<close>

text \<open>
  The decoders of \<open>src/crates/hydr-core/src/message.rs\<close>, \<open>address.rs\<close> and \<open>frame.rs\<close> return only
  well-formed values: varint fields below \<open>2 ^ 62\<close>, names that are valid UTF-8, frames within the
  limit. So a node that decodes a message and encodes it for the next hop loses nothing. A predicate
  on reader steps, \<open>yields\<close>, composes along a decoder as \<open>reads\<close> does.
\<close>

subsection \<open>Steps and their values\<close>

definition yields :: "'a reading \<Rightarrow> ('a \<Rightarrow> bool) \<Rightarrow> bool" where
  "yields f P \<longleftrightarrow> (\<forall>rd x rd'. f rd = Ok (x, rd') \<longrightarrow> P x)"

lemma yields_then:
  assumes "yields f P" "\<And>x. P x \<Longrightarrow> yields (g x) Q"
  shows "yields (read_then f g) Q"
  using assms unfolding yields_def read_then_def by (auto split: prod.splits) blast

lemma yields_return: "P x \<Longrightarrow> yields (read_return x) P"
  by (simp add: yields_def read_return_def)

lemma decode_varint_less: "decode_varint bs = Ok (v, n) \<Longrightarrow> v < 2 ^ 62"
  by (drule decode_varint_value) (auto, unat_arith+)

lemma yields_varint: "yields reader_varint (\<lambda>v. v < 2 ^ 62)"
  unfolding yields_def by (auto simp: reader_varint_def dest: decode_varint_less split: prod.splits)

lemma yields_u8: "yields reader_u8 (\<lambda>b. True)"
  by (simp add: yields_def)

lemma unat_less_62: "v < 2 ^ 62 \<Longrightarrow> unat (v :: u64) < 2 ^ 62"
  by unat_arith

lemma slice_range_length: "slice_range buf a b = Ok out \<Longrightarrow> length out \<le> b - a"
  by (auto simp: slice_range_def split: if_splits)

lemma yields_bytes: "yields reader_bytes (\<lambda>bs. length bs < 2 ^ 62)"
proof -
  have "length out < 2 ^ 62" if "reader_bytes rd = Ok (out, rd')" for rd out rd'
  proof -
    from that obtain v rd1 b where v: "reader_varint rd = Ok (v, rd1)"
      and b: "usize_add (rd_pos rd1) (unat v) = Ok b" and out: "slice_range (rd_buf rd1) (rd_pos rd1) b = Ok out"
      by (auto simp: reader_bytes_def Let_def split: prod.splits if_splits)
    have "v < 2 ^ 62" using yields_varint v by (auto simp: yields_def)
    moreover have "b = rd_pos rd1 + unat v" using b by (simp add: usize_add_def split: if_splits)
    ultimately show ?thesis using slice_range_length [OF out] unat_less_62 [of v] by simp
  qed
  then show ?thesis by (simp add: yields_def)
qed

lemmas yields_steps = yields_then [OF yields_varint] yields_then [OF yields_u8] yields_then [OF yields_bytes]
  yields_return

lemma run_reader_yields: "yields f P \<Longrightarrow> run_reader f buf = Ok (x, n) \<Longrightarrow> P x"
  by (auto simp: yields_def run_reader_def split: prod.splits)

subsection \<open>Messages\<close>

lemma yields_auth_request: "yields read_auth_request wf_auth_request"
  unfolding read_auth_request_def by (intro yields_steps) (simp add: wf_auth_request_def)

lemma yields_auth_response: "yields read_auth_response wf_auth_response"
  unfolding read_auth_response_def by (intro yields_steps) (simp add: wf_auth_response_def)

lemma yields_open_stream_ack: "yields read_open_stream_ack wf_open_stream_ack"
  unfolding read_open_stream_ack_def by (intro yields_steps) (simp add: wf_open_stream_ack_def)

text \<open>A lossy conversion makes at most three bytes of one.\<close>

lemma length_from_utf8_lossy: "length (from_utf8_lossy bs) \<le> 3 * length bs"
proof (induction bs rule: from_utf8_lossy.induct)
  case (1 bs)
  obtain ok n where p: "utf8_step bs = (ok, n)" by fastforce
  show ?case
  proof (cases "bs = []")
    case False
    have n: "0 < n" using utf8_step_pos [of bs] p by simp
    have "length (from_utf8_lossy (drop n bs)) \<le> 3 * length (drop n bs)"
      using 1 [OF False p [symmetric] refl] by simp
    moreover have "length (if ok then take n bs else replacement_char) \<le> 3 * min n (length bs)"
      using n False by (cases bs) (auto simp: replacement_char_def min_def Suc_le_eq)
    ultimately show ?thesis
      unfolding from_utf8_lossy_step [OF False p] length_append length_drop by linarith
  qed simp
qed

lemma less_62: "3 * (2 :: nat) ^ 60 < 2 ^ 62"
  by simp

lemma decode_address_wf:
  assumes "decode_address buf = Ok (a, n)" and "length buf \<le> 2 ^ 60"
  shows "wf_address a"
proof (cases a)
  case (Domain d p)
  from assms(1) Domain have "\<exists>bs. d = from_utf8_lossy bs \<and> length bs \<le> length buf"
    by (auto simp: decode_address_eq Let_def split: list.splits if_splits)
  then have "length d < 2 ^ 62"
    using length_from_utf8_lossy assms(2) by (metis le_trans mult_le_mono2 order_le_less_trans less_62)
  with Domain assms(1) show ?thesis by (auto dest: decode_address_valid_utf8)
qed simp

lemma decode_frame_wf:
  assumes "decode_frame buf = Ok (f, n)" and "length buf \<le> isize_max"
  shows "wf_frame f"
proof -
  have "yields read_frame (\<lambda>f. fr_stream_id f < 2 ^ 62)"
    unfolding read_frame_def
    by (rule yields_then [OF yields_varint], rule yields_then [OF yields_u8],
        rule yields_then [where P = "\<lambda>_. True"]) (simp_all add: yields_def read_return_def)
  then have "fr_stream_id f < 2 ^ 62"
    by (rule run_reader_yields) (rule assms(1) [unfolded decode_frame_reader [OF assms(2)]])
  with decode_frame_body_bound [OF assms(1)] show ?thesis by (simp add: wf_frame_def)
qed

subsection \<open>Properties\<close>

text \<open>
  (C23) Whatever bytes arrive, everything the decoders return is well-formed: numbers fit a varint,
  byte fields have a length that does, host names are valid UTF-8, and a frame is within its limit.
\<close>

theorem decoded_values_wellformed:
  assumes "length buf \<le> 2 ^ 60"
  shows "(\<forall>r n. decode_auth_request buf = Ok (r, n) \<longrightarrow> wf_auth_request r) \<and>
    (\<forall>r n. decode_auth_response buf = Ok (r, n) \<longrightarrow> wf_auth_response r) \<and>
    (\<forall>r n. decode_open_stream_ack buf = Ok (r, n) \<longrightarrow> wf_open_stream_ack r) \<and>
    (\<forall>r n. decode_open_stream buf = Ok (r, n) \<longrightarrow> wf_open_stream r) \<and>
    (\<forall>d n. decode_datagram buf = Ok (d, n) \<longrightarrow> wf_datagram d) \<and>
    (\<forall>f n. decode_frame buf = Ok (f, n) \<longrightarrow> wf_frame f)"
proof (intro conjI allI impI)
  show "wf_auth_request r" if "decode_auth_request buf = Ok (r, n)" for r n
    using that run_reader_yields [OF yields_auth_request] unfolding decode_auth_request_def by blast
  show "wf_auth_response r" if "decode_auth_response buf = Ok (r, n)" for r n
    using that run_reader_yields [OF yields_auth_response] unfolding decode_auth_response_def by blast
  show "wf_open_stream_ack r" if "decode_open_stream_ack buf = Ok (r, n)" for r n
    using that run_reader_yields [OF yields_open_stream_ack] unfolding decode_open_stream_ack_def by blast
  show "wf_open_stream r" if "decode_open_stream buf = Ok (r, n)" for r n
    using that assms by (auto simp: decode_open_stream_def wf_open_stream_def dest: decode_address_wf)
  show "wf_datagram d" if "decode_datagram buf = Ok (d, n)" for d n
    using that assms
    by (auto simp: decode_datagram_def access_defs wf_datagram_def dest!: decode_address_wf split: if_splits)
  show "wf_frame f" if "decode_frame buf = Ok (f, n)" for f n
    using that assms decode_frame_wf [OF that] by (simp add: isize_max_def)
qed

theorem decoded_values_wellformed_witness:
  "wf_open_stream \<lparr>os_address = Domain replacement_char 80\<rparr>"
proof -
  have lossy: "from_utf8_lossy [0xFF] = replacement_char" by code_simp
  have "decode_open_stream [3, 1, 0xFF, 0, 80] = Ok (\<lparr>os_address = Domain replacement_char 80\<rparr>, 5)"
    by (simp add: decode_open_stream_def decode_address_eq decode_varint_def get_or_eof_def slice_range_def
        from_be_def shift_in_def lossy Let_def)
  then show ?thesis using decoded_values_wellformed [of "[3, 1, 0xFF, 0, 80]"] by auto
qed

text \<open>
  A server with a next hop passes on what it understood: an address it decoded from a client and
  encodes for the next hop is decoded there as the same address.
\<close>

theorem forwarded_address_survives:
  assumes "decode_open_stream buf = Ok (r, n)" and "length buf \<le> 2 ^ 60"
    and "length (encode_open_stream [] r @ rest) \<le> isize_max"
  shows "decode_open_stream (encode_open_stream [] r @ rest) = Ok (r, length (encode_open_stream [] r))"
proof -
  from assms(1,2) have "wf_open_stream r"
    by (auto simp: decode_open_stream_def wf_open_stream_def dest: decode_address_wf)
  then show ?thesis using assms(3) by (rule open_stream_codec.decode_encode_rest)
qed

end
