(* ===== verification/Ws_Stream.thy ===== *)
theory Ws_Stream
  imports Ws_Credit
begin

section \<open>The bytes of a WebSocket stream\<close>

text \<open>
  The three tasks a stream's bytes pass on the way from one application to the other
  (\<open>src/crates/hydr-transport/src/ws.rs\<close>): \<open>pump_stream\<close> cuts them into frames, the connection's
  \<open>writer\<close> puts the frames of all streams on the wire, and behind the peer's connection loop
  \<open>stream_writer\<close> writes them to the pipe. When the pump has to wait is the matter of \<open>Ws_Credit\<close>;
  here it is what arrives.
\<close>

subsection \<open>The tasks\<close>

text \<open>
  \<open>pump_stream\<close>: what its reads give (\<open>None\<close> an error, no bytes the end) and whether the queue to
  the connection still takes the frame; the frames handed over, in order. With the queue gone
  nothing follows, not even the closing frame.
\<close>

fun pump_stream :: "u64 \<Rightarrow> (bytes option \<times> bool) list \<Rightarrow> frame list" where
  "pump_stream sid [] = []"
| "pump_stream sid ((None, up) # rest) = (if up then [frame_new sid FRAME_STREAM_CLOSE []] else [])"
| "pump_stream sid ((Some buf, up) # rest) =
     (if buf = [] then (if up then [frame_new sid FRAME_STREAM_CLOSE []] else [])
      else if up then frame_data sid buf # pump_stream sid rest
      else [])"

text \<open>
  \<open>writer\<close>: the messages it takes from its queue, each with the salt of its encryption and whether
  the sink accepts it; the messages sent. It ends at the first one that is not accepted.
\<close>

datatype sink_message = SinkBinary bytes | SinkPong bytes

definition sink_message_of ::
  "hash_fn \<Rightarrow> keyed_hash_fn \<Rightarrow> bytes option \<Rightarrow> obfuscator option \<Rightarrow> out_msg
     \<Rightarrow> (sink_message \<times> obfuscator option) result" where
  "sink_message_of hash keyed random ob msg =
     (case msg of
        OutFrame f \<Rightarrow> and_then (outbound_message hash keyed random ob f) (\<lambda>(b, ob). Ok (SinkBinary b, ob))
      | WsPong payload \<Rightarrow> Ok (SinkPong payload, ob))"

fun writer ::
  "hash_fn \<Rightarrow> keyed_hash_fn \<Rightarrow> obfuscator option \<Rightarrow> (bytes option \<times> out_msg \<times> bool) list
     \<Rightarrow> (sink_message list \<times> obfuscator option) result" where
  "writer hash keyed ob [] = Ok ([], ob)"
| "writer hash keyed ob ((random, msg, takes) # msgs) =
     and_then (sink_message_of hash keyed random ob msg) (\<lambda>(b, ob).
       if takes then and_then (writer hash keyed ob msgs) (\<lambda>(bs, ob). Ok (b # bs, ob))
       else Ok ([], ob))"

text \<open>
  \<open>stream_writer\<close>: the chunks of its channel, each with the number of bytes after which writing it
  fails, if it does; the bytes written and whether the pipe was shut down. The channel is closed
  behind the chunks.
\<close>

fun stream_writer :: "(bytes \<times> nat option) list \<Rightarrow> bytes \<times> bool" where
  "stream_writer [] = ([], True)"
| "stream_writer ((chunk, None) # chunks) = (let (bs, down) = stream_writer chunks in (chunk @ bs, down))"
| "stream_writer ((chunk, Some k) # chunks) = (take k chunk, False)"

text \<open>What the connection loop handed to a stream's channel.\<close>

fun delivered :: "nat \<Rightarrow> effect list \<Rightarrow> bytes list" where
  "delivered ch [] = []"
| "delivered ch (Deliver c b # effs) = (if c = ch then b # delivered ch effs else delivered ch effs)"
| "delivered ch (_ # effs) = delivered ch effs"

text \<open>The messages as the peer's loop sees them; it ignores a pong.\<close>

definition received :: "sink_message \<Rightarrow> ws_message" where
  "received b = (case b of SinkBinary raw \<Rightarrow> Binary raw | SinkPong p \<Rightarrow> OtherMessage)"

subsection \<open>Across the connection\<close>

text \<open>
  What the peer's loop makes of data and closing frames and of pongs, once they are unmasked and
  decoded.
\<close>

definition relay_msg :: "out_msg \<Rightarrow> ws_conn \<Rightarrow> effect list \<times> ws_conn" where
  "relay_msg msg conn =
     (case msg of
        WsPong p \<Rightarrow> ([], conn)
      | OutFrame f \<Rightarrow>
          if fr_frame_type f = FRAME_STREAM_DATA
          then (case fmlookup (wc_streams conn) (fr_stream_id f) of None \<Rightarrow> [] | Some ch \<Rightarrow> [Deliver ch (fr_body f)], conn)
          else ([], conn\<lparr>wc_credits := fmdrop (fr_stream_id f) (wc_credits conn),
                         wc_streams := fmdrop (fr_stream_id f) (wc_streams conn)\<rparr>))"

fun relay_msgs :: "out_msg list \<Rightarrow> ws_conn \<Rightarrow> effect list \<times> ws_conn" where
  "relay_msgs [] conn = ([], conn)"
| "relay_msgs (msg # msgs) conn =
     (let (effs, conn) = relay_msg msg conn; (effs', conn) = relay_msgs msgs conn in (effs @ effs', conn))"

definition stream_msg :: "out_msg \<Rightarrow> bool" where
  "stream_msg msg \<longleftrightarrow>
     (case msg of
        WsPong p \<Rightarrow> True
      | OutFrame f \<Rightarrow> wf_frame f \<and> fr_frame_type f \<in> {FRAME_STREAM_DATA, FRAME_STREAM_CLOSE})"

lemma relay_frame:
  assumes "stream_msg (OutFrame f)"
  shows "handle_frame auth up v conn (encode_frame [] f) =
    (Ok (), fst (relay_msg (OutFrame f) conn), v, snd (relay_msg (OutFrame f) conn))"
proof -
  from assms have wf: "wf_frame f" and t: "fr_frame_type f \<in> {FRAME_STREAM_DATA, FRAME_STREAM_CLOSE}"
    by (simp_all add: stream_msg_def)
  from t have "dispatch_frame auth up v conn f =
      (Ok (), fst (relay_msg (OutFrame f) conn), v, snd (relay_msg (OutFrame f) conn))"
    by (auto simp: dispatch_frame_def relay_msg_def handle_stream_data_def handle_stream_close_def
        code_consts split: option.splits)
  with frame_codec.decode_encode [OF wf length_encode_frame [OF wf]] show ?thesis
    by (simp add: handle_frame_def)
qed

text \<open>One message from the writer through the wire to the peer's loop.\<close>

lemma message_relayed:
  assumes "blake3_lengths hash keyed" and i: "in_step n s r" and n: "n < 2 ^ 64"
    and "length salt = SALT_LEN" and msg: "stream_msg msg" and ob: "rs_ob st = Some r"
  obtains b s' r' m where
    "sink_message_of hash keyed (Some salt) (Some s) msg = Ok (b, Some s')"
    "in_step m s' r'" "m \<le> Suc n"
    "run_step hash keyed auth up room (Incoming (Some (received b))) st =
       Ok (True, fst (relay_msg msg (rs_conn st)), st\<lparr>rs_ob := Some r', rs_conn := snd (relay_msg msg (rs_conn st))\<rparr>)"
proof (cases msg)
  case (WsPong p)
  have "st\<lparr>rs_ob := Some r, rs_conn := rs_conn st\<rparr> = st" using ob by (cases st) simp
  with WsPong i show ?thesis
    by (intro that [of "SinkPong p" s n r])
      (simp_all add: sink_message_of_def received_def run_step_def relay_msg_def)
next
  case (OutFrame f)
  let ?s = "s\<lparr>ob_send_seq := ob_send_seq s + 1\<rparr>" and ?r = "r\<lparr>ob_recv := snd (observe (ob_recv r) (of_nat n))\<rparr>"
  obtain raw where raw: "encrypt hash keyed (Some salt) s (encode_frame [] f) = Ok (raw, ?s)"
    "decrypt_outcome hash keyed (rs_metrics st) r raw = Ok (OutcomeOk (encode_frame [] f), rs_metrics st, ?r)"
    using encrypt_decrypt [OF assms(1) i n assms(4)] by blast
  note f = relay_frame [OF msg [unfolded OutFrame]]
  show ?thesis
  proof (rule that [of "SinkBinary raw" ?s "Suc n" ?r])
    show "in_step (Suc n) ?s ?r" by (rule in_step_observe [OF i n])
  qed (simp_all add: OutFrame sink_message_of_def received_def outbound_message_def raw run_step_def
      run_incoming_def inbound_message_def ob f Let_def)
qed

definition sent_items :: "(bytes \<times> out_msg) list \<Rightarrow> (bytes option \<times> out_msg \<times> bool) list" where
  "sent_items items = map (\<lambda>(salt, msg). (Some salt, msg, True)) items"

definition arrivals :: "sink_message list \<Rightarrow> (bool \<times> bool \<times> run_input) list" where
  "arrivals bs = map (\<lambda>b. (True, True, Incoming (Some (received b)))) bs"

lemma messages_relayed:
  assumes b: "blake3_lengths hash keyed"
  shows "in_step n s r \<Longrightarrow> n + length items \<le> 2 ^ 64 \<Longrightarrow>
    \<forall>(salt, msg) \<in> set items. length salt = SALT_LEN \<and> stream_msg msg \<Longrightarrow> rs_ob st = Some r \<Longrightarrow>
    \<exists>bs s' st'. writer hash keyed (Some s) (sent_items items) = Ok (bs, Some s') \<and>
      run_loop hash keyed auth (arrivals bs) st = Ok (True, fst (relay_msgs (map snd items) (rs_conn st)), st') \<and>
      rs_conn st' = snd (relay_msgs (map snd items) (rs_conn st))"
proof (induction items arbitrary: n s r st)
  case Nil
  then show ?case by (simp add: sent_items_def arrivals_def)
next
  case (Cons x items)
  obtain salt msg where x: "x = (salt, msg)" by (cases x)
  from Cons.prems have n: "n < 2 ^ 64" and ok: "length salt = SALT_LEN" "stream_msg msg"
    by (auto simp: x)
  obtain c s1 r1 m where 1: "sink_message_of hash keyed (Some salt) (Some s) msg = Ok (c, Some s1)"
    "in_step m s1 r1" "m \<le> Suc n"
    "run_step hash keyed auth True True (Incoming (Some (received c))) st =
       Ok (True, fst (relay_msg msg (rs_conn st)), st\<lparr>rs_ob := Some r1, rs_conn := snd (relay_msg msg (rs_conn st))\<rparr>)"
    by (rule message_relayed [OF b Cons.prems(1) n ok Cons.prems(4)])
  let ?st = "st\<lparr>rs_ob := Some r1, rs_conn := snd (relay_msg msg (rs_conn st))\<rparr>"
  from 1(3) Cons.prems(2,3) obtain bs s' st' where
    "writer hash keyed (Some s1) (sent_items items) = Ok (bs, Some s')"
    "run_loop hash keyed auth (arrivals bs) ?st = Ok (True, fst (relay_msgs (map snd items) (rs_conn ?st)), st')"
    "rs_conn st' = snd (relay_msgs (map snd items) (rs_conn ?st))"
    using Cons.IH [OF 1(2), of ?st] by auto
  with 1(1,4) show ?case
    by (auto simp: x sent_items_def arrivals_def split_beta Let_def)
qed

subsection \<open>Channels belong to one stream\<close>

text \<open>
  Every channel to a \<open>stream_writer\<close> in the table has been handed out once, so it belongs to one
  stream: a stream that starts gets a new one.
\<close>

definition channels_ok :: "ws_conn \<Rightarrow> bool" where
  "channels_ok conn \<longleftrightarrow>
     (\<forall>sid ch. fmlookup (wc_streams conn) sid = Some ch \<longrightarrow> ch < wc_channels conn) \<and>
     (\<forall>sid sid' ch. fmlookup (wc_streams conn) sid = Some ch \<longrightarrow>
        fmlookup (wc_streams conn) sid' = Some ch \<longrightarrow> sid = sid')"

lemma channels_ok_change: "credit_change conn conn' \<Longrightarrow> channels_ok conn \<Longrightarrow> channels_ok conn'"
  by (induction rule: credit_change.induct) (auto simp: channels_ok_def less_Suc_eq)

lemma channels_ok_loop:
  "run_loop hash keyed auth inps s = Ok (go, effs, s') \<Longrightarrow> channels_ok (rs_conn s) \<Longrightarrow> channels_ok (rs_conn s')"
proof (induction inps arbitrary: s effs)
  case (Cons i inps)
  then show ?case
    by (cases i) (auto split: if_splits dest: channels_ok_change [OF run_step_change])
qed simp

lemma channels_ok_init: "channels_ok (run_init auth_response sessions server_auth_done pending_auth)"
  by (simp add: channels_ok_def run_init_def)

subsection \<open>One stream among the others\<close>

fun stream_frames :: "u64 \<Rightarrow> out_msg list \<Rightarrow> frame list" where
  "stream_frames sid [] = []"
| "stream_frames sid (OutFrame f # msgs) =
     (if fr_stream_id f = sid then f # stream_frames sid msgs else stream_frames sid msgs)"
| "stream_frames sid (WsPong p # msgs) = stream_frames sid msgs"

text \<open>The reads of a pump that is never disturbed: the chunks, and the end.\<close>

definition reads_all :: "bytes list \<Rightarrow> (bytes option \<times> bool) list" where
  "reads_all chunks = map (\<lambda>b. (Some b, True)) chunks @ [(Some [], True)]"

lemma pump_reads_all:
  "[] \<notin> set chunks \<Longrightarrow>
   pump_stream sid (reads_all chunks) = map (frame_data sid) chunks @ [frame_new sid FRAME_STREAM_CLOSE []]"
  by (induction chunks) (auto simp: reads_all_def)

lemma delivered_append: "delivered ch (xs @ ys) = delivered ch xs @ delivered ch ys"
  by (induction ch xs rule: delivered.induct) simp_all

text \<open>Nothing is delivered to a channel that no stream has, and no frame gives a stream a channel.\<close>

lemma relay_msgs_gone:
  "fmlookup (wc_streams conn) sid = None \<Longrightarrow> \<forall>i. fmlookup (wc_streams conn) i \<noteq> Some ch \<Longrightarrow>
   delivered ch (fst (relay_msgs msgs conn)) = [] \<and> fmlookup (wc_streams (snd (relay_msgs msgs conn))) sid = None"
proof (induction msgs arbitrary: conn)
  case (Cons msg msgs)
  let ?conn = "snd (relay_msg msg conn)"
  have "fmlookup (wc_streams ?conn) sid = None" "\<forall>i. fmlookup (wc_streams ?conn) i \<noteq> Some ch"
    "delivered ch (fst (relay_msg msg conn)) = []"
    using Cons.prems
    by (auto simp: relay_msg_def split: out_msg.split option.split if_splits)
  with Cons.IH [of ?conn] show ?case
    by (simp add: split_beta Let_def delivered_append)
qed simp

lemma relay_msgs_stream:
  "channels_ok conn \<Longrightarrow> fmlookup (wc_streams conn) sid = Some ch \<Longrightarrow> \<forall>msg \<in> set msgs. stream_msg msg \<Longrightarrow>
   stream_frames sid msgs = map (frame_data sid) chunks @ [frame_new sid FRAME_STREAM_CLOSE []] \<Longrightarrow>
   delivered ch (fst (relay_msgs msgs conn)) = chunks \<and>
   fmlookup (wc_streams (snd (relay_msgs msgs conn))) sid = None"
proof (induction msgs arbitrary: conn chunks)
  case (Cons msg msgs)
  let ?conn = "snd (relay_msg msg conn)"
  show ?case
  proof (cases "\<exists>f. msg = OutFrame f \<and> fr_stream_id f = sid")
    case other: False
    then have "delivered ch (fst (relay_msg msg conn)) = []" "fmlookup (wc_streams ?conn) sid = Some ch"
      "channels_ok ?conn" "stream_frames sid msgs = map (frame_data sid) chunks @ [frame_new sid FRAME_STREAM_CLOSE []]"
      using Cons.prems
      by (cases msg; auto simp: relay_msg_def channels_ok_def split: option.split if_splits)+
    with Cons.IH [of ?conn chunks] Cons.prems(3) show ?thesis
      by (simp add: split_beta Let_def delivered_append)
  next
    case True
    then obtain f where f: "msg = OutFrame f" "fr_stream_id f = sid" by blast
    show ?thesis
    proof (cases chunks)
      case Nil
      with Cons.prems(4) f have close: "f = frame_new sid FRAME_STREAM_CLOSE []" by simp
      then have "fst (relay_msg msg conn) = []"
        and s: "wc_streams ?conn = fmdrop sid (wc_streams conn)"
        by (simp_all add: f(1) relay_msg_def frame_new_def code_consts)
      moreover have "\<forall>i. fmlookup (wc_streams ?conn) i \<noteq> Some ch"
        using Cons.prems(1,2) unfolding s by (auto simp: channels_ok_def split: if_splits)
      ultimately show ?thesis
        using relay_msgs_gone [of ?conn sid ch msgs] Nil by (simp add: split_beta Let_def)
    next
      case (Cons chunk chunks')
      with \<open>stream_frames sid (msg # msgs) = _\<close> f have d: "f = frame_data sid chunk"
        and fs: "stream_frames sid msgs = map (frame_data sid) chunks' @ [frame_new sid FRAME_STREAM_CLOSE []]"
        by simp_all
      have r: "relay_msg msg conn = ([Deliver ch chunk], conn)"
        using Cons.prems(2) by (simp add: f(1) d relay_msg_def frame_data_def frame_new_def)
      show ?thesis
        using Cons.IH [OF Cons.prems(1,2) _ fs] Cons.prems(3) by (simp add: r Cons split_beta Let_def)
    qed
  qed
qed simp

lemma stream_writer_all: "stream_writer (map (\<lambda>b. (b, None)) chunks) = (concat chunks, True)"
  by (induction chunks) simp_all

subsection \<open>Properties\<close>

text \<open>
  (C26) The bytes of a multiplexed stream cross an obfuscated connection unchanged, in order and apart
  from all others. Take a connection after any history, a stream open on it, and let its pump run to
  the end while frames of other streams and pongs come in between in any way: then neither end
  fails, the peer's \<open>stream_writer\<close> writes exactly the bytes the pump read and shuts the pipe down,
  and the stream is gone from the peer's table.
\<close>

theorem stream_crosses_connection:
  assumes "blake3_lengths hash keyed"
    and "rs_conn st0 = run_init auth_response sessions server_auth_done pending_auth"
    and "run_loop hash keyed auth inps st0 = Ok (True, effs0, st)"
    and "fmlookup (wc_streams (rs_conn st)) sid = Some ch"
    and "rs_ob st = Some r" and "in_step n s r" and "n + length items \<le> 2 ^ 64"
    and "\<forall>(salt, msg) \<in> set items. length salt = SALT_LEN \<and> stream_msg msg"
    and "[] \<notin> set chunks" and "stream_frames sid (map snd items) = pump_stream sid (reads_all chunks)"
  shows "\<exists>bs s' effs st'.
    writer hash keyed (Some s) (sent_items items) = Ok (bs, Some s') \<and>
    run_loop hash keyed auth (arrivals bs) st = Ok (True, effs, st') \<and>
    stream_writer (map (\<lambda>b. (b, None)) (delivered ch effs)) = (concat chunks, True) \<and>
    fmlookup (wc_streams (rs_conn st')) sid = None"
proof -
  have "channels_ok (rs_conn st)"
    using channels_ok_loop [OF assms(3)] by (simp add: assms(2) channels_ok_init)
  moreover have "\<forall>msg \<in> set (map snd items). stream_msg msg" using assms(8) by auto
  ultimately have "delivered ch (fst (relay_msgs (map snd items) (rs_conn st))) = chunks"
    "fmlookup (wc_streams (snd (relay_msgs (map snd items) (rs_conn st)))) sid = None"
    using relay_msgs_stream [of "rs_conn st" sid ch "map snd items" chunks] assms(4,9,10)
    by (simp_all add: pump_reads_all)
  with messages_relayed [OF assms(1,6,7,8,5), where auth = auth] show ?thesis
    by (metis stream_writer_all)
qed

theorem stream_crosses_connection_witness:
  "let hash = (\<lambda>m. replicate 32 (last (0 # m))); keyed = (\<lambda>k m. replicate 32 (hd (m @ [0])));
       ob = obfuscator_new hash [1]; salt = replicate 8 5;
       st0 = \<lparr>rs_conn = server_conn False, rs_ob = Some ob, rs_metrics = metrics_new, rs_validator = ()\<rparr>;
       st = st0\<lparr>rs_conn := snd (start_relay 1 0 (server_conn False))\<rparr>
   in \<exists>bs s' effs st'.
     writer hash keyed (Some ob) (sent_items
       [(salt, OutFrame (frame_data 1 [7])), (salt, WsPong [9]), (salt, OutFrame (frame_data 3 [4])),
        (salt, OutFrame (frame_data 1 [8])), (salt, OutFrame (frame_new 1 FRAME_STREAM_CLOSE []))]) = Ok (bs, Some s') \<and>
     run_loop hash keyed None (arrivals bs) st = Ok (True, effs, st') \<and>
     stream_writer (map (\<lambda>b. (b, None)) (delivered 0 effs)) = (concat [[7], [8]], True) \<and>
     fmlookup (wc_streams (rs_conn st')) 1 = None"
proof -
  let ?hash = "\<lambda>m :: bytes. replicate 32 (last (0 # m))"
  let ?st0 = "\<lparr>rs_conn = server_conn False, rs_ob = Some (obfuscator_new ?hash [1]), rs_metrics = metrics_new,
    rs_validator = ()\<rparr>"
  let ?reply = "(True, True, Command (ReplyOpen 1 STATUS_OK ERR_NONE [] 0))"
  let ?keyed = "\<lambda>(k :: bytes) (m :: bytes). replicate 32 (hd (m @ [0]))"
  obtain effs0 where run: "run_loop ?hash ?keyed None [?reply] ?st0 =
      Ok (True, effs0, ?st0\<lparr>rs_conn := snd (start_relay 1 0 (server_conn False))\<rparr>)"
    by (simp add: run_step_def run_command_def split_beta Let_def)
  have init: "rs_conn ?st0 = run_init False None True None" by (simp add: server_conn_def)
  have "blake3_lengths ?hash ?keyed" by (simp add: blake3_lengths_def code_consts)
  from stream_crosses_connection [OF this init run _ _ in_step_new, where sid = 1 and ch = 0 and chunks = "[[7], [8]]"] show ?thesis
    unfolding Let_def
    by (simp add: code_consts server_conn_def run_init_def start_relay_def Let_def stream_msg_def
        frame_data_def frame_new_def wf_frame_def reads_all_def)
qed

end
