(* ===== verification/Ws_Pair.thy ===== *)
theory Ws_Pair
  imports Tunnel Ws_Stream "HOL-Library.Sublist"
begin

section \<open>Both ends of a WebSocket connection\<close>

text \<open>
  The two connection loops of a client and a server after the login, joined by the wires between
  them, with the callers of \<open>open_stream\<close> on one side and the application that answers accepted
  streams on the other. Every action is one turn of one loop (\<open>run_step\<close>), so anything can come in
  between any two of them. The wires carry frames; a frame is encoded when it arrives, as
  \<open>outbound_message\<close> does without obfuscation. A wire stands for all that is between the two loops and
  takes any number of frames; \<open>Ws_Masked\<close> puts the writers, their queues and the obfuscation there, and
  refines this system. The lists of what was requested, asked, replied and answered are the history of
  the run, in order.
\<close>

subsection \<open>The system\<close>

record ws_pair =
  wp_client :: "unit run_state"
  wp_server :: "unit run_state"
  wp_up :: "frame list"
  wp_down :: "frame list"
  wp_next :: u64
  wp_requested :: "(u64 \<times> address) list"
  wp_asked :: "(u64 \<times> address) list"
  wp_replied :: "(u64 \<times> unit result) list"
  wp_answered :: "(u64 \<times> unit result) list"

text \<open>The stream numbers of a history.\<close>

definition ids :: "(u64 \<times> 'a) list \<Rightarrow> u64 set" where
  "ids xs = fst ` set xs"

definition distinct_ids :: "(u64 \<times> 'a) list \<Rightarrow> bool" where
  "distinct_ids xs = distinct (map fst xs)"

lemma ids_simps [simp]:
  "ids [] = {}" "ids (x # xs) = insert (fst x) (ids xs)" "ids (xs @ ys) = ids xs \<union> ids ys"
  by (simp_all add: ids_def image_Un)

lemma distinct_ids_simps [simp]:
  "distinct_ids []" "distinct_ids (x # xs) \<longleftrightarrow> fst x \<notin> ids xs \<and> distinct_ids xs"
  "distinct_ids (xs @ ys) \<longleftrightarrow> distinct_ids xs \<and> distinct_ids ys \<and> ids xs \<inter> ids ys = {}"
  by (simp_all add: distinct_ids_def ids_def)

text \<open>What a turn sends, asks its application and answers its callers.\<close>

fun sent_frames :: "effect list \<Rightarrow> frame list" where
  "sent_frames [] = []"
| "sent_frames (Queue (OutFrame f) # effs) = f # sent_frames effs"
| "sent_frames (_ # effs) = sent_frames effs"

fun asked_streams :: "effect list \<Rightarrow> (u64 \<times> address) list" where
  "asked_streams [] = []"
| "asked_streams (Event (WsOpen sid addr pipe) # effs) = (sid, addr) # asked_streams effs"
| "asked_streams (_ # effs) = asked_streams effs"

fun answered_opens :: "effect list \<Rightarrow> (u64 \<times> unit result) list" where
  "answered_opens [] = []"
| "answered_opens (OpenAnswer sid r # effs) = (sid, r) # answered_opens effs"
| "answered_opens (_ # effs) = answered_opens effs"

definition client_turn :: "hash_fn \<Rightarrow> keyed_hash_fn \<Rightarrow> run_input \<Rightarrow> ws_pair \<Rightarrow> ws_pair option" where
  "client_turn hash keyed inp s =
     (case run_step hash keyed None True True inp (wp_client s) of
        Inr (True, effs, c) \<Rightarrow>
          Some (s\<lparr>wp_client := c, wp_up := wp_up s @ sent_frames effs,
                  wp_answered := wp_answered s @ answered_opens effs\<rparr>)
      | _ \<Rightarrow> None)"

definition server_turn ::
  "hash_fn \<Rightarrow> keyed_hash_fn \<Rightarrow> unit validator option \<Rightarrow> run_input \<Rightarrow> ws_pair \<Rightarrow> ws_pair option" where
  "server_turn hash keyed auth inp s =
     (case run_step hash keyed auth True True inp (wp_server s) of
        Inr (True, effs, c) \<Rightarrow>
          Some (s\<lparr>wp_server := c, wp_down := wp_down s @ sent_frames effs,
                  wp_asked := wp_asked s @ asked_streams effs\<rparr>)
      | _ \<Rightarrow> None)"

text \<open>What a caller gets for the server's reply.\<close>

definition reply_result :: "u8 \<Rightarrow> bytes \<Rightarrow> unit result" where
  "reply_result status message =
     (if status = STATUS_OK then Ok () else Fail (Message (from_utf8_lossy message)))"

text \<open>The frames other tasks send once a stream is open, and those the loops send by themselves.\<close>

definition traffic :: "frame \<Rightarrow> bool" where
  "traffic f \<longleftrightarrow> wf_frame f \<and> fr_frame_type f \<in>
     {FRAME_STREAM_DATA, FRAME_STREAM_CREDIT, FRAME_STREAM_CLOSE, FRAME_DATAGRAM, FRAME_PING, FRAME_PONG}"

datatype pair_action =
    Opens address nat
  | Replies u64 u8 u8 bytes nat
  | Client_sends frame
  | Server_sends frame
  | To_server
  | To_client

text \<open>
  One action; \<open>None\<close> when it cannot happen or ends a loop. An accepted stream can be answered once
  (\<open>Tunnel.ws_reply_once\<close>).
\<close>

fun pair_step ::
  "hash_fn \<Rightarrow> keyed_hash_fn \<Rightarrow> unit validator option \<Rightarrow> pair_action \<Rightarrow> ws_pair \<Rightarrow> ws_pair option" where
  "pair_step hash keyed auth (Opens addr pipe) s =
     (let (answer, cmd, sid) = ws_open_stream True None (wp_next s) addr pipe
      in case cmd of
           None \<Rightarrow> None
         | Some cmd \<Rightarrow>
             client_turn hash keyed (Command cmd)
               (s\<lparr>wp_next := sid, wp_requested := wp_requested s @ [(sid, addr)]\<rparr>))"
| "pair_step hash keyed auth (Replies sid status code message pipe) s =
     (if sid \<in> ids (wp_asked s) \<and> sid \<notin> ids (wp_replied s) then
        server_turn hash keyed auth (Command (ReplyOpen sid status code message pipe))
          (s\<lparr>wp_replied := wp_replied s @ [(sid, reply_result status message)]\<rparr>)
      else None)"
| "pair_step hash keyed auth (Client_sends f) s = client_turn hash keyed (Command (SendFrame f)) s"
| "pair_step hash keyed auth (Server_sends f) s = server_turn hash keyed auth (Command (SendFrame f)) s"
| "pair_step hash keyed auth To_server s =
     (case wp_up s of
        [] \<Rightarrow> None
      | f # fs \<Rightarrow>
          server_turn hash keyed auth (Incoming (Some (Binary (encode_frame [] f)))) (s\<lparr>wp_up := fs\<rparr>))"
| "pair_step hash keyed auth To_client s =
     (case wp_down s of
        [] \<Rightarrow> None
      | f # fs \<Rightarrow>
          client_turn hash keyed (Incoming (Some (Binary (encode_frame [] f)))) (s\<lparr>wp_down := fs\<rparr>))"

fun pair_run ::
  "hash_fn \<Rightarrow> keyed_hash_fn \<Rightarrow> unit validator option \<Rightarrow> pair_action list \<Rightarrow> ws_pair \<Rightarrow> ws_pair option" where
  "pair_run hash keyed auth [] s = Some s"
| "pair_run hash keyed auth (a # acts) s =
     (case pair_step hash keyed auth a s of None \<Rightarrow> None | Some s \<Rightarrow> pair_run hash keyed auth acts s)"

definition loop_state :: "ws_conn \<Rightarrow> unit run_state" where
  "loop_state conn = \<lparr>rs_conn = conn, rs_ob = None, rs_metrics = metrics_new, rs_validator = ()\<rparr>"

definition pair_init :: ws_pair where
  "pair_init =
     \<lparr>wp_client = loop_state (client_conn\<lparr>wc_auth_response := False\<rparr>),
      wp_server = loop_state ((server_conn False)\<lparr>wc_server_auth_done := False\<rparr>), wp_up = [], wp_down = [],
      wp_next = 0, wp_requested = [], wp_asked = [], wp_replied = [], wp_answered = []\<rparr>"

subsection \<open>One turn\<close>

text \<open>The requests and the answers on a wire.\<close>

definition open_request :: "frame \<Rightarrow> (u64 \<times> address) list" where
  "open_request f =
     (if fr_frame_type f = FRAME_OPEN_STREAM
      then (case decode_open_stream (fr_body f) of Inl e \<Rightarrow> [] | Inr (req, n) \<Rightarrow> [(fr_stream_id f, os_address req)])
      else [])"

definition open_answer :: "frame \<Rightarrow> (u64 \<times> unit result) list" where
  "open_answer f =
     (if fr_frame_type f = FRAME_OPEN_STREAM_ACK
      then (case decode_open_stream_ack (fr_body f) of
              Inl e \<Rightarrow> []
            | Inr (ack, n) \<Rightarrow> [(fr_stream_id f, reply_result (oa_status ack) (oa_message ack))])
      else [])"

definition on_wire :: "(frame \<Rightarrow> 'a list) \<Rightarrow> frame list \<Rightarrow> 'a list" where
  "on_wire g fs = concat (map g fs)"

lemma on_wire_simps [simp]:
  "on_wire g [] = []" "on_wire g (f # fs) = g f @ on_wire g fs" "on_wire g (fs @ fs') = on_wire g fs @ on_wire g fs'"
  by (simp_all add: on_wire_def)

lemma sent_frames_append [simp]: "sent_frames (xs @ ys) = sent_frames xs @ sent_frames ys"
  by (induction xs rule: sent_frames.induct) simp_all

lemma asked_streams_append [simp]: "asked_streams (xs @ ys) = asked_streams xs @ asked_streams ys"
  by (induction xs rule: asked_streams.induct) simp_all

lemma answered_opens_append [simp]: "answered_opens (xs @ ys) = answered_opens xs @ answered_opens ys"
  by (induction xs rule: answered_opens.induct) simp_all

text \<open>Traffic frames leave the requests, the answers and what the loops wait for alone.\<close>

lemma traffic_neutral [simp]: "traffic f \<Longrightarrow> open_request f = []" "traffic f \<Longrightarrow> open_answer f = []"
  by (auto simp: traffic_def open_request_def open_answer_def code_consts)

text \<open>A ping is answered by a pong, which is not answered, so delivering what is on the wires comes to an end.\<close>

definition frame_weight :: "frame \<Rightarrow> nat" where
  "frame_weight f = (if fr_frame_type f = FRAME_PING then 2 else 1)"

definition wire_weight :: "frame list \<Rightarrow> nat" where
  "wire_weight fs = sum_list (map frame_weight fs)"

lemma wire_weight_simps [simp]:
  "wire_weight [] = 0" "wire_weight (f # fs) = frame_weight f + wire_weight fs"
  "wire_weight (fs @ fs') = wire_weight fs + wire_weight fs'"
  by (simp_all add: wire_weight_def)

definition pair_weight :: "ws_pair \<Rightarrow> nat" where
  "pair_weight s = wire_weight (wp_up s) + wire_weight (wp_down s)"

lemma frame_weight_pos [simp]: "0 < frame_weight f"
  by (simp add: frame_weight_def)

lemma body_small: "wf_frame f \<Longrightarrow> length (fr_body f) \<le> isize_max"
  by (simp add: wf_frame_def code_consts isize_max_def)

lemma dispatch_traffic:
  assumes "traffic f" and "dispatch_frame auth True v conn f = (res, effs, v', conn')"
  shows "res = Ok () \<and> wc_pending conn' = wc_pending conn \<and> wc_sessions conn' = wc_sessions conn \<and>
    answered_opens effs = [] \<and> asked_streams effs = [] \<and> (\<forall>g \<in> set (sent_frames effs). traffic g) \<and>
    wire_weight (sent_frames effs) < frame_weight f"
proof -
  from assms(1) have wf: "wf_frame f"
    and t: "fr_frame_type f \<in> {FRAME_STREAM_DATA, FRAME_STREAM_CREDIT, FRAME_STREAM_CLOSE, FRAME_DATAGRAM,
      FRAME_PING, FRAME_PONG}" by (simp_all add: traffic_def)
  have np: "decode_varint (fr_body f) \<noteq> Crash" "decode_datagram (fr_body f) \<noteq> Crash"
    using decode_varint_no_panic datagram_codec.decode_no_panic [OF body_small [OF wf]] by auto
  have pong: "traffic (frame_new 0 FRAME_PONG (fr_body f))"
    using wf by (simp add: traffic_def frame_new_def wf_frame_def)
  from t assms(2) np pong [unfolded frame_new_def code_consts] show ?thesis
    by (auto simp: dispatch_frame_def handle_stream_data_def handle_stream_credit_def handle_stream_close_def
        handle_datagram_frame_def on_result_def grant_credit_def queue_frame_def frame_weight_def frame_new_def code_consts
        split: option.splits sum.splits failure.splits if_splits)
qed

text \<open>The two frames of opening a stream.\<close>

fun action_ok :: "pair_action \<Rightarrow> bool" where
  "action_ok (Opens addr pipe) \<longleftrightarrow>
     wf_address addr \<and> length (encode_open_stream [] \<lparr>os_address = addr\<rparr>) \<le> MAX_BODY_LEN"
| "action_ok (Replies sid status code message pipe) \<longleftrightarrow>
     (let ack = \<lparr>oa_status = status, oa_error_code = code, oa_message = message\<rparr>
      in wf_open_stream_ack ack \<and> length (encode_open_stream_ack [] ack) \<le> MAX_BODY_LEN)"
| "action_ok (Client_sends f) \<longleftrightarrow> traffic f"
| "action_ok (Server_sends f) \<longleftrightarrow> traffic f"
| "action_ok To_server \<longleftrightarrow> True"
| "action_ok To_client \<longleftrightarrow> True"

definition request_frame :: "frame \<Rightarrow> bool" where
  "request_frame f \<longleftrightarrow> wf_frame f \<and> fr_frame_type f = FRAME_OPEN_STREAM \<and> open_request f \<noteq> []"

definition answer_frame :: "frame \<Rightarrow> bool" where
  "answer_frame f \<longleftrightarrow> wf_frame f \<and> fr_frame_type f = FRAME_OPEN_STREAM_ACK \<and> open_answer f \<noteq> []"

lemma request_frame_new:
  assumes "action_ok (Opens addr pipe)" and "sid < 2 ^ 62"
  defines "f \<equiv> frame_new sid FRAME_OPEN_STREAM (encode_open_stream [] \<lparr>os_address = addr\<rparr>)"
  shows "open_request f = [(sid, addr)]" "request_frame f" "open_answer f = []"
proof -
  have "length (encode_open_stream [] \<lparr>os_address = addr\<rparr>) \<le> isize_max"
    using assms(1) by (simp add: code_consts isize_max_def)
  then show "open_request f = [(sid, addr)]"
    using assms(1) open_stream_codec.decode_encode [of "\<lparr>os_address = addr\<rparr>"]
    by (simp add: f_def open_request_def frame_new_def wf_open_stream_def)
  then show "request_frame f" "open_answer f = []"
    using assms(1,2) by (simp_all add: f_def request_frame_def open_answer_def wf_frame_def frame_new_def code_consts)
qed

lemma answer_frame_new:
  assumes "action_ok (Replies sid status code message pipe)" and "sid < 2 ^ 62"
  defines "f \<equiv> frame_new sid FRAME_OPEN_STREAM_ACK
    (encode_open_stream_ack [] \<lparr>oa_status = status, oa_error_code = code, oa_message = message\<rparr>)"
  shows "open_answer f = [(sid, reply_result status message)]" "answer_frame f"
proof -
  let ?ack = "\<lparr>oa_status = status, oa_error_code = code, oa_message = message\<rparr>"
  have "length (encode_open_stream_ack [] ?ack) \<le> isize_max"
    using assms(1) by (simp add: code_consts isize_max_def Let_def)
  then show "open_answer f = [(sid, reply_result status message)]"
    using assms(1) open_stream_ack_codec.decode_encode [of ?ack]
    by (simp add: f_def open_answer_def frame_new_def Let_def)
  then show "answer_frame f"
    using assms(1,2) by (simp add: f_def answer_frame_def wf_frame_def frame_new_def Let_def)
qed

lemma turn_incoming:
  assumes "wf_frame f" and "rs_ob st = None"
    and "dispatch_frame auth True (rs_validator st) (rs_conn st) f = (Ok (), effs, v, conn)"
  shows "run_step hash keyed auth True True (Incoming (Some (Binary (encode_frame [] f)))) st =
    Ok (True, effs, st\<lparr>rs_validator := v, rs_conn := conn\<rparr>)"
proof -
  have "st\<lparr>rs_metrics := rs_metrics st, rs_ob := None\<rparr> = st" using assms(2) by (cases st) simp
  then show ?thesis
    using assms frame_codec.decode_encode [OF assms(1) length_encode_frame [OF assms(1)]]
    by (simp add: run_step_def run_incoming_def inbound_message_def handle_frame_def Let_def)
qed

lemma dispatch_request:
  assumes "request_frame f" "wc_sessions conn = None"
  shows "\<exists>sid addr. open_request f = [(sid, addr)] \<and>
    dispatch_frame auth up v conn f =
      (Ok (), [Event (WsOpen sid addr (wc_pipes conn))], v, conn\<lparr>wc_pipes := wc_pipes conn + 1\<rparr>)"
  using assms
  by (auto simp: request_frame_def open_request_def dispatch_frame_def handle_open_stream_def session_denied_def
      on_result_def code_consts Let_def split: sum.splits if_splits)

lemma dispatch_answer:
  assumes "answer_frame f" and "fmlookup (wc_pending conn) (fr_stream_id f) = Some pipe"
  shows "\<exists>r effs conn'. open_answer f = [(fr_stream_id f, r)] \<and>
    dispatch_frame auth up v conn f = (Ok (), effs, v, conn') \<and>
    answered_opens effs = [(fr_stream_id f, r)] \<and> sent_frames effs = [] \<and>
    wc_pending conn' = fmdrop (fr_stream_id f) (wc_pending conn)"
  using assms
  by (auto simp: answer_frame_def open_answer_def dispatch_frame_def handle_open_stream_ack_def start_relay_def
      reply_result_def on_result_def code_consts Let_def split: sum.splits if_splits)

subsection \<open>The invariant\<close>

text \<open>
  Nothing is lost, reordered or made up between the two ends: what was requested is what the server
  was asked, followed by the requests on the wire, and the same for the replies. The client waits
  for exactly the requests it has no answer for.
\<close>

definition wires_ok :: "ws_pair \<Rightarrow> bool" where
  "wires_ok s \<longleftrightarrow>
     (\<forall>f \<in> set (wp_up s). traffic f \<or> request_frame f) \<and>
     (\<forall>f \<in> set (wp_down s). traffic f \<or> answer_frame f) \<and>
     rs_ob (wp_client s) = None \<and> rs_ob (wp_server s) = None \<and> wc_sessions (rs_conn (wp_server s)) = None"

definition history_ok :: "ws_pair \<Rightarrow> bool" where
  "history_ok s \<longleftrightarrow>
     wp_requested s = wp_asked s @ on_wire open_request (wp_up s) \<and>
     wp_replied s = wp_answered s @ on_wire open_answer (wp_down s) \<and>
     ids (wp_replied s) \<subseteq> ids (wp_asked s) \<and>
     distinct_ids (wp_requested s) \<and> distinct_ids (wp_replied s)"

definition waiting_ok :: "ws_pair \<Rightarrow> bool" where
  "waiting_ok s \<longleftrightarrow>
     (\<forall>sid. sid |\<in>| fmdom (wc_pending (rs_conn (wp_client s))) \<longleftrightarrow>
        sid \<in> ids (wp_requested s) \<and> sid \<notin> ids (wp_answered s))"

definition ids_ok :: "nat \<Rightarrow> ws_pair \<Rightarrow> bool" where
  "ids_ok n s \<longleftrightarrow> unat (wp_next s) \<le> n \<and> (\<forall>sid \<in> ids (wp_requested s). sid \<le> wp_next s)"

definition pair_inv :: "nat \<Rightarrow> ws_pair \<Rightarrow> bool" where
  "pair_inv n s \<longleftrightarrow> wires_ok s \<and> history_ok s \<and> waiting_ok s \<and> ids_ok n s"

lemmas pair_inv_defs = pair_inv_def wires_ok_def history_ok_def waiting_ok_def ids_ok_def

lemma pair_inv_init: "pair_inv 0 pair_init"
  by (simp add: pair_inv_defs pair_init_def loop_state_def client_conn_def server_conn_def run_init_def)

lemma pair_inv_mono: "pair_inv m s \<Longrightarrow> m \<le> n \<Longrightarrow> pair_inv n s"
  by (auto simp: pair_inv_def ids_ok_def)

lemma opens_inv:
  assumes inv: "pair_inv n s" and n: "Suc n < 2 ^ 62" and ok: "action_ok (Opens addr pipe)"
  obtains s' where "pair_step hash keyed auth (Opens addr pipe) s = Some s'" "pair_inv (Suc n) s'"
proof -
  let ?sid = "wp_next s + 1"
  from inv have next_n: "unat (wp_next s) \<le> n" and below: "\<forall>sid \<in> ids (wp_requested s). sid \<le> wp_next s"
    by (simp_all add: pair_inv_defs)
  from next_n n have u: "unat ?sid = Suc (unat (wp_next s))"
    by (simp add: unat_word_ariths)
  have sid: "?sid < 2 ^ 62"
    using next_n n by (simp add: word_less_nat_alt u)
  have less: "wp_next s < ?sid" by (simp add: word_less_nat_alt u)
  then have fresh: "?sid \<notin> ids (wp_requested s)" using below by fastforce
  let ?f = "frame_new ?sid FRAME_OPEN_STREAM (encode_open_stream [] \<lparr>os_address = addr\<rparr>)"
  let ?c = "wp_client s"
  let ?s = "s\<lparr>wp_next := ?sid, wp_requested := wp_requested s @ [(?sid, addr)],
    wp_client := ?c\<lparr>rs_conn := (rs_conn ?c)\<lparr>wc_pending := fmupd ?sid pipe (wc_pending (rs_conn ?c))\<rparr>\<rparr>,
    wp_up := wp_up s @ [?f]\<rparr>"
  note f = request_frame_new [OF ok sid]
  have "pair_step hash keyed auth (Opens addr pipe) s = Some ?s"
    by (simp add: ws_open_stream_def client_turn_def run_step_def run_command_def Let_def)
  moreover have "pair_inv (Suc n) ?s"
    unfolding pair_inv_def
  proof (intro conjI)
    show "wires_ok ?s" using inv f by (auto simp: pair_inv_defs)
    show "history_ok ?s" using inv fresh by (auto simp: pair_inv_defs f)
    have "?sid \<notin> ids (wp_answered s)" using inv fresh by (auto simp: pair_inv_defs)
    then show "waiting_ok ?s" using inv by (auto simp: pair_inv_defs)
    show "ids_ok (Suc n) ?s" using below next_n less by (auto simp: ids_ok_def u)
  qed
  ultimately show ?thesis by (rule that)
qed

lemma replies_inv:
  assumes inv: "pair_inv n s" and n: "n < 2 ^ 62" and ok: "action_ok (Replies sid status code message pipe)"
    and asked: "sid \<in> ids (wp_asked s)" and new: "sid \<notin> ids (wp_replied s)"
  obtains s' where "pair_step hash keyed auth (Replies sid status code message pipe) s = Some s'" "pair_inv n s'"
proof -
  have "sid \<le> wp_next s" "unat (wp_next s) \<le> n" using inv asked by (auto simp: pair_inv_defs)
  then have sid: "sid < 2 ^ 62" using n by (simp add: word_le_nat_alt word_less_nat_alt)
  let ?ack = "\<lparr>oa_status = status, oa_error_code = code, oa_message = message\<rparr>"
  let ?f = "frame_new sid FRAME_OPEN_STREAM_ACK (encode_open_stream_ack [] ?ack)"
  let ?c = "wp_server s"
  let ?conn = "if status = STATUS_OK then snd (start_relay sid pipe (rs_conn ?c)) else rs_conn ?c"
  let ?s = "s\<lparr>wp_replied := wp_replied s @ [(sid, reply_result status message)],
    wp_server := ?c\<lparr>rs_conn := ?conn\<rparr>, wp_down := wp_down s @ [?f]\<rparr>"
  note f = answer_frame_new [OF ok sid]
  have "pair_step hash keyed auth (Replies sid status code message pipe) s = Some ?s"
    using asked new
    by (simp add: server_turn_def run_step_def run_command_def start_relay_def Let_def)
  moreover have "pair_inv n ?s"
    unfolding pair_inv_def
  proof (intro conjI)
    show "wires_ok ?s" using inv f(2) by (auto simp: pair_inv_defs start_relay_sessions)
    from inv have "history_ok s" by (simp add: pair_inv_def)
    then show "history_ok ?s" using asked new by (auto simp: history_ok_def f)
  qed (use inv in \<open>auto simp: pair_inv_defs\<close>)
  ultimately show ?thesis by (rule that)
qed

lemma client_sends_inv:
  assumes inv: "pair_inv n s" and ok: "action_ok (Client_sends f)"
  obtains s' where "pair_step hash keyed auth (Client_sends f) s = Some s'" "pair_inv n s'"
proof -
  let ?s = "s\<lparr>wp_up := wp_up s @ [f]\<rparr>"
  have "pair_step hash keyed auth (Client_sends f) s = Some ?s"
    by (simp add: client_turn_def run_step_def run_command_def run_queue_def)
  moreover have "pair_inv n ?s" using inv ok by (auto simp: pair_inv_defs)
  ultimately show ?thesis by (rule that)
qed

lemma server_sends_inv:
  assumes inv: "pair_inv n s" and ok: "action_ok (Server_sends f)"
  obtains s' where "pair_step hash keyed auth (Server_sends f) s = Some s'" "pair_inv n s'"
proof -
  let ?s = "s\<lparr>wp_down := wp_down s @ [f]\<rparr>"
  have "pair_step hash keyed auth (Server_sends f) s = Some ?s"
    by (simp add: server_turn_def run_step_def run_command_def run_queue_def)
  moreover have "pair_inv n ?s" using inv ok by (auto simp: pair_inv_defs)
  ultimately show ?thesis by (rule that)
qed

lemma on_wire_traffic [simp]:
  "\<forall>f \<in> set fs. traffic f \<Longrightarrow> on_wire open_request fs = []"
  "\<forall>f \<in> set fs. traffic f \<Longrightarrow> on_wire open_answer fs = []"
  by (induction fs) simp_all

lemma to_server_inv:
  assumes inv: "pair_inv n s" and up: "wp_up s = f # fs"
  obtains s' where "pair_step hash keyed auth To_server s = Some s'" "pair_inv n s'"
    "pair_weight s' < pair_weight s"
    "wp_requested s' = wp_requested s" "wp_replied s' = wp_replied s"
proof -
  let ?c = "wp_server s"
  obtain res effs v conn where d: "dispatch_frame auth True (rs_validator ?c) (rs_conn ?c) f = (res, effs, v, conn)"
    by (cases "dispatch_frame auth True (rs_validator ?c) (rs_conn ?c) f")
  let ?s = "s\<lparr>wp_up := fs, wp_server := ?c\<lparr>rs_validator := v, rs_conn := conn\<rparr>,
    wp_down := wp_down s @ sent_frames effs, wp_asked := wp_asked s @ asked_streams effs\<rparr>"
  from inv have s: "wires_ok s" "history_ok s" "waiting_ok s" "ids_ok n s" by (simp_all add: pair_inv_def)
  from s(1) up have "traffic f \<or> request_frame f" by (simp add: wires_ok_def)
  then have "res = Ok () \<and> wf_frame f \<and> wc_sessions conn = None \<and> asked_streams effs = open_request f \<and>
      (\<forall>g \<in> set (sent_frames effs). traffic g) \<and> wire_weight (sent_frames effs) < frame_weight f"
  proof
    assume "traffic f"
    with dispatch_traffic [OF this d] s(1) show ?thesis by (simp add: wires_ok_def) (simp add: traffic_def)
  next
    assume r: "request_frame f"
    with dispatch_request [OF r, of "rs_conn ?c" auth True "rs_validator ?c"] d s(1) show ?thesis
      by (auto simp: wires_ok_def) (simp_all add: request_frame_def)
  qed
  then have t: "res = Ok ()" "wf_frame f" "wc_sessions conn = None" "asked_streams effs = open_request f"
    "\<forall>g \<in> set (sent_frames effs). traffic g" "wire_weight (sent_frames effs) < frame_weight f" by simp_all
  have ob: "rs_ob ?c = None" using s(1) by (simp add: wires_ok_def)
  have "pair_step hash keyed auth To_server s = Some ?s"
    using turn_incoming [OF t(2) ob d [unfolded t(1)], of hash keyed]
    by (simp add: up server_turn_def)
  moreover have "pair_inv n ?s"
    unfolding pair_inv_def
  proof (intro conjI)
    show "wires_ok ?s" using s(1) t(3,5) up by (auto simp: wires_ok_def)
    show "history_ok ?s" using s(2) t(4,5) up by (auto simp: history_ok_def)
  qed (use s in \<open>simp_all add: waiting_ok_def ids_ok_def\<close>)
  ultimately show ?thesis by (rule that) (use t(6) up in \<open>simp_all add: pair_weight_def\<close>)
qed

lemma to_client_inv:
  assumes inv: "pair_inv n s" and down: "wp_down s = f # fs"
  obtains s' where "pair_step hash keyed auth To_client s = Some s'" "pair_inv n s'"
    "pair_weight s' < pair_weight s"
    "wp_requested s' = wp_requested s" "wp_replied s' = wp_replied s"
proof -
  let ?c = "wp_client s"
  obtain res effs v conn where d: "dispatch_frame None True (rs_validator ?c) (rs_conn ?c) f = (res, effs, v, conn)"
    by (cases "dispatch_frame (None :: unit validator option) True (rs_validator ?c) (rs_conn ?c) f")
  let ?s = "s\<lparr>wp_down := fs, wp_client := ?c\<lparr>rs_validator := v, rs_conn := conn\<rparr>,
    wp_up := wp_up s @ sent_frames effs, wp_answered := wp_answered s @ answered_opens effs\<rparr>"
  from inv have s: "wires_ok s" "history_ok s" "waiting_ok s" "ids_ok n s" by (simp_all add: pair_inv_def)
  from s(1) down have "traffic f \<or> answer_frame f" by (simp add: wires_ok_def)
  then have "res = Ok () \<and> wf_frame f \<and> answered_opens effs = open_answer f \<and>
      fmdom (wc_pending conn) = fmdom (wc_pending (rs_conn ?c)) |-| fset_of_list (map fst (open_answer f)) \<and>
      (\<forall>g \<in> set (sent_frames effs). traffic g) \<and> wire_weight (sent_frames effs) < frame_weight f"
  proof
    assume "traffic f"
    with dispatch_traffic [OF this d] show ?thesis by simp (simp add: traffic_def)
  next
    assume a: "answer_frame f"
    then obtain r where r: "open_answer f = [(fr_stream_id f, r)]"
      by (auto simp: answer_frame_def open_answer_def split: sum.splits if_splits)
    have "fr_stream_id f \<in> ids (wp_requested s)" "fr_stream_id f \<notin> ids (wp_answered s)"
      using s(2) down by (auto simp: history_ok_def r)
    then have "fr_stream_id f |\<in>| fmdom (wc_pending (rs_conn ?c))"
      using s(3) by (simp add: waiting_ok_def)
    then obtain pipe where "fmlookup (wc_pending (rs_conn ?c)) (fr_stream_id f) = Some pipe"
      by (auto simp: fmlookup_dom_iff)
    from dispatch_answer [OF a this, of None True "rs_validator ?c"] d r a show ?thesis
      by (auto simp: answer_frame_def)
  qed
  then have t: "res = Ok ()" "wf_frame f" "answered_opens effs = open_answer f"
    "fmdom (wc_pending conn) = fmdom (wc_pending (rs_conn ?c)) |-| fset_of_list (map fst (open_answer f))"
    "\<forall>g \<in> set (sent_frames effs). traffic g" "wire_weight (sent_frames effs) < frame_weight f" by simp_all
  have ob: "rs_ob ?c = None" using s(1) by (simp add: wires_ok_def)
  have "pair_step hash keyed auth To_client s = Some ?s"
    using turn_incoming [OF t(2) ob d [unfolded t(1)], of hash keyed]
    by (simp add: down client_turn_def)
  moreover have "pair_inv n ?s"
    unfolding pair_inv_def
  proof (intro conjI)
    show "wires_ok ?s" using s(1) t(5) down by (auto simp: wires_ok_def)
    show "history_ok ?s" using s(2) t(3,5) down by (auto simp: history_ok_def)
    show "waiting_ok ?s" using s(3) by (auto simp: waiting_ok_def t(3,4) ids_def fset_of_list_elem)
  qed (use s in \<open>simp_all add: ids_ok_def\<close>)
  ultimately show ?thesis by (rule that) (use t(6) down in \<open>simp_all add: pair_weight_def\<close>)
qed

text \<open>An action that is well-formed can only be impossible because there is nothing to deliver or to answer.\<close>

lemma pair_step_inv:
  assumes "pair_inv n s" "Suc n < 2 ^ 62" "action_ok a" "pair_step hash keyed auth a s = Some s'"
  shows "pair_inv (Suc n) s'"
proof -
  have "pair_inv n s' \<or> pair_inv (Suc n) s'"
  proof (cases a)
    case (Opens addr pipe)
    show ?thesis
      by (rule opens_inv [OF assms(1,2), of addr pipe hash keyed auth]) (use assms(3,4) Opens in \<open>simp_all del: pair_step.simps\<close>)
  next
    case (Replies sid status code message pipe)
    with assms(4) have new: "sid \<in> ids (wp_asked s)" "sid \<notin> ids (wp_replied s)" by (auto split: if_splits)
    show ?thesis
      by (rule replies_inv [OF assms(1) _ _ new, of status code message pipe hash keyed auth])
        (use assms(2,3,4) Replies in \<open>simp_all del: pair_step.simps\<close>)
  next
    case (Client_sends f)
    show ?thesis
      by (rule client_sends_inv [OF assms(1), of f hash keyed auth]) (use assms(3,4) Client_sends in \<open>simp_all del: pair_step.simps\<close>)
  next
    case (Server_sends f)
    show ?thesis
      by (rule server_sends_inv [OF assms(1), of f hash keyed auth]) (use assms(3,4) Server_sends in \<open>simp_all del: pair_step.simps\<close>)
  next
    case To_server
    with assms(4) obtain f fs where "wp_up s = f # fs" by (auto split: list.splits)
    from to_server_inv [OF assms(1) this, of hash keyed auth] To_server assms(4) show ?thesis by (auto simp del: pair_step.simps)
  next
    case To_client
    with assms(4) obtain f fs where "wp_down s = f # fs" by (auto split: list.splits)
    from to_client_inv [OF assms(1) this, of hash keyed auth] To_client assms(4) show ?thesis by (auto simp del: pair_step.simps)
  qed
  then show ?thesis using pair_inv_mono by fastforce
qed

lemma pair_run_inv:
  "pair_inv n s \<Longrightarrow> n + length acts < 2 ^ 62 \<Longrightarrow> \<forall>a \<in> set acts. action_ok a \<Longrightarrow>
   pair_run hash keyed auth acts s = Some s' \<Longrightarrow> pair_inv (n + length acts) s'"
proof (induction acts arbitrary: n s)
  case (Cons a acts)
  from Cons.prems(4) obtain s1 where 1: "pair_step hash keyed auth a s = Some s1"
    "pair_run hash keyed auth acts s1 = Some s'" by (auto split: option.splits)
  have "pair_inv (Suc n) s1" by (rule pair_step_inv [OF Cons.prems(1) _ _ 1(1)]) (use Cons.prems in simp_all)
  from Cons.IH [OF this] 1(2) Cons.prems show ?case by simp
qed simp

lemma pair_run_append:
  "pair_run hash keyed auth (acts @ acts') s =
     (case pair_run hash keyed auth acts s of None \<Rightarrow> None | Some s \<Rightarrow> pair_run hash keyed auth acts' s)"
  by (induction acts arbitrary: s) (simp_all split: option.split)

text \<open>One action puts at most two units of work on the wires and opens at most one stream.\<close>

lemma pair_step_grows:
  assumes "pair_inv n s" "action_ok a" "pair_step hash keyed auth a s = Some s'"
  shows "pair_weight s' \<le> pair_weight s + 2 \<and> length (wp_requested s') \<le> Suc (length (wp_requested s))"
proof (cases a)
  case To_server
  with assms(3) obtain f fs where f: "wp_up s = f # fs" by (auto split: list.splits)
  show ?thesis
    by (rule to_server_inv [OF assms(1) f, of hash keyed auth]) (use assms(3) To_server in \<open>simp del: pair_step.simps\<close>)
next
  case To_client
  with assms(3) obtain f fs where f: "wp_down s = f # fs" by (auto split: list.splits)
  show ?thesis
    by (rule to_client_inv [OF assms(1) f, of hash keyed auth]) (use assms(3) To_client in \<open>simp del: pair_step.simps\<close>)
next
  case (Opens addr pipe)
  with assms(3) have "\<exists>f. wp_up s' = wp_up s @ [f] \<and> wp_down s' = wp_down s \<and>
      length (wp_requested s') = Suc (length (wp_requested s))"
    by (force simp: ws_open_stream_def client_turn_def run_step_def run_command_def Let_def)
  then show ?thesis by (auto simp: pair_weight_def frame_weight_def)
next
  case (Replies sid status code message pipe)
  with assms(3) have "\<exists>f. wp_up s' = wp_up s \<and> wp_down s' = wp_down s @ [f] \<and> wp_requested s' = wp_requested s"
    by (force simp: server_turn_def run_step_def run_command_def start_relay_def Let_def split: if_splits)
  then show ?thesis by (auto simp: pair_weight_def frame_weight_def)
next
  case (Client_sends f)
  with assms(3) show ?thesis
    by (auto simp: client_turn_def run_step_def run_command_def run_queue_def pair_weight_def frame_weight_def)
next
  case (Server_sends f)
  with assms(3) show ?thesis
    by (auto simp: server_turn_def run_step_def run_command_def run_queue_def pair_weight_def frame_weight_def)
qed

lemma pair_run_grows:
  "pair_inv n s \<Longrightarrow> n + length acts < 2 ^ 62 \<Longrightarrow> \<forall>a \<in> set acts. action_ok a \<Longrightarrow>
   pair_run hash keyed auth acts s = Some s' \<Longrightarrow>
   pair_weight s' \<le> pair_weight s + 2 * length acts \<and> length (wp_requested s') \<le> length (wp_requested s) + length acts"
proof (induction acts arbitrary: n s)
  case (Cons a acts)
  from Cons.prems(4) obtain s1 where 1: "pair_step hash keyed auth a s = Some s1"
    "pair_run hash keyed auth acts s1 = Some s'" by (auto split: option.splits)
  have "pair_inv (Suc n) s1" by (rule pair_step_inv [OF Cons.prems(1) _ _ 1(1)]) (use Cons.prems in simp_all)
  from Cons.IH [OF this] pair_step_grows [OF Cons.prems(1) _ 1(1)] 1(2) Cons.prems show ?case by simp
qed simp

subsection \<open>Answers\<close>

text \<open>Nothing is on the way.\<close>

definition settled :: "ws_pair \<Rightarrow> bool" where
  "settled s \<longleftrightarrow> wp_up s = [] \<and> wp_down s = []"

text \<open>An answer the server can always give.\<close>

definition refusal :: "u64 \<Rightarrow> pair_action" where
  "refusal sid = Replies sid STATUS_ERR ERR_INTERNAL [] 0"

lemma action_ok_refusal: "action_ok (refusal sid)"
  using length_ack [of "\<lparr>oa_status = STATUS_ERR, oa_error_code = ERR_INTERNAL, oa_message = []\<rparr>"]
  by (simp add: refusal_def wf_open_stream_ack_def code_consts)

text \<open>A small run: one stream is opened and answered.\<close>

lemma small_actions_ok:
  "action_ok (Opens (Ip (V4 9) 80) pipe)"
  "length message \<le> 20 \<Longrightarrow> action_ok (Replies 1 status code message pipe)"
proof -
  have "length (encode_open_stream [] \<lparr>os_address = Ip (V4 9) 80\<rparr>) \<le> 100" by code_simp
  then show "action_ok (Opens (Ip (V4 9) 80) pipe)" by (simp add: code_consts)
  show "action_ok (Replies 1 status code message pipe)" if "length message \<le> 20"
    using that length_ack [of "\<lparr>oa_status = status, oa_error_code = code, oa_message = message\<rparr>"]
    by (simp add: wf_open_stream_ack_def code_consts Let_def)
qed

lemma small_run:
  assumes "length message \<le> 20"
  shows "\<exists>s. pair_run hash keyed auth
      [Opens (Ip (V4 9) 80) 0, To_server, Replies 1 status code message 0, To_client] pair_init = Some s \<and>
    wp_answered s = [(1, reply_result status message)] \<and> settled s \<and>
    wp_requested s = [(1, Ip (V4 9) 80)] \<and> wp_replied s = wp_answered s \<and> wp_asked s = wp_requested s"
proof -
  let ?open = "\<lparr>os_address = Ip (V4 9) 80\<rparr>"
  let ?ack = "\<lparr>oa_status = status, oa_error_code = code, oa_message = message\<rparr>"
  let ?f = "frame_new 1 FRAME_OPEN_STREAM (encode_open_stream [] ?open)"
  let ?g = "frame_new 1 FRAME_OPEN_STREAM_ACK (encode_open_stream_ack [] ?ack)"
  have o: "length (encode_open_stream [] ?open) \<le> 100" by code_simp
  have a: "length (encode_open_stream_ack [] ?ack) \<le> 100" using length_ack [of ?ack] assms by simp
  have wf: "wf_frame ?f" "wf_frame ?g" using o a by (simp_all add: wf_frame_def frame_new_def code_consts)
  note d = frame_codec.decode_encode [OF wf(1) length_encode_frame [OF wf(1)]]
    frame_codec.decode_encode [OF wf(2) length_encode_frame [OF wf(2)]]
    open_stream_codec.decode_encode [of ?open, OF _ small_isize [OF o]]
    open_stream_ack_codec.decode_encode [of ?ack, OF _ small_isize [OF a]]
  show ?thesis
    using d assms
    by (auto simp: pair_init_def loop_state_def client_conn_def server_conn_def run_init_def client_turn_def
        server_turn_def ws_open_stream_def run_step_def run_command_def run_incoming_def inbound_message_def
        handle_frame_def dispatch_frame_def handle_open_stream_def handle_open_stream_ack_def on_result_def
        session_denied_def frame_new_def wf_open_stream_def wf_open_stream_ack_def reply_result_def settled_def
        start_relay_def Let_def code_consts)
qed

subsection \<open>Properties\<close>

text \<open>
  The ends of a connection agree on its streams. In every run, whatever the streams carry and
  however the turns of the two loops interleave, the server is asked for exactly the streams the
  client opened, with their addresses and in their order; every caller gets the server's reply to
  its own request and nobody gets two; and once the wires are empty and the server has replied to
  all it was asked, every caller has its answer.
\<close>

lemma ws_ends_agree:
  assumes "pair_run hash keyed auth acts pair_init = Some s"
    and "\<forall>a \<in> set acts. action_ok a" and "length acts < 2 ^ 62"
  shows "prefix (wp_asked s) (wp_requested s) \<and> prefix (wp_answered s) (wp_replied s) \<and>
    distinct (map fst (wp_requested s)) \<and> distinct (map fst (wp_answered s)) \<and>
    fst ` set (wp_answered s) \<subseteq> fst ` set (wp_requested s) \<and>
    (settled s \<and> fst ` set (wp_replied s) = fst ` set (wp_asked s) \<longrightarrow>
       fst ` set (wp_answered s) = fst ` set (wp_requested s))"
proof -
  from pair_run_inv [OF pair_inv_init _ assms(2,1)] assms(3) have "history_ok s"
    by (simp add: pair_inv_def)
  then show ?thesis
    unfolding history_ok_def settled_def ids_def [symmetric] distinct_ids_def [symmetric] by auto
qed

text \<open>The caller's answer to an \<open>OpenStreamAck\<close>, on the two transports.\<close>

definition quic_caller_answer :: "address \<Rightarrow> open_stream_ack \<Rightarrow> unit result" where
  "quic_caller_answer addr ack =
     fst (quic_open_stream MAX_BODY_LEN addr
       \<lparr>bi_recv = framed (encode_open_stream_ack [] ack), bi_read_error = [], bi_sent = [], bi_write_error = None\<rparr>)"

definition ws_caller_answer :: "u64 \<Rightarrow> ws_conn \<Rightarrow> open_stream_ack \<Rightarrow> (u64 \<times> unit result) list" where
  "ws_caller_answer sid conn ack =
     answered_opens (fst (snd (handle_open_stream_ack () conn
       (frame_new sid FRAME_OPEN_STREAM_ACK (encode_open_stream_ack [] ack)))))"

text \<open>
  (C37) Both transports give the caller of \<open>open_stream\<close> the same answer to the server's reply, but for
  two things: over QUIC the text of a refusal starts with its code, over WebSocket the code is lost;
  and a status that is neither 0 nor 1, which the protocol does not define, is success over QUIC and a
  refusal over WebSocket.
\<close>

theorem transports_answer_alike:
  assumes "length (oa_message ack) \<le> 60000" and "sid |\<in>| fmdom (wc_pending conn)"
  shows "\<exists>answer. ws_caller_answer sid conn ack = [(sid, answer)] \<and>
    (if oa_status ack = STATUS_OK then answer = Ok () \<and> quic_caller_answer addr ack = Ok ()
     else \<exists>text. answer = Fail (Message text) \<and>
       quic_caller_answer addr ack =
         (if oa_status ack = STATUS_ERR then Fail (Message (code_message (oa_error_code ack) text)) else Ok ()))"
proof -
  obtain pipe where pipe: "fmlookup (wc_pending conn) sid = Some pipe" using assms(2) by (auto simp: fmlookup_dom_iff)
  obtain status code message where ack: "ack = \<lparr>oa_status = status, oa_error_code = code, oa_message = message\<rparr>"
    by (cases ack) simp
  have len: "length (encode_open_stream_ack [] ack) \<le> MAX_BODY_LEN"
    using length_ack [of ack] assms(1) by (simp add: code_consts)
  have q: "quic_caller_answer addr ack =
      (if status = STATUS_ERR then Fail (Message (code_message code (from_utf8_lossy message))) else Ok ())"
    using quic_open_reads_ack [of message status code MAX_BODY_LEN "[]" _ addr] assms(1) len
    by (simp add: quic_caller_answer_def ack code_consts)
  have "length (encode_open_stream_ack [] ack) \<le> isize_max" using len by (simp add: code_consts isize_max_def)
  then have "decode_open_stream_ack (encode_open_stream_ack [] ack) = Ok (ack, length (encode_open_stream_ack [] ack))"
    using assms(1) by (intro open_stream_ack_codec.decode_encode) (simp_all add: wf_open_stream_ack_def)
  then have "ws_caller_answer sid conn ack = [(sid, reply_result status message)]"
    using pipe
    by (simp add: ws_caller_answer_def handle_open_stream_ack_def frame_new_def on_result_def start_relay_def
        reply_result_def ack Let_def)
  then show ?thesis using q by (auto simp: ack reply_result_def code_consts)
qed

theorem transports_answer_alike_witness:
  "\<exists>text. ws_caller_answer 1 (client_conn\<lparr>wc_pending := fmupd 1 0 fmempty\<rparr>)
       \<lparr>oa_status = STATUS_ERR, oa_error_code = 3, oa_message = [110, 111]\<rparr> = [(1, Fail (Message text))] \<and>
     quic_caller_answer (Ip (V4 9) 80) \<lparr>oa_status = STATUS_ERR, oa_error_code = 3, oa_message = [110, 111]\<rparr> =
       Fail (Message (code_message 3 text))"
  using transports_answer_alike [of "\<lparr>oa_status = STATUS_ERR, oa_error_code = 3, oa_message = [110, 111]\<rparr>" 1
      "client_conn\<lparr>wc_pending := fmupd 1 0 fmempty\<rparr>" "Ip (V4 9) 80"]
  by (auto simp: code_consts)

end
