(* ===== verification/Ws_Login.thy ===== *)
theory Ws_Login
  imports Server_Tunnels Ws_Stream
begin

section \<open>The login over WebSocket, both ends\<close>

text \<open>
  The handshake of \<open>src/crates/hydr-transport/src/ws.rs\<close>: what \<open>connect_with_tls\<close> sends, through the writer
  and the wire, with or without obfuscation, to the loop \<open>accept_with_obfuscation\<close> started, and the
  answer back to the client's loop. Each end has one obfuscator for both directions, a fresh one from
  the same secret.
\<close>

definition fresh_obfuscation :: "hash_fn \<Rightarrow> bytes option \<Rightarrow> obfuscator option" where
  "fresh_obfuscation hash secret = map_option (obfuscator_new hash) secret"

text \<open>A sender that has sent nothing and a receiver that has received nothing, with the same secret.\<close>

definition unused :: "obfuscator option \<Rightarrow> obfuscator option \<Rightarrow> bool" where
  "unused s r \<longleftrightarrow> (case (s, r) of (None, None) \<Rightarrow> True | (Some s, Some r) \<Rightarrow> in_step 0 s r | _ \<Rightarrow> False)"

lemma unused_fresh: "unused (fresh_obfuscation hash secret) (fresh_obfuscation hash secret)"
  by (cases secret) (simp_all add: unused_def fresh_obfuscation_def in_step_new)

text \<open>
  The first frame of a direction. Sending leaves the sender as good as unused for what it receives, and
  receiving leaves the receiver as good as unused for what it sends.
\<close>

lemma first_frame_crosses:
  assumes b: "blake3_lengths hash keyed" and salt: "length salt = SALT_LEN"
    and st: "unused s r"
  obtains raw s' r' where "outbound_message hash keyed (Some salt) s f = Ok (raw, s')"
    "inbound_message hash keyed m r raw = Ok (InFrame (encode_frame [] f), m, r')"
    "unused r s \<Longrightarrow> unused r' s'"
proof (cases s)
  case None
  with st have "r = None" by (simp add: unused_def split: option.splits)
  with None show thesis
    by (intro that [of "encode_frame [] f" None None])
      (simp_all add: outbound_message_def inbound_message_def unused_def)
next
  case (Some so)
  with st obtain ro where ro: "r = Some ro" "in_step 0 so ro" by (auto simp: unused_def split: option.splits)
  obtain msg where 1: "encrypt hash keyed (Some salt) so (encode_frame [] f) = Ok (msg, so\<lparr>ob_send_seq := ob_send_seq so + 1\<rparr>)"
    "decrypt_outcome hash keyed m ro msg
       = Ok (OutcomeOk (encode_frame [] f), m, ro\<lparr>ob_recv := snd (observe (ob_recv ro) (of_nat 0))\<rparr>)"
    by (rule encrypt_decrypt [OF b ro(2) _ salt]) simp
  have "unused r s \<Longrightarrow> unused (Some (ro\<lparr>ob_recv := snd (observe (ob_recv ro) (of_nat 0))\<rparr>))
      (Some (so\<lparr>ob_send_seq := ob_send_seq so + 1\<rparr>))"
    by (simp add: unused_def in_step_def ro(1) Some)
  with 1 ro(1) Some show thesis
    by (intro that [of msg]) (simp_all add: outbound_message_def inbound_message_def)
qed

lemma login_frame:
  assumes "length body \<le> MAX_BODY_LEN"
  shows "decode_frame (encode_frame [] (frame_new 0 t body)) =
    Ok (frame_new 0 t body, length (encode_frame [] (frame_new 0 t body)))"
proof -
  have wf: "wf_frame (frame_new 0 t body)" using assms by (simp add: wf_frame_def frame_new_def)
  show ?thesis by (rule frame_codec.decode_encode [OF wf length_encode_frame [OF wf]])
qed

lemma body_isize: "n \<le> MAX_BODY_LEN \<Longrightarrow> n \<le> isize_max"
  by (simp add: code_consts isize_max_def)

text \<open>
  (C34) The two ends of a WebSocket handshake agree, with or without obfuscation and whether or not
  sessions are authenticated one by one: the server ends with exactly the request of the client,
  whatever its validator decides, and the client succeeds exactly when the status of the validator's
  answer is success, else with the text of that answer.
\<close>

theorem ws_handshake_agreement:
  assumes "blake3_lengths hash keyed" and "length salt1 = SALT_LEN" and "length salt2 = SALT_LEN"
    and "wf_auth_request auth" and "length (encode_auth_request [] auth) \<le> MAX_BODY_LEN"
    and "vd v auth = (Ok resp, v')"
    and "wf_auth_response resp" and "length (encode_auth_response [] resp) \<le> MAX_BODY_LEN"
    and "check_path path uri = None"
  shows "let ob = fresh_obfuscation hash secret;
      request = frame_new 0 FRAME_AUTH_REQUEST (encode_auth_request [] auth);
      answer = frame_new 0 FRAME_AUTH_RESPONSE (encode_auth_response [] resp);
      server = \<lparr>rs_conn = server_conn mux, rs_ob = ob, rs_metrics = metrics_new, rs_validator = v\<rparr>
    in \<exists>raw1 ob1 server' raw2 ob2 effs client.
      outbound_message hash keyed (Some salt1) ob request = Ok (raw1, ob1) \<and>
      accept_with_obfuscation hash keyed vd refused (Inr uri) path ob mux
        [(True, room, Incoming (Some (Binary raw1)))] v = (Some (Ok auth), v') \<and>
      run_step hash keyed (Some vd) True room (Incoming (Some (Binary raw1))) server =
        Ok (True, [AuthDone auth, Queue (OutFrame answer)], server') \<and>
      outbound_message hash keyed (Some salt2) (rs_ob server') answer = Ok (raw2, ob2) \<and>
      run_step hash keyed None True room (Incoming (Some (Binary raw2)))
        \<lparr>rs_conn = client_conn, rs_ob = ob1, rs_metrics = metrics_new, rs_validator = ()\<rparr> = Ok (True, effs, client) \<and>
      connect_outcome effs =
        Some (if ar_status resp = STATUS_OK then Ok () else Fail (Message (from_utf8_lossy (ar_message resp))))"
proof -
  let ?ob = "fresh_obfuscation hash secret"
  let ?request = "frame_new 0 FRAME_AUTH_REQUEST (encode_auth_request [] auth)"
  let ?answer = "frame_new 0 FRAME_AUTH_RESPONSE (encode_auth_response [] resp)"
  let ?s = "\<lparr>rs_conn = server_conn mux, rs_ob = ?ob, rs_metrics = metrics_new, rs_validator = v\<rparr>"
  obtain raw1 ob1 ob_r where out1: "outbound_message hash keyed (Some salt1) ?ob ?request = Ok (raw1, ob1)"
    and in1: "inbound_message hash keyed metrics_new ?ob raw1 = Ok (InFrame (encode_frame [] ?request), metrics_new, ob_r)"
    and un: "unused ob_r ob1"
    by (rule first_frame_crosses [OF assms(1,2) unused_fresh, of hash secret ?request metrics_new])
      (use unused_fresh in blast)
  obtain raw2 ob2 ob_c where out2: "outbound_message hash keyed (Some salt2) ob_r ?answer = Ok (raw2, ob2)"
    and in2: "inbound_message hash keyed metrics_new ob1 raw2 = Ok (InFrame (encode_frame [] ?answer), metrics_new, ob_c)"
    by (rule first_frame_crosses [OF assms(1,3) un, of ?answer metrics_new])
  have req: "decode_auth_request (encode_auth_request [] auth) = Ok (auth, length (encode_auth_request [] auth))"
    by (rule auth_request_codec.decode_encode [OF assms(4) body_isize [OF assms(5)]])
  have ans: "decode_auth_response (encode_auth_response [] resp) = Ok (resp, length (encode_auth_response [] resp))"
    by (rule auth_response_codec.decode_encode [OF assms(7) body_isize [OF assms(8)]])
  have server: "run_step hash keyed (Some vd) True room (Incoming (Some (Binary raw1)))
      \<lparr>rs_conn = server_conn mux, rs_ob = ?ob, rs_metrics = metrics_new, rs_validator = v\<rparr> =
    Ok (True, [AuthDone auth, Queue (OutFrame ?answer)],
      \<lparr>rs_conn = (server_conn mux)\<lparr>wc_server_auth_done := False\<rparr>, rs_ob = ob_r, rs_metrics = metrics_new, rs_validator = v'\<rparr>)"
    using login_frame [OF assms(5), of FRAME_AUTH_REQUEST] req
    by (simp add: run_step_def run_incoming_def in1 handle_frame_def dispatch_frame_def handle_auth_request_def
        on_result_def register_auth_def send_auth_response_def queue_frame_def assms(6) server_conn_def run_init_def
        frame_new_def code_consts Let_def)
  then have accepted: "accept_with_obfuscation hash keyed vd refused (Inr uri) path ?ob mux
      [(True, room, Incoming (Some (Binary raw1)))] v = (Some (Ok auth), v')"
    by (simp add: accept_with_obfuscation_def assms(9))
  have client: "run_step hash keyed (None :: unit validator option) True room (Incoming (Some (Binary raw2)))
      \<lparr>rs_conn = client_conn, rs_ob = ob1, rs_metrics = metrics_new, rs_validator = ()\<rparr> =
    Ok (True, [AuthAnswer (Ok resp)],
      \<lparr>rs_conn = client_conn\<lparr>wc_auth_response := False\<rparr>, rs_ob = ob_c, rs_metrics = metrics_new, rs_validator = ()\<rparr>)"
    using login_frame [OF assms(8), of FRAME_AUTH_RESPONSE] ans
    by (simp add: run_step_def run_incoming_def in2 handle_frame_def dispatch_frame_def handle_auth_response_def
        client_conn_def run_init_def frame_new_def code_consts Let_def)
  show ?thesis
    unfolding Let_def
    by (intro exI conjI, rule out1, rule accepted, rule server, simp add: out2, rule client)
      (simp add: connect_answer_def)
qed

theorem ws_handshake_agreement_witness:
  "let hash = (\<lambda>m. replicate 32 3); keyed = (\<lambda>k m. replicate 32 7);
       resp = auth_response_error (lit ''no''); vd = (\<lambda>v r. (Ok resp, v)); salt = replicate 8 5;
       ob = fresh_obfuscation hash (Some [1])
   in \<exists>raw1 ob1 raw2 effs client.
     outbound_message hash keyed (Some salt) ob (frame_new 0 FRAME_AUTH_REQUEST (encode_auth_request [] sample_auth))
       = Ok (raw1, ob1) \<and>
     accept_with_obfuscation hash keyed vd (\<lambda>b. b) (Inr []) [] ob True [(True, True, Incoming (Some (Binary raw1)))] () =
       (Some (Ok sample_auth), ()) \<and>
     run_step hash keyed None True True (Incoming (Some (Binary raw2)))
       \<lparr>rs_conn = client_conn, rs_ob = ob1, rs_metrics = metrics_new, rs_validator = ()\<rparr> = Ok (True, effs, client) \<and>
     connect_outcome effs = Some (Fail (Message (lit ''no'')))"
proof -
  let ?hash = "\<lambda>m :: bytes. replicate 32 3 :: bytes" and ?keyed = "\<lambda>k m :: bytes. replicate 32 7 :: bytes"
  let ?resp = "auth_response_error (lit ''no'')" and ?salt = "replicate 8 5 :: bytes"
  let ?vd = "\<lambda>(v :: unit) (r :: auth_request). (Ok ?resp :: auth_response result, v)"
  have b: "blake3_lengths ?hash ?keyed" and salt: "length ?salt = SALT_LEN"
    by (simp_all add: blake3_lengths_def code_consts)
  have wf: "wf_auth_request sample_auth" "wf_auth_response ?resp"
    by (simp_all add: wf_auth_request_def sample_auth_def wf_auth_response_def auth_response_error_def
        auth_response_error_with_code_def)
  have "length (encode_auth_response [] ?resp) \<le> 100" by code_simp
  then have len: "length (encode_auth_request [] sample_auth) \<le> MAX_BODY_LEN"
    "length (encode_auth_response [] ?resp) \<le> MAX_BODY_LEN"
    using sample_lengths(1) by (simp_all add: code_consts)
  have path: "check_path [] ([] :: rstring) = None" by (simp add: check_path_def)
  have no: "(if ar_status ?resp = STATUS_OK then Ok () else Fail (Message (from_utf8_lossy (ar_message ?resp)))) =
      Fail (Message (lit ''no''))" by code_simp
  have vd: "?vd () sample_auth = (Ok ?resp, ())" by (rule refl)
  note agreement = ws_handshake_agreement [where mux = True and room = True and refused = "\<lambda>b. b" and secret = "Some [1]"
      and vd = ?vd and v = "()" and auth = sample_auth and resp = ?resp and v' = "()", OF b salt salt wf(1) len(1)]
  from agreement [OF vd wf(2) len(2) path, unfolded no] show ?thesis unfolding Let_def by blast
qed

end
