(* ===== verification/Ws_Masked.thy ===== *)
theory Ws_Masked
  imports Ws_Pair Ws_Login
begin

section \<open>Both ends with their writers, over masked wires\<close>

text \<open>
  The pair of \<open>Ws_Pair\<close> as it runs: behind each loop the \<open>writer\<close> task takes the frames from its queue,
  masks them with the obfuscator it shares with the loop, if there is one, and puts the messages on the
  wire; the loop at the other end unmasks what arrives. Beside the two ends there is somebody on the
  path who records messages and sends them again. Queues and wires have their bounds: a loop that waits
  for its writer and a writer that waits for the wire do nothing else. This system refines the one of
  \<open>Ws_Pair\<close>: the masking, the counters of the two obfuscators, their windows, the recorded messages and
  the bounds do not show. \<open>Ws_Progress\<close> builds on it. The queues of events and of data for the applications
  are taken to be emptied.
\<close>

subsection \<open>The system\<close>

text \<open>
  Inside \<open>mk_pair\<close> the lists \<open>wp_up\<close> and \<open>wp_down\<close> are the queues of the two writers. \<open>mk_up\<close> and
  \<open>mk_down\<close> are the messages on the wires, \<open>mk_up_log\<close> and \<open>mk_down_log\<close> those that have arrived.
\<close>

record masked =
  mk_pair :: ws_pair
  mk_up :: "bytes list"
  mk_down :: "bytes list"
  mk_up_log :: "bytes list"
  mk_down_log :: "bytes list"

datatype masked_action =
    Turn pair_action
  | Client_writes bytes
  | Server_writes bytes
  | Server_reads
  | Client_reads
  | Replay_to_server nat
  | Replay_to_client nat

text \<open>One round of \<open>writer\<close> on a queue: the message it puts on the wire, with the salt it draws.\<close>

definition write_next ::
  "hash_fn \<Rightarrow> keyed_hash_fn \<Rightarrow> bytes \<Rightarrow> obfuscator option \<Rightarrow> frame \<Rightarrow> (bytes \<times> obfuscator option) option" where
  "write_next hash keyed salt ob f =
     (case writer hash keyed ob [(Some salt, OutFrame f, True)] of
        Inr ([SinkBinary raw], ob) \<Rightarrow> Some (raw, ob)
      | _ \<Rightarrow> None)"

text \<open>
  The writer's queue has \<open>OUTBOUND_QUEUE\<close> places. With one frame more, the loop waits in \<open>send\<close> for
  the writer to take one, and takes no turn: it handles no command and no message.
\<close>

definition loop_free :: "frame list \<Rightarrow> bool" where
  "loop_free queue \<longleftrightarrow> length queue \<le> OUTBOUND_QUEUE"

fun queue_of :: "pair_action \<Rightarrow> ws_pair \<Rightarrow> frame list" where
  "queue_of (pair_action.Opens addr pipe) p = wp_up p"
| "queue_of (Replies sid status code message pipe) p = wp_down p"
| "queue_of (Client_sends f) p = wp_up p"
| "queue_of (Server_sends f) p = wp_down p"
| "queue_of To_server p = wp_down p"
| "queue_of To_client p = wp_up p"

text \<open>
  One action. A wire takes \<open>cap\<close> messages, the one in the hands of the writer among them. A message that
  is sent again comes to the loop in its turn, as any other.
\<close>

fun masked_step ::
  "nat \<Rightarrow> hash_fn \<Rightarrow> keyed_hash_fn \<Rightarrow> unit validator option \<Rightarrow> masked_action \<Rightarrow> masked \<Rightarrow> masked option" where
  "masked_step cap hash keyed auth (Turn a) s =
     (if a = To_server \<or> a = To_client \<or> \<not> loop_free (queue_of a (mk_pair s)) then None
      else map_option (\<lambda>p. s\<lparr>mk_pair := p\<rparr>) (pair_step hash keyed auth a (mk_pair s)))"
| "masked_step cap hash keyed auth (Client_writes salt) s =
     (let p = mk_pair s; c = wp_client p in
      case wp_up p of
        [] \<Rightarrow> None
      | f # fs \<Rightarrow>
          if length (mk_up s) < cap then
            map_option (\<lambda>(raw, ob). s\<lparr>mk_pair := p\<lparr>wp_up := fs, wp_client := c\<lparr>rs_ob := ob\<rparr>\<rparr>, mk_up := mk_up s @ [raw]\<rparr>)
              (write_next hash keyed salt (rs_ob c) f)
          else None)"
| "masked_step cap hash keyed auth (Server_writes salt) s =
     (let p = mk_pair s; c = wp_server p in
      case wp_down p of
        [] \<Rightarrow> None
      | f # fs \<Rightarrow>
          if length (mk_down s) < cap then
            map_option (\<lambda>(raw, ob). s\<lparr>mk_pair := p\<lparr>wp_down := fs, wp_server := c\<lparr>rs_ob := ob\<rparr>\<rparr>, mk_down := mk_down s @ [raw]\<rparr>)
              (write_next hash keyed salt (rs_ob c) f)
          else None)"
| "masked_step cap hash keyed auth Server_reads s =
     (case mk_up s of
        [] \<Rightarrow> None
      | raw # raws \<Rightarrow>
          if loop_free (wp_down (mk_pair s)) then
            map_option (\<lambda>p. s\<lparr>mk_pair := p, mk_up := raws, mk_up_log := mk_up_log s @ [raw]\<rparr>)
              (server_turn hash keyed auth (Incoming (Some (Binary raw))) (mk_pair s))
          else None)"
| "masked_step cap hash keyed auth Client_reads s =
     (case mk_down s of
        [] \<Rightarrow> None
      | raw # raws \<Rightarrow>
          if loop_free (wp_up (mk_pair s)) then
            map_option (\<lambda>p. s\<lparr>mk_pair := p, mk_down := raws, mk_down_log := mk_down_log s @ [raw]\<rparr>)
              (client_turn hash keyed (Incoming (Some (Binary raw))) (mk_pair s))
          else None)"
| "masked_step cap hash keyed auth (Replay_to_server i) s =
     (if i < length (mk_up_log s) \<and> loop_free (wp_down (mk_pair s))
      then map_option (\<lambda>p. s\<lparr>mk_pair := p\<rparr>)
             (server_turn hash keyed auth (Incoming (Some (Binary (mk_up_log s ! i)))) (mk_pair s))
      else None)"
| "masked_step cap hash keyed auth (Replay_to_client i) s =
     (if i < length (mk_down_log s) \<and> loop_free (wp_up (mk_pair s))
      then map_option (\<lambda>p. s\<lparr>mk_pair := p\<rparr>)
             (client_turn hash keyed (Incoming (Some (Binary (mk_down_log s ! i)))) (mk_pair s))
      else None)"

fun masked_run ::
  "nat \<Rightarrow> hash_fn \<Rightarrow> keyed_hash_fn \<Rightarrow> unit validator option \<Rightarrow> masked_action list \<Rightarrow> masked \<Rightarrow> masked option" where
  "masked_run cap hash keyed auth [] s = Some s"
| "masked_run cap hash keyed auth (a # acts) s =
     Option.bind (masked_step cap hash keyed auth a s) (masked_run cap hash keyed auth acts)"

definition masked_init :: "hash_fn \<Rightarrow> bytes option \<Rightarrow> masked" where
  "masked_init hash secret =
     \<lparr>mk_pair = pair_init\<lparr>wp_client := (wp_client pair_init)\<lparr>rs_ob := fresh_obfuscation hash secret\<rparr>,
        wp_server := (wp_server pair_init)\<lparr>rs_ob := fresh_obfuscation hash secret\<rparr>\<rparr>,
      mk_up = [], mk_down = [], mk_up_log = [], mk_down_log = []\<rparr>"

lemma masked_run_append:
  "masked_run cap hash keyed auth (xs @ ys) s =
     Option.bind (masked_run cap hash keyed auth xs s) (masked_run cap hash keyed auth ys)"
  by (induction xs arbitrary: s) (simp_all split: bind_split)

lemma masked_run_then:
  "masked_run cap hash keyed auth xs s = Some s1 \<Longrightarrow> masked_run cap hash keyed auth ys s1 = Some s2 \<Longrightarrow>
   masked_run cap hash keyed auth (xs @ ys) s = Some s2"
  by (simp add: masked_run_append)

lemma masked_run_one: "masked_step cap hash keyed auth act s = Some s' \<Longrightarrow> masked_run cap hash keyed auth [act] s = Some s'"
  by simp

subsection \<open>Masked messages\<close>

text \<open>
  \<open>raw\<close> is \<open>buf\<close> as message number \<open>n\<close> of somebody who knows the secret. It says nothing about the
  connection or the direction it was made for.
\<close>

definition sealed :: "hash_fn \<Rightarrow> keyed_hash_fn \<Rightarrow> bytes option \<Rightarrow> nat \<Rightarrow> bytes \<Rightarrow> bytes \<Rightarrow> bool" where
  "sealed hash keyed secret n buf raw \<longleftrightarrow>
     (case secret of
        None \<Rightarrow> raw = buf
      | Some key \<Rightarrow> \<exists>salt s'. length salt = SALT_LEN \<and>
          encrypt hash keyed (Some salt) ((obfuscator_new hash key)\<lparr>ob_send_seq := of_nat n\<rparr>) buf = Ok (raw, s'))"

text \<open>
  The obfuscator of an end, as the sender of message \<open>n\<close>, as the receiver that has accepted only numbers
  below \<open>n\<close>, and the numbers that it would not accept again.
\<close>

definition sends :: "hash_fn \<Rightarrow> bytes option \<Rightarrow> nat \<Rightarrow> obfuscator option \<Rightarrow> bool" where
  "sends hash secret n ob \<longleftrightarrow>
     (case (secret, ob) of
        (None, None) \<Rightarrow> True
      | (Some key, Some ob) \<Rightarrow> ob_key ob = key \<and> ob_key32 ob = hash key \<and> ob_send_seq ob = of_nat n
      | _ \<Rightarrow> False)"

definition receives :: "hash_fn \<Rightarrow> bytes option \<Rightarrow> nat \<Rightarrow> obfuscator option \<Rightarrow> bool" where
  "receives hash secret n ob \<longleftrightarrow>
     (case (secret, ob) of
        (None, None) \<Rightarrow> True
      | (Some key, Some ob) \<Rightarrow> in_step n ((obfuscator_new hash key)\<lparr>ob_send_seq := of_nat n\<rparr>) ob
      | _ \<Rightarrow> False)"

definition spent_number :: "obfuscator option \<Rightarrow> nat \<Rightarrow> bool" where
  "spent_number ob n \<longleftrightarrow> (\<exists>r. ob = Some r \<and> filter_spent (ob_recv r) (of_nat n))"

lemma sends_fresh: "sends hash secret 0 (fresh_obfuscation hash secret)"
  by (cases secret) (simp_all add: sends_def fresh_obfuscation_def obfuscator_new_def)

lemma receives_fresh: "receives hash secret 0 (fresh_obfuscation hash secret)"
  using in_step_new [of hash] by (cases secret) (simp_all add: receives_def fresh_obfuscation_def in_step_def obfuscator_new_def)

lemma sealed_outcome:
  assumes b: "blake3_lengths hash keyed" and k: "ob_key r = key" "ob_key32 r = hash key"
    and s: "sealed hash keyed (Some key) n buf raw"
  shows "decrypt_outcome hash keyed m r raw =
    Ok (if filter_spent (ob_recv r) (of_nat n)
        then (Replay, m\<lparr>mt_obfus_replay_dropped := mt_obfus_replay_dropped m + 1\<rparr>, r)
        else (OutcomeOk buf, m, r\<lparr>ob_recv := snd (observe (ob_recv r) (of_nat n))\<rparr>))"
proof -
  let ?s = "(obfuscator_new hash key)\<lparr>ob_send_seq := of_nat n\<rparr>"
  let ?plain = "be_bytes 8 (of_nat n :: u64) @ buf"
  from s obtain salt s' where salt: "length salt = SALT_LEN"
    and e: "encrypt hash keyed (Some salt) ?s buf = Ok (raw, s')" by (auto simp: sealed_def)
  obtain body where x: "xor_in_place hash r ?plain salt = Ok body"
    and len: "length body = length ?plain" and y: "xor_in_place hash r body salt = Ok ?plain"
    using xor_in_place_involution [OF b] by blast
  have "raw = salt @ body @ frame_tag keyed r body"
    using e x k by (simp add: encrypt_def Let_def xor_in_place_def obfuscator_new_def obfuscator_tag_Ok [OF b] frame_tag_def)
  then show ?thesis
    using decrypt_outcome_parts [OF b salt length_frame_tag [OF b] _ y, of m] len
    by (simp add: judge_def observe_eq from_be_bytes)
qed

text \<open>A round of the writer.\<close>

lemma write_next_sealed:
  assumes b: "blake3_lengths hash keyed" and s: "sends hash secret n ob" and salt: "length salt = SALT_LEN"
  obtains raw ob' where "write_next hash keyed salt ob f = Some (raw, ob')"
    "sealed hash keyed secret n (encode_frame [] f) raw" "sends hash secret (Suc n) ob'"
    "\<And>k. receives hash secret k ob \<Longrightarrow> receives hash secret k ob'"
    "\<And>i. spent_number ob' i \<longleftrightarrow> spent_number ob i"
proof (cases ob)
  case None
  with s have "secret = None" by (auto simp: sends_def split: option.splits)
  with None show thesis
    by (intro that [of "encode_frame [] f" None])
      (simp_all add: write_next_def sink_message_of_def outbound_message_def sealed_def sends_def)
next
  case (Some o1)
  with s obtain key where key: "secret = Some key" "ob_key o1 = key" "ob_key32 o1 = hash key" "ob_send_seq o1 = of_nat n"
    by (auto simp: sends_def split: option.splits)
  let ?s = "(obfuscator_new hash key)\<lparr>ob_send_seq := of_nat n\<rparr>"
  obtain body where x: "xor_in_place hash o1 (be_bytes 8 (of_nat n :: u64) @ encode_frame [] f) salt = Ok body"
    using xor_in_place_involution [OF b] by blast
  let ?raw = "salt @ body @ frame_tag keyed o1 body" and ?o = "o1\<lparr>ob_send_seq := of_nat n + 1\<rparr>"
  have 1: "write_next hash keyed salt ob f = Some (?raw, Some ?o)"
    using x by (simp add: Some write_next_def sink_message_of_def outbound_message_def encrypt_def key Let_def
        xor_in_place_def obfuscator_tag_Ok [OF b] frame_tag_def)
  have "encrypt hash keyed (Some salt) ?s (encode_frame [] f) = Ok (?raw, ?s\<lparr>ob_send_seq := of_nat n + 1\<rparr>)"
    using x by (simp add: encrypt_def Let_def xor_in_place_def obfuscator_new_def key obfuscator_tag_Ok [OF b] frame_tag_def)
  with salt have "sealed hash keyed secret n (encode_frame [] f) ?raw" by (auto simp: sealed_def key(1))
  with 1 show thesis
    by (rule that) (use key in \<open>simp_all add: sends_def receives_def spent_number_def in_step_def Some add.commute\<close>)
qed

text \<open>The next message arrives, and one that has arrived before arrives again.\<close>

lemma sealed_arrives:
  assumes b: "blake3_lengths hash keyed" and r: "receives hash secret n ob" and n: "n < 2 ^ 64"
    and s: "sealed hash keyed secret n buf raw"
  obtains ob' where "inbound_message hash keyed m ob raw = Ok (InFrame buf, m, ob')"
    "receives hash secret (Suc n) ob'" "\<And>k. sends hash secret k ob \<Longrightarrow> sends hash secret k ob'"
    "\<And>i. spent_number ob i \<Longrightarrow> spent_number ob' i" "secret \<noteq> None \<Longrightarrow> spent_number ob' n"
proof (cases ob)
  case None
  with r have "secret = None" by (auto simp: receives_def split: option.splits)
  with None s show thesis
    by (intro that [of None]) (simp_all add: inbound_message_def sealed_def receives_def)
next
  case (Some o1)
  with r obtain key where key: "secret = Some key"
    and i: "in_step n ((obfuscator_new hash key)\<lparr>ob_send_seq := of_nat n\<rparr>) o1"
    by (auto simp: receives_def split: option.splits)
  let ?o = "o1\<lparr>ob_recv := snd (observe (ob_recv o1) (of_nat n))\<rparr>"
  have k: "ob_key o1 = key" "ob_key32 o1 = hash key" and inv: "filter_inv (ob_recv o1)"
    using i by (simp_all add: in_step_def obfuscator_new_def)
  note fresh = in_step_fresh [OF i n]
  have "inbound_message hash keyed m ob raw = Ok (InFrame buf, m, Some ?o)"
    using sealed_outcome [OF b k s [unfolded key], of m] fresh by (simp add: inbound_message_def Some)
  then show thesis
  proof (rule that)
    show "receives hash secret (Suc n) (Some ?o)"
      using in_step_observe [OF i n] by (simp add: receives_def key add.commute)
    show "spent_number (Some ?o) i" if "spent_number ob i" for i
      using that window.spent_stays [OF inv] by (simp add: spent_number_def Some)
    show "spent_number (Some ?o) n" if "secret \<noteq> None"
      using window.accept_spends [OF inv, of "of_nat n"] fresh by (simp add: spent_number_def observe_eq)
  qed (simp add: sends_def key Some)
qed

lemma sealed_again:
  assumes b: "blake3_lengths hash keyed" and r: "receives hash secret n ob"
    and s: "sealed hash keyed secret i buf raw" and i: "spent_number ob i"
  obtains m' where "inbound_message hash keyed m ob raw = Ok (InDrop, m', ob)"
proof -
  from i obtain o1 where ob: "ob = Some o1" "filter_spent (ob_recv o1) (of_nat i)" by (auto simp: spent_number_def)
  with r obtain key where "secret = Some key" "ob_key o1 = key" "ob_key32 o1 = hash key"
    by (auto simp: receives_def in_step_def obfuscator_new_def split: option.splits)
  with sealed_outcome [OF b, of o1 key i buf raw m] s ob that show thesis
    by (simp add: inbound_message_def)
qed

subsection \<open>One direction of the connection\<close>

text \<open>The messages \<open>raws\<close> are the frames \<open>fs\<close>, numbered from \<open>n\<close> on.\<close>

fun sealed_all :: "hash_fn \<Rightarrow> keyed_hash_fn \<Rightarrow> bytes option \<Rightarrow> nat \<Rightarrow> frame list \<Rightarrow> bytes list \<Rightarrow> bool" where
  "sealed_all hash keyed secret n [] [] \<longleftrightarrow> True"
| "sealed_all hash keyed secret n (f # fs) (raw # raws) \<longleftrightarrow>
     sealed hash keyed secret n (encode_frame [] f) raw \<and> sealed_all hash keyed secret (Suc n) fs raws"
| "sealed_all hash keyed secret n _ _ \<longleftrightarrow> False"

text \<open>
  From a sender to a receiver: the messages on the wire carry the frames \<open>fs\<close> with the next numbers,
  every message that has arrived carries a number the receiver has spent, and not more than \<open>N\<close> have been
  sent.
\<close>

definition channel ::
  "hash_fn \<Rightarrow> keyed_hash_fn \<Rightarrow> bytes option \<Rightarrow> nat \<Rightarrow> obfuscator option \<Rightarrow> obfuscator option \<Rightarrow>
     frame list \<Rightarrow> bytes list \<Rightarrow> bytes list \<Rightarrow> bool" where
  "channel hash keyed secret N so ro fs raws log \<longleftrightarrow>
     (\<exists>k. k + length raws \<le> N \<and> sends hash secret (k + length raws) so \<and> receives hash secret k ro \<and>
        sealed_all hash keyed secret k fs raws) \<and>
     (secret \<noteq> None \<longrightarrow> (\<forall>raw \<in> set log. \<exists>i buf. sealed hash keyed secret i buf raw \<and> spent_number ro i))"

lemma sealed_all_snoc:
  "sealed_all hash keyed secret n fs raws \<Longrightarrow>
   sealed hash keyed secret (n + length raws) (encode_frame [] f) raw \<Longrightarrow>
   sealed_all hash keyed secret n (fs @ [f]) (raws @ [raw])"
  by (induction hash keyed secret n fs raws rule: sealed_all.induct) simp_all

lemma sealed_all_length: "sealed_all hash keyed secret n fs raws \<Longrightarrow> length fs = length raws"
  by (induction hash keyed secret n fs raws rule: sealed_all.induct) simp_all

lemma channel_length: "channel hash keyed secret N so ro fs raws log \<Longrightarrow> length fs = length raws"
  by (auto simp: channel_def sealed_all_length)

lemma channel_mono: "channel hash keyed secret M so ro fs raws log \<Longrightarrow> M \<le> N \<Longrightarrow> channel hash keyed secret N so ro fs raws log"
  unfolding channel_def using order_trans by blast

lemma channel_fresh:
  "channel hash keyed secret 0 (fresh_obfuscation hash secret) (fresh_obfuscation hash secret) [] [] []"
  by (simp add: channel_def sends_fresh receives_fresh)

lemma channel_write:
  assumes b: "blake3_lengths hash keyed" and c: "channel hash keyed secret N so ro fs raws log"
    and salt: "length salt = SALT_LEN"
  obtains raw so' where "write_next hash keyed salt so f = Some (raw, so')"
    "channel hash keyed secret (Suc N) so' ro (fs @ [f]) (raws @ [raw]) log"
    "\<And>M xo gs ws ls. channel hash keyed secret M xo so gs ws ls \<Longrightarrow> channel hash keyed secret M xo so' gs ws ls"
proof -
  from c obtain k where k: "k + length raws \<le> N" "sends hash secret (k + length raws) so" "receives hash secret k ro"
    "sealed_all hash keyed secret k fs raws" by (auto simp: channel_def)
  from write_next_sealed [OF b k(2) salt, of f] obtain raw so' where
    1: "write_next hash keyed salt so f = Some (raw, so')"
    and 2: "sealed hash keyed secret (k + length raws) (encode_frame [] f) raw"
    and 3: "sends hash secret (Suc (k + length raws)) so'"
    and 4: "\<And>k. receives hash secret k so \<Longrightarrow> receives hash secret k so'" "\<And>i. spent_number so' i \<longleftrightarrow> spent_number so i"
    by metis
  have "k + length (raws @ [raw]) \<le> Suc N" using k(1) by simp
  moreover have "sends hash secret (k + length (raws @ [raw])) so'" using 3 by simp
  ultimately have "channel hash keyed secret (Suc N) so' ro (fs @ [f]) (raws @ [raw]) log"
    using c k(3) sealed_all_snoc [OF k(4) 2] unfolding channel_def by blast
  with 1 show thesis
    by (rule that) (use 4 in \<open>unfold channel_def, blast\<close>)
qed

lemma channel_read:
  assumes b: "blake3_lengths hash keyed" and c: "channel hash keyed secret N so ro fs (raw # raws) log" and N: "N \<le> 2 ^ 64"
  obtains f fs' ro' where "fs = f # fs'" "inbound_message hash keyed m ro raw = Ok (InFrame (encode_frame [] f), m, ro')"
    "channel hash keyed secret N so ro' fs' raws (log @ [raw])"
    "\<And>M xo gs ws ls. channel hash keyed secret M ro xo gs ws ls \<Longrightarrow> channel hash keyed secret M ro' xo gs ws ls"
proof -
  from c obtain k where k: "k + length (raw # raws) \<le> N" "sends hash secret (k + length (raw # raws)) so"
    "receives hash secret k ro" "sealed_all hash keyed secret k fs (raw # raws)" by (auto simp: channel_def)
  from k(4) obtain f fs' where fs: "fs = f # fs'" by (cases fs) simp_all
  with k(4) have s: "sealed hash keyed secret k (encode_frame [] f) raw" "sealed_all hash keyed secret (Suc k) fs' raws"
    by simp_all
  have "k < 2 ^ 64" using k(1) N by simp
  from sealed_arrives [OF b k(3) this s(1), of m] obtain ro' where
    1: "inbound_message hash keyed m ro raw = Ok (InFrame (encode_frame [] f), m, ro')"
    and 2: "receives hash secret (Suc k) ro'" "\<And>k. sends hash secret k ro \<Longrightarrow> sends hash secret k ro'"
    and 3: "\<And>i. spent_number ro i \<Longrightarrow> spent_number ro' i" "secret \<noteq> None \<Longrightarrow> spent_number ro' k"
    by metis
  have "Suc k + length raws \<le> N" "sends hash secret (Suc k + length raws) so" using k(1,2) by simp_all
  moreover have "secret \<noteq> None \<longrightarrow> (\<forall>x \<in> set (log @ [raw]). \<exists>i buf. sealed hash keyed secret i buf x \<and> spent_number ro' i)"
    using c s(1) 3 unfolding channel_def by (auto, blast+)
  ultimately have "channel hash keyed secret N so ro' fs' raws (log @ [raw])"
    using 2(1) s(2) unfolding channel_def by blast
  with fs 1 show thesis
    by (rule that) (use 2 in \<open>unfold channel_def, blast\<close>)
qed

lemma channel_again:
  assumes b: "blake3_lengths hash keyed" and c: "channel hash keyed (Some key) N so ro fs raws log" and raw: "raw \<in> set log"
  obtains m' where "inbound_message hash keyed m ro raw = Ok (InDrop, m', ro)"
proof -
  from c raw obtain k i buf where "receives hash (Some key) k ro" "sealed hash keyed (Some key) i buf raw" "spent_number ro i"
    by (auto simp: channel_def)
  from sealed_again [OF b this, of m] that show thesis by blast
qed

subsection \<open>What does not show\<close>

text \<open>A loop without its obfuscator and counters, and the pair with the frames \<open>fu\<close> and \<open>fd\<close> on the wires.\<close>

definition plain :: "unit run_state \<Rightarrow> unit run_state" where
  "plain st = st\<lparr>rs_ob := None, rs_metrics := metrics_new\<rparr>"

definition plain_result :: "unit run_result \<Rightarrow> unit run_result" where
  "plain_result r = (case r of Inl e \<Rightarrow> Inl e | Inr (go, effs, st) \<Rightarrow> Inr (go, effs, plain st))"

definition view :: "frame list \<Rightarrow> frame list \<Rightarrow> ws_pair \<Rightarrow> ws_pair" where
  "view fu fd q = q\<lparr>wp_client := plain (wp_client q), wp_server := plain (wp_server q),
     wp_up := fu @ wp_up q, wp_down := fd @ wp_down q\<rparr>"

lemma plain_simps [simp]:
  "rs_conn (plain st) = rs_conn st" "rs_validator (plain st) = rs_validator st" "rs_ob (plain st) = None"
  "rs_metrics (plain st) = metrics_new" "plain (st\<lparr>rs_conn := c\<rparr>) = (plain st)\<lparr>rs_conn := c\<rparr>"
  "plain (st\<lparr>rs_validator := v\<rparr>) = (plain st)\<lparr>rs_validator := v\<rparr>" "plain (st\<lparr>rs_ob := ob\<rparr>) = plain st"
  "plain (st\<lparr>rs_metrics := m\<rparr>) = plain st"
  by (cases st; simp add: plain_def)+

lemma run_command_plain:
  "run_command up cmd (plain st) = plain_result (run_command up cmd st)"
  "run_command up cmd st = Inr (go, effs, st') \<Longrightarrow> rs_ob st' = rs_ob st"
  by (auto simp: run_command_def run_queue_def plain_result_def Let_def split_beta split: ws_cmd.splits if_splits)

lemma run_incoming_plain:
  assumes "inbound_message hash keyed (rs_metrics st) (rs_ob st) raw = Ok (InFrame b, m, ob)"
  shows "run_incoming hash keyed auth up b (plain st) = plain_result (run_incoming hash keyed auth up raw st)"
    "run_incoming hash keyed auth up raw st = Inr (go, effs, st') \<Longrightarrow> rs_ob st' = ob"
proof -
  have p: "inbound_message hash keyed (rs_metrics (plain st)) (rs_ob (plain st)) b = Ok (InFrame b, metrics_new, None)"
    by (simp add: inbound_message_def)
  have "plain st\<lparr>rs_metrics := metrics_new, rs_ob := None\<rparr> = plain st" by (cases st) (simp add: plain_def)
  with assms show "run_incoming hash keyed auth up b (plain st) = plain_result (run_incoming hash keyed auth up raw st)"
    unfolding run_incoming_def p
    by (auto simp: plain_result_def Let_def split: prod.splits sum.splits failure.splits)
  show "run_incoming hash keyed auth up raw st = Inr (go, effs, st') \<Longrightarrow> rs_ob st' = ob"
    using assms by (auto simp: run_incoming_def Let_def split: prod.splits sum.splits failure.splits)
qed

text \<open>A turn of a loop, seen without the obfuscator.\<close>

lemma client_turn_view:
  assumes "run_step hash keyed None True True inp' (plain (wp_client q)) =
    plain_result (run_step hash keyed None True True inp (wp_client q))"
  shows "client_turn hash keyed inp' (view fu fd q) = map_option (view fu fd) (client_turn hash keyed inp q)"
  using assms by (auto simp: client_turn_def view_def plain_result_def split: sum.split prod.split bool.split)

lemma server_turn_view:
  assumes "run_step hash keyed auth True True inp' (plain (wp_server q)) =
    plain_result (run_step hash keyed auth True True inp (wp_server q))"
  shows "server_turn hash keyed auth inp' (view fu fd q) = map_option (view fu fd) (server_turn hash keyed auth inp q)"
  using assms by (auto simp: server_turn_def view_def plain_result_def split: sum.split prod.split bool.split)

lemma command_view:
  "client_turn hash keyed (Command cmd) (view fu fd q) = map_option (view fu fd) (client_turn hash keyed (Command cmd) q)"
  "server_turn hash keyed auth (Command cmd) (view fu fd q) = map_option (view fu fd) (server_turn hash keyed auth (Command cmd) q)"
  by (rule client_turn_view server_turn_view, simp add: run_step_def run_command_plain)+

lemma command_obfuscators:
  "client_turn hash keyed (Command cmd) q = Some q' \<Longrightarrow> rs_ob (wp_client q') = rs_ob (wp_client q) \<and> wp_server q' = wp_server q"
  "server_turn hash keyed auth (Command cmd) q = Some q' \<Longrightarrow> rs_ob (wp_server q') = rs_ob (wp_server q) \<and> wp_client q' = wp_client q"
  by (auto simp: client_turn_def server_turn_def run_step_def split: sum.splits bool.splits prod.splits dest: run_command_plain(2))

lemma pair_step_view:
  assumes "a \<noteq> To_server" "a \<noteq> To_client"
  shows "pair_step hash keyed auth a (view fu fd q) = map_option (view fu fd) (pair_step hash keyed auth a q)"
proof (cases a)
  case (Opens addr pipe)
  have "(view fu fd q)\<lparr>wp_next := i, wp_requested := r\<rparr> = view fu fd (q\<lparr>wp_next := i, wp_requested := r\<rparr>)" for i r
    by (simp add: view_def)
  then show ?thesis
    by (simp add: Opens ws_open_stream_def command_view [symmetric] Let_def) (simp add: view_def)
next
  case (Replies sid status code message pipe)
  have "(view fu fd q)\<lparr>wp_replied := r\<rparr> = view fu fd (q\<lparr>wp_replied := r\<rparr>)" for r
    by (simp add: view_def)
  then show ?thesis
    by (simp add: Replies command_view [symmetric]) (auto simp: view_def)
qed (use assms in \<open>simp_all add: command_view\<close>)

lemma pair_step_obfuscators:
  assumes "a \<noteq> To_server" "a \<noteq> To_client" "pair_step hash keyed auth a q = Some q'"
  shows "rs_ob (wp_client q') = rs_ob (wp_client q) \<and> rs_ob (wp_server q') = rs_ob (wp_server q)"
  using assms by (cases a) (auto simp: ws_open_stream_def Let_def split: if_splits dest: command_obfuscators)

text \<open>A message that arrives, seen as the frame it carries, and one that is dropped.\<close>

lemma arrival_view:
  assumes "inbound_message hash keyed (rs_metrics (wp_server q)) (rs_ob (wp_server q)) raw = Ok (InFrame b, m, ob)"
  shows "server_turn hash keyed auth (Incoming (Some (Binary b))) (view fu fd q) =
      map_option (view fu fd) (server_turn hash keyed auth (Incoming (Some (Binary raw))) q)"
    "server_turn hash keyed auth (Incoming (Some (Binary raw))) q = Some q' \<Longrightarrow>
      rs_ob (wp_server q') = ob \<and> wp_client q' = wp_client q"
proof -
  show "server_turn hash keyed auth (Incoming (Some (Binary b))) (view fu fd q) =
      map_option (view fu fd) (server_turn hash keyed auth (Incoming (Some (Binary raw))) q)"
    by (rule server_turn_view) (simp add: run_step_def run_incoming_plain(1) [OF assms])
  show "rs_ob (wp_server q') = ob \<and> wp_client q' = wp_client q"
    if "server_turn hash keyed auth (Incoming (Some (Binary raw))) q = Some q'"
    using that by (auto simp: server_turn_def run_step_def split: sum.splits bool.splits prod.splits
        dest: run_incoming_plain(2) [OF assms])
qed

lemma arrival_at_client_view:
  assumes "inbound_message hash keyed (rs_metrics (wp_client q)) (rs_ob (wp_client q)) raw = Ok (InFrame b, m, ob)"
  shows "client_turn hash keyed (Incoming (Some (Binary b))) (view fu fd q) =
      map_option (view fu fd) (client_turn hash keyed (Incoming (Some (Binary raw))) q)"
    "client_turn hash keyed (Incoming (Some (Binary raw))) q = Some q' \<Longrightarrow>
      rs_ob (wp_client q') = ob \<and> wp_server q' = wp_server q"
proof -
  show "client_turn hash keyed (Incoming (Some (Binary b))) (view fu fd q) =
      map_option (view fu fd) (client_turn hash keyed (Incoming (Some (Binary raw))) q)"
    by (rule client_turn_view) (simp add: run_step_def run_incoming_plain(1) [OF assms])
  show "rs_ob (wp_client q') = ob \<and> wp_server q' = wp_server q"
    if "client_turn hash keyed (Incoming (Some (Binary raw))) q = Some q'"
    using that by (auto simp: client_turn_def run_step_def split: sum.splits bool.splits prod.splits
        dest: run_incoming_plain(2) [OF assms])
qed

lemma dropped_view:
  "inbound_message hash keyed (rs_metrics (wp_server q)) (rs_ob (wp_server q)) raw = Ok (InDrop, m, rs_ob (wp_server q)) \<Longrightarrow>
   \<exists>q'. server_turn hash keyed auth (Incoming (Some (Binary raw))) q = Some q' \<and> view fu fd q' = view fu fd q \<and>
     rs_ob (wp_client q') = rs_ob (wp_client q) \<and> rs_ob (wp_server q') = rs_ob (wp_server q)"
  "inbound_message hash keyed (rs_metrics (wp_client q)) (rs_ob (wp_client q)) raw = Ok (InDrop, m, rs_ob (wp_client q)) \<Longrightarrow>
   \<exists>q'. client_turn hash keyed (Incoming (Some (Binary raw))) q = Some q' \<and> view fu fd q' = view fu fd q \<and>
     rs_ob (wp_client q') = rs_ob (wp_client q) \<and> rs_ob (wp_server q') = rs_ob (wp_server q)"
  by (simp_all add: server_turn_def client_turn_def run_step_def run_incoming_def Let_def view_def)

subsection \<open>The refinement\<close>

definition related :: "hash_fn \<Rightarrow> keyed_hash_fn \<Rightarrow> bytes option \<Rightarrow> nat \<Rightarrow> masked \<Rightarrow> ws_pair \<Rightarrow> bool" where
  "related hash keyed secret N s p \<longleftrightarrow>
     (let c = rs_ob (wp_client (mk_pair s)); v = rs_ob (wp_server (mk_pair s))
      in \<exists>fu fd. p = view fu fd (mk_pair s) \<and>
           channel hash keyed secret N c v fu (mk_up s) (mk_up_log s) \<and>
           channel hash keyed secret N v c fd (mk_down s) (mk_down_log s))"

lemma relatedI:
  "p = view fu fd (mk_pair s) \<Longrightarrow>
   channel hash keyed secret N (rs_ob (wp_client (mk_pair s))) (rs_ob (wp_server (mk_pair s))) fu (mk_up s) (mk_up_log s) \<Longrightarrow>
   channel hash keyed secret N (rs_ob (wp_server (mk_pair s))) (rs_ob (wp_client (mk_pair s))) fd (mk_down s) (mk_down_log s) \<Longrightarrow>
   related hash keyed secret N s p"
  unfolding related_def Let_def by blast

lemma relatedE:
  assumes "related hash keyed secret N s p"
  obtains fu fd where "p = view fu fd (mk_pair s)"
    "channel hash keyed secret N (rs_ob (wp_client (mk_pair s))) (rs_ob (wp_server (mk_pair s))) fu (mk_up s) (mk_up_log s)"
    "channel hash keyed secret N (rs_ob (wp_server (mk_pair s))) (rs_ob (wp_client (mk_pair s))) fd (mk_down s) (mk_down_log s)"
  using assms unfolding related_def Let_def by blast

lemma related_init: "related hash keyed secret 0 (masked_init hash secret) pair_init"
  using channel_fresh [of hash keyed secret]
  by (intro relatedI [of _ "[]" "[]"])
    (simp_all add: masked_init_def view_def pair_init_def loop_state_def plain_def)

lemma related_mono: "related hash keyed secret M s p \<Longrightarrow> M \<le> N \<Longrightarrow> related hash keyed secret N s p"
  unfolding related_def Let_def using channel_mono by blast

text \<open>A command is the same turn on both sides.\<close>

lemma turn_related:
  assumes r: "related hash keyed secret N s p" and a: "a \<noteq> To_server" "a \<noteq> To_client"
    and free: "loop_free (queue_of a (mk_pair s))"
  shows "rel_option (related hash keyed secret N) (masked_step cap hash keyed auth (Turn a) s) (pair_step hash keyed auth a p)"
proof -
  from r obtain fu fd where p: "p = view fu fd (mk_pair s)" and c:
    "channel hash keyed secret N (rs_ob (wp_client (mk_pair s))) (rs_ob (wp_server (mk_pair s))) fu (mk_up s) (mk_up_log s)"
    "channel hash keyed secret N (rs_ob (wp_server (mk_pair s))) (rs_ob (wp_client (mk_pair s))) fd (mk_down s) (mk_down_log s)"
    by (rule relatedE)
  have "related hash keyed secret N (s\<lparr>mk_pair := q\<rparr>) (view fu fd q)" if "pair_step hash keyed auth a (mk_pair s) = Some q" for q
    using pair_step_obfuscators [OF a that] c by (intro relatedI [of _ fu fd]) simp_all
  with a free show ?thesis
    unfolding p pair_step_view [OF a] by (cases "pair_step hash keyed auth a (mk_pair s)") simp_all
qed

text \<open>The writers do not show.\<close>

lemma client_writes_related:
  assumes b: "blake3_lengths hash keyed" and r: "related hash keyed secret N s p"
    and salt: "length salt = SALT_LEN" and q: "wp_up (mk_pair s) = f # fs" and room: "length (mk_up s) < cap"
  obtains raw s' where "masked_step cap hash keyed auth (Client_writes salt) s = Some s'" "related hash keyed secret (Suc N) s' p"
    "mk_up s' = mk_up s @ [raw]"
proof -
  let ?c = "rs_ob (wp_client (mk_pair s))" and ?v = "rs_ob (wp_server (mk_pair s))"
  from r obtain fu fd where p: "p = view fu fd (mk_pair s)"
    and up: "channel hash keyed secret N ?c ?v fu (mk_up s) (mk_up_log s)"
    and down: "channel hash keyed secret N ?v ?c fd (mk_down s) (mk_down_log s)" by (rule relatedE)
  obtain raw ob where w: "write_next hash keyed salt ?c f = Some (raw, ob)"
    "channel hash keyed secret (Suc N) ob ?v (fu @ [f]) (mk_up s @ [raw]) (mk_up_log s)"
    "channel hash keyed secret N ?v ob fd (mk_down s) (mk_down_log s)"
    by (rule channel_write [OF b up salt, of f]) (use down in blast)
  let ?s = "s\<lparr>mk_pair := (mk_pair s)\<lparr>wp_up := fs, wp_client := (wp_client (mk_pair s))\<lparr>rs_ob := ob\<rparr>\<rparr>, mk_up := mk_up s @ [raw]\<rparr>"
  show thesis
  proof (rule that [of ?s raw])
    show "related hash keyed secret (Suc N) ?s p"
      using w(2) channel_mono [OF w(3), of "Suc N"]
      by (intro relatedI [of _ "fu @ [f]" fd]) (simp_all add: p view_def q)
  qed (simp_all add: q room w(1) Let_def)
qed

lemma server_writes_related:
  assumes b: "blake3_lengths hash keyed" and r: "related hash keyed secret N s p"
    and salt: "length salt = SALT_LEN" and q: "wp_down (mk_pair s) = f # fs" and room: "length (mk_down s) < cap"
  obtains raw s' where "masked_step cap hash keyed auth (Server_writes salt) s = Some s'" "related hash keyed secret (Suc N) s' p"
    "mk_down s' = mk_down s @ [raw]"
proof -
  let ?c = "rs_ob (wp_client (mk_pair s))" and ?v = "rs_ob (wp_server (mk_pair s))"
  from r obtain fu fd where p: "p = view fu fd (mk_pair s)"
    and up: "channel hash keyed secret N ?c ?v fu (mk_up s) (mk_up_log s)"
    and down: "channel hash keyed secret N ?v ?c fd (mk_down s) (mk_down_log s)" by (rule relatedE)
  obtain raw ob where w: "write_next hash keyed salt ?v f = Some (raw, ob)"
    "channel hash keyed secret (Suc N) ob ?c (fd @ [f]) (mk_down s @ [raw]) (mk_down_log s)"
    "channel hash keyed secret N ?c ob fu (mk_up s) (mk_up_log s)"
    by (rule channel_write [OF b down salt, of f]) (use up in blast)
  let ?s = "s\<lparr>mk_pair := (mk_pair s)\<lparr>wp_down := fs, wp_server := (wp_server (mk_pair s))\<lparr>rs_ob := ob\<rparr>\<rparr>, mk_down := mk_down s @ [raw]\<rparr>"
  show thesis
  proof (rule that [of ?s raw])
    show "related hash keyed secret (Suc N) ?s p"
      using w(2) channel_mono [OF w(3), of "Suc N"]
      by (intro relatedI [of _ fu "fd @ [f]"]) (simp_all add: p view_def q)
  qed (simp_all add: q room w(1) Let_def)
qed

text \<open>A message that arrives is the delivery of its frame.\<close>

lemma server_reads_related:
  assumes b: "blake3_lengths hash keyed" and r: "related hash keyed secret N s p"
    and N: "N \<le> 2 ^ 64" and q: "mk_up s = raw # raws" and free: "loop_free (wp_down (mk_pair s))"
  shows "rel_option (related hash keyed secret N) (masked_step cap hash keyed auth Server_reads s) (pair_step hash keyed auth To_server p)"
proof -
  let ?q = "mk_pair s"
  let ?c = "rs_ob (wp_client ?q)" and ?v = "rs_ob (wp_server ?q)"
  from r obtain fu fd where p: "p = view fu fd ?q"
    and up: "channel hash keyed secret N ?c ?v fu (mk_up s) (mk_up_log s)"
    and down: "channel hash keyed secret N ?v ?c fd (mk_down s) (mk_down_log s)" by (rule relatedE)
  obtain f fu' ob where w: "fu = f # fu'"
    "inbound_message hash keyed (rs_metrics (wp_server ?q)) ?v raw = Ok (InFrame (encode_frame [] f), rs_metrics (wp_server ?q), ob)"
    "channel hash keyed secret N ?c ob fu' raws (mk_up_log s @ [raw])"
    "channel hash keyed secret N ob ?c fd (mk_down s) (mk_down_log s)"
    by (rule channel_read [OF b up [unfolded q] N, of "rs_metrics (wp_server ?q)"]) (use down in blast)
  have v: "p\<lparr>wp_up := fu' @ wp_up ?q\<rparr> = view fu' fd ?q" "wp_up p = f # fu' @ wp_up ?q"
    by (simp_all add: p view_def w(1))
  note a = arrival_view [OF w(2)]
  have "related hash keyed secret N (s\<lparr>mk_pair := q', mk_up := raws, mk_up_log := mk_up_log s @ [raw]\<rparr>) (view fu' fd q')"
    if "server_turn hash keyed auth (Incoming (Some (Binary raw))) ?q = Some q'" for q'
    using a(2) [OF that] w(3,4) by (intro relatedI [of _ fu' fd]) simp_all
  with q v free a(1) [of auth fu' fd] show ?thesis
    by (cases "server_turn hash keyed auth (Incoming (Some (Binary raw))) ?q") simp_all
qed

lemma client_reads_related:
  assumes b: "blake3_lengths hash keyed" and r: "related hash keyed secret N s p"
    and N: "N \<le> 2 ^ 64" and q: "mk_down s = raw # raws" and free: "loop_free (wp_up (mk_pair s))"
  shows "rel_option (related hash keyed secret N) (masked_step cap hash keyed auth Client_reads s) (pair_step hash keyed auth To_client p)"
proof -
  let ?q = "mk_pair s"
  let ?c = "rs_ob (wp_client ?q)" and ?v = "rs_ob (wp_server ?q)"
  from r obtain fu fd where p: "p = view fu fd ?q"
    and up: "channel hash keyed secret N ?c ?v fu (mk_up s) (mk_up_log s)"
    and down: "channel hash keyed secret N ?v ?c fd (mk_down s) (mk_down_log s)" by (rule relatedE)
  obtain f fd' ob where w: "fd = f # fd'"
    "inbound_message hash keyed (rs_metrics (wp_client ?q)) ?c raw = Ok (InFrame (encode_frame [] f), rs_metrics (wp_client ?q), ob)"
    "channel hash keyed secret N ?v ob fd' raws (mk_down_log s @ [raw])"
    "channel hash keyed secret N ob ?v fu (mk_up s) (mk_up_log s)"
    by (rule channel_read [OF b down [unfolded q] N, of "rs_metrics (wp_client ?q)"]) (use up in blast)
  have v: "p\<lparr>wp_down := fd' @ wp_down ?q\<rparr> = view fu fd' ?q" "wp_down p = f # fd' @ wp_down ?q"
    by (simp_all add: p view_def w(1))
  note a = arrival_at_client_view [OF w(2)]
  have "related hash keyed secret N (s\<lparr>mk_pair := q', mk_down := raws, mk_down_log := mk_down_log s @ [raw]\<rparr>) (view fu fd' q')"
    if "client_turn hash keyed (Incoming (Some (Binary raw))) ?q = Some q'" for q'
    using a(2) [OF that] w(3,4) by (intro relatedI [of _ fu fd']) simp_all
  with q v free a(1) [of fu fd'] show ?thesis
    by (cases "client_turn hash keyed (Incoming (Some (Binary raw))) ?q") simp_all
qed

text \<open>A message sent again is dropped and changes nothing but a counter.\<close>

lemma replay_related:
  assumes b: "blake3_lengths hash keyed" and r: "related hash keyed (Some key) N s p"
  shows "i < length (mk_up_log s) \<Longrightarrow> loop_free (wp_down (mk_pair s)) \<Longrightarrow>
      \<exists>s'. masked_step cap hash keyed auth (Replay_to_server i) s = Some s' \<and> related hash keyed (Some key) N s' p"
    "i < length (mk_down_log s) \<Longrightarrow> loop_free (wp_up (mk_pair s)) \<Longrightarrow>
      \<exists>s'. masked_step cap hash keyed auth (Replay_to_client i) s = Some s' \<and> related hash keyed (Some key) N s' p"
proof -
  let ?q = "mk_pair s"
  let ?c = "rs_ob (wp_client ?q)" and ?v = "rs_ob (wp_server ?q)"
  from r obtain fu fd where p: "p = view fu fd ?q"
    and up: "channel hash keyed (Some key) N ?c ?v fu (mk_up s) (mk_up_log s)"
    and down: "channel hash keyed (Some key) N ?v ?c fd (mk_down s) (mk_down_log s)" by (rule relatedE)
  have same: "related hash keyed (Some key) N (s\<lparr>mk_pair := q'\<rparr>) p"
    if "view fu fd q' = view fu fd ?q" "rs_ob (wp_client q') = ?c" "rs_ob (wp_server q') = ?v" for q'
    using that up down by (intro relatedI [of _ fu fd]) (simp_all add: p)
  show "\<exists>s'. masked_step cap hash keyed auth (Replay_to_server i) s = Some s' \<and> related hash keyed (Some key) N s' p"
    if i: "i < length (mk_up_log s)" and free: "loop_free (wp_down (mk_pair s))"
  proof -
    obtain m' where "inbound_message hash keyed (rs_metrics (wp_server ?q)) ?v (mk_up_log s ! i) = Ok (InDrop, m', ?v)"
      by (rule channel_again [OF b up nth_mem [OF i]])
    from dropped_view(1) [OF this, of auth fu fd] same i free show ?thesis by auto
  qed
  show "\<exists>s'. masked_step cap hash keyed auth (Replay_to_client i) s = Some s' \<and> related hash keyed (Some key) N s' p"
    if i: "i < length (mk_down_log s)" and free: "loop_free (wp_up (mk_pair s))"
  proof -
    obtain m' where "inbound_message hash keyed (rs_metrics (wp_client ?q)) ?c (mk_down_log s ! i) = Ok (InDrop, m', ?c)"
      by (rule channel_again [OF b down nth_mem [OF i]])
    from dropped_view(2) [OF this, of fu fd] same i free show ?thesis by auto
  qed
qed

text \<open>Salts have their length, and without obfuscation nobody sends messages again.\<close>

fun masked_ok :: "bytes option \<Rightarrow> masked_action \<Rightarrow> bool" where
  "masked_ok secret (Turn a) \<longleftrightarrow> action_ok a"
| "masked_ok secret (Client_writes salt) \<longleftrightarrow> length salt = SALT_LEN"
| "masked_ok secret (Server_writes salt) \<longleftrightarrow> length salt = SALT_LEN"
| "masked_ok secret (Replay_to_server i) \<longleftrightarrow> secret \<noteq> None"
| "masked_ok secret (Replay_to_client i) \<longleftrightarrow> secret \<noteq> None"
| "masked_ok secret _ \<longleftrightarrow> True"

lemma masked_step_related:
  assumes b: "blake3_lengths hash keyed" and r: "related hash keyed secret N s p" and N: "N < 2 ^ 64"
    and ok: "masked_ok secret act" and s': "masked_step cap hash keyed auth act s = Some s'"
  obtains acts p' where "pair_run hash keyed auth acts p = Some p'" "related hash keyed secret (Suc N) s' p'"
    "length acts \<le> 1" "\<forall>a \<in> set acts. action_ok a" "set acts \<subseteq> {To_server, To_client} \<union> {a. act = Turn a}"
proof -
  note result = that
  have one: thesis if "rel_option (related hash keyed secret N) (masked_step cap hash keyed auth act s) (pair_step hash keyed auth a p)"
    "action_ok a" "a \<in> {To_server, To_client} \<union> {a. act = Turn a}" for a
    using that s' related_mono [of hash keyed secret N s' _ "Suc N"] that(2)
    by (cases "pair_step hash keyed auth a p") (auto intro: result [of "[a]"] simp del: pair_step.simps masked_step.simps)
  have none: thesis if "related hash keyed secret (Suc N) s' p"
    by (rule result [of "[]"]) (use that in simp_all)
  show thesis
  proof (cases act)
    case (Turn a)
    with s' have a: "a \<noteq> To_server" "a \<noteq> To_client" "loop_free (queue_of a (mk_pair s))" by (auto split: if_splits)
    from one [of a] turn_related [OF r a, of cap auth] ok Turn show thesis by simp
  next
    case (Client_writes salt)
    with s' obtain f fs where q: "wp_up (mk_pair s) = f # fs" "length (mk_up s) < cap"
      by (auto simp: Let_def split: list.splits if_splits)
    show thesis
      by (rule client_writes_related [OF b r _ q, of salt auth])
        (use ok s' Client_writes none in \<open>simp_all del: masked_step.simps\<close>)
  next
    case (Server_writes salt)
    with s' obtain f fs where q: "wp_down (mk_pair s) = f # fs" "length (mk_down s) < cap"
      by (auto simp: Let_def split: list.splits if_splits)
    show thesis
      by (rule server_writes_related [OF b r _ q, of salt auth])
        (use ok s' Server_writes none in \<open>simp_all del: masked_step.simps\<close>)
  next
    case Server_reads
    with s' obtain raw raws where q: "mk_up s = raw # raws" "loop_free (wp_down (mk_pair s))"
      by (auto split: list.splits if_splits)
    from one [of To_server] server_reads_related [OF b r _ q, of cap auth] N Server_reads show thesis by simp
  next
    case Client_reads
    with s' obtain raw raws where q: "mk_down s = raw # raws" "loop_free (wp_up (mk_pair s))"
      by (auto split: list.splits if_splits)
    from one [of To_client] client_reads_related [OF b r _ q, of cap auth] N Client_reads show thesis by simp
  next
    case (Replay_to_server i)
    with s' ok obtain key where i: "i < length (mk_up_log s)" "loop_free (wp_down (mk_pair s))" "secret = Some key"
      by (auto split: if_splits)
    from replay_related(1) [OF b r [unfolded i(3)] i(1,2), of cap auth] s' Replay_to_server
    have "related hash keyed secret N s' p" by (simp add: i(3) del: masked_step.simps)
    then show thesis using related_mono none by (metis le_SucI order_refl)
  next
    case (Replay_to_client i)
    with s' ok obtain key where i: "i < length (mk_down_log s)" "loop_free (wp_up (mk_pair s))" "secret = Some key"
      by (auto split: if_splits)
    from replay_related(2) [OF b r [unfolded i(3)] i(1,2), of cap auth] s' Replay_to_client
    have "related hash keyed secret N s' p" by (simp add: i(3) del: masked_step.simps)
    then show thesis using related_mono none by (metis le_SucI order_refl)
  qed
qed

lemma masked_run_related:
  assumes b: "blake3_lengths hash keyed"
  shows "related hash keyed secret N s p \<Longrightarrow> N + length acts < 2 ^ 64 \<Longrightarrow> \<forall>act \<in> set acts. masked_ok secret act \<Longrightarrow>
    masked_run cap hash keyed auth acts s = Some s' \<Longrightarrow>
    \<exists>pacts p'. pair_run hash keyed auth pacts p = Some p' \<and> related hash keyed secret (N + length acts) s' p' \<and>
      length pacts \<le> length acts \<and> (\<forall>a \<in> set pacts. action_ok a) \<and>
      set pacts \<subseteq> {To_server, To_client} \<union> {a. Turn a \<in> set acts}"
proof (induction acts arbitrary: N s p)
  case Nil
  then show ?case by (intro exI [of _ "[]"] exI [of _ p]) simp
next
  case (Cons act acts)
  from Cons.prems(4) obtain s1 where 1: "masked_step cap hash keyed auth act s = Some s1"
    "masked_run cap hash keyed auth acts s1 = Some s'" by (auto split: bind_splits)
  obtain pacts1 p1 where 2: "pair_run hash keyed auth pacts1 p = Some p1" "related hash keyed secret (Suc N) s1 p1"
    "length pacts1 \<le> 1" "\<forall>a \<in> set pacts1. action_ok a" "set pacts1 \<subseteq> {To_server, To_client} \<union> {a. act = Turn a}"
    by (rule masked_step_related [OF b Cons.prems(1) _ _ 1(1)]) (use Cons.prems in simp_all)
  from Cons.IH [OF 2(2) _ _ 1(2)] Cons.prems obtain pacts2 p' where "pair_run hash keyed auth pacts2 p1 = Some p'"
    "related hash keyed secret (Suc N + length acts) s' p'" "length pacts2 \<le> length acts" "\<forall>a \<in> set pacts2. action_ok a"
    "set pacts2 \<subseteq> {To_server, To_client} \<union> {a. Turn a \<in> set acts}" by auto
  with 2 show ?case
    by (intro exI [of _ "pacts1 @ pacts2"] exI [of _ p']) (auto simp: pair_run_append)
qed

end
