(* ===== verification/Ws_Progress.thy ===== *)
theory Ws_Progress
  imports Ws_Masked
begin

section \<open>What the two ends agree on, and when they get on\<close>

text \<open>
  The properties of the system of \<open>Ws_Masked\<close>. Its queues keep their bounds, and as long as the ends are
  not jammed there is an action that brings a frame further and does not jam them. So what is on the way
  arrives, the server can answer what it was asked, and only a jam keeps a caller waiting.
\<close>

subsection \<open>Queues and wires\<close>

text \<open>A turn sends at most one frame.\<close>

lemma sends_one:
  "handle_auth_request auth up v conn f = (res, effs, v', conn') \<Longrightarrow> length (sent_frames effs) \<le> 1"
  "handle_auth_response v conn f = (res, effs, v', conn') \<Longrightarrow> length (sent_frames effs) \<le> 1"
  "handle_open_stream up v conn f = (res, effs, v', conn') \<Longrightarrow> length (sent_frames effs) \<le> 1"
  "handle_open_stream_ack v conn f = (res, effs, v', conn') \<Longrightarrow> length (sent_frames effs) \<le> 1"
  "handle_stream_data v conn f = (res, effs, v', conn') \<Longrightarrow> length (sent_frames effs) \<le> 1"
  "handle_stream_credit v conn f = (res, effs, v', conn') \<Longrightarrow> length (sent_frames effs) \<le> 1"
  "handle_stream_close v conn f = (res, effs, v', conn') \<Longrightarrow> length (sent_frames effs) \<le> 1"
  "handle_datagram_frame v conn f = (res, effs, v', conn') \<Longrightarrow> length (sent_frames effs) \<le> 1"
  by (auto simp: handle_auth_request_def handle_auth_response_def handle_open_stream_def handle_open_stream_ack_def
      handle_stream_data_def handle_stream_credit_def handle_stream_close_def handle_datagram_frame_def
      register_auth_def send_auth_response_def start_relay_def on_result_def queue_frame_def Let_def
      split: option.splits sum.splits failure.splits if_splits prod.splits)

lemma dispatch_sends_one:
  "dispatch_frame auth up v conn f = (res, effs, v', conn') \<Longrightarrow> length (sent_frames effs) \<le> 1"
  by (auto simp: dispatch_frame_def queue_frame_def Let_def split: if_splits dest: sends_one)

lemma handle_sends_one:
  "handle_frame auth up v conn raw = (res, effs, v', conn') \<Longrightarrow> length (sent_frames effs) \<le> 1"
  by (auto simp: handle_frame_def split: sum.splits prod.splits dest: dispatch_sends_one)

lemma incoming_sends_one:
  assumes "run_incoming hash keyed auth up raw st = Inr (go, effs, st')"
  shows "length (sent_frames effs) \<le> 1"
proof -
  from assms obtain inb m ob where "inbound_message hash keyed (rs_metrics st) (rs_ob st) raw = Ok (inb, m, ob)"
    by (auto simp: run_incoming_def)
  with assms show ?thesis
    by (cases inb) (auto simp: run_incoming_def Let_def split: sum.splits prod.splits failure.splits dest: handle_sends_one)
qed

lemma command_sends_one: "run_command up cmd st = Inr (go, effs, st') \<Longrightarrow> length (sent_frames effs) \<le> 1"
  by (auto simp: run_command_def run_queue_def start_relay_def Let_def split: ws_cmd.splits if_splits)

lemma step_sends_one: "run_step hash keyed auth up room inp st = Inr (go, effs, st') \<Longrightarrow> length (sent_frames effs) \<le> 1"
  by (auto simp: run_step_def run_queue_def split: run_input.splits option.splits ws_message.splits if_splits
      dest: command_sends_one incoming_sends_one)

lemma turn_sends_one:
  "client_turn hash keyed inp p = Some p' \<Longrightarrow>
     length (wp_up p') \<le> Suc (length (wp_up p)) \<and> wp_down p' = wp_down p"
  "server_turn hash keyed auth inp p = Some p' \<Longrightarrow>
     length (wp_down p') \<le> Suc (length (wp_down p)) \<and> wp_up p' = wp_up p"
  by (auto simp: client_turn_def server_turn_def split: sum.splits prod.splits bool.splits dest: step_sends_one)

text \<open>Queues and wires keep within their bounds.\<close>

definition within :: "nat \<Rightarrow> masked \<Rightarrow> bool" where
  "within cap s \<longleftrightarrow>
     length (wp_up (mk_pair s)) \<le> Suc OUTBOUND_QUEUE \<and> length (wp_down (mk_pair s)) \<le> Suc OUTBOUND_QUEUE \<and>
     length (mk_up s) \<le> cap \<and> length (mk_down s) \<le> cap"

lemma within_init: "within cap (masked_init hash secret)"
  by (simp add: within_def masked_init_def pair_init_def)

lemma pair_step_within:
  assumes "a \<noteq> To_server" "a \<noteq> To_client" "loop_free (queue_of a p)" "pair_step hash keyed auth a p = Some p'"
    and "length (wp_up p) \<le> Suc OUTBOUND_QUEUE" "length (wp_down p) \<le> Suc OUTBOUND_QUEUE"
  shows "length (wp_up p') \<le> Suc OUTBOUND_QUEUE \<and> length (wp_down p') \<le> Suc OUTBOUND_QUEUE"
  using assms
  by (cases a) (auto simp: ws_open_stream_def loop_free_def Let_def split: if_splits dest!: turn_sends_one)

lemma masked_step_within:
  assumes "within cap s" "masked_step cap hash keyed auth act s = Some s'"
  shows "within cap s'"
proof (cases act)
  case (Turn a)
  with assms show ?thesis
    by (auto simp: within_def split: if_splits dest: pair_step_within simp del: pair_step.simps)
qed (use assms in \<open>auto simp: within_def loop_free_def Let_def split: list.splits if_splits dest!: turn_sends_one\<close>)

lemma masked_run_within:
  "within cap s \<Longrightarrow> masked_run cap hash keyed auth acts s = Some s' \<Longrightarrow> within cap s'"
  by (induction acts arbitrary: s) (auto split: bind_splits dest: masked_step_within simp del: masked_step.simps)

text \<open>
  The jam: both loops wait for their writers and both writers for the wires. Nothing can happen any
  more.
\<close>

definition jam :: "nat \<Rightarrow> masked \<Rightarrow> bool" where
  "jam cap s \<longleftrightarrow>
     \<not> loop_free (wp_up (mk_pair s)) \<and> \<not> loop_free (wp_down (mk_pair s)) \<and>
     cap \<le> length (mk_up s) \<and> cap \<le> length (mk_down s)"

lemma jam_stuck: "jam cap s \<Longrightarrow> masked_step cap hash keyed auth act s = None"
proof (cases act)
  case (Turn a)
  assume "jam cap s"
  then have "\<not> loop_free (queue_of a (mk_pair s))" by (cases a) (simp_all add: jam_def)
  with Turn show ?thesis by simp
qed (auto simp: jam_def Let_def split: list.splits)

text \<open>The histories, the queues and the wires of related states.\<close>

lemma related_histories:
  assumes "related hash keyed secret N s p"
  shows "wp_requested p = wp_requested (mk_pair s)" "wp_asked p = wp_asked (mk_pair s)"
    "wp_replied p = wp_replied (mk_pair s)" "wp_answered p = wp_answered (mk_pair s)"
    "mk_up s \<noteq> [] \<Longrightarrow> wp_up p \<noteq> []" "mk_down s \<noteq> [] \<Longrightarrow> wp_down p \<noteq> []"
    "settled p \<longleftrightarrow> settled (mk_pair s) \<and> mk_up s = [] \<and> mk_down s = []"
  by (rule relatedE [OF assms]; auto simp: view_def settled_def dest!: channel_length)+

text \<open>Nothing that arrives ends a loop.\<close>

lemma arrivals_accepted:
  assumes b: "blake3_lengths hash keyed" and r: "related hash keyed secret N s p" and N: "N \<le> 2 ^ 64" and p: "pair_inv n p"
  shows "mk_up s \<noteq> [] \<Longrightarrow> loop_free (wp_down (mk_pair s)) \<Longrightarrow> masked_step cap hash keyed auth Server_reads s \<noteq> None"
    "mk_down s \<noteq> [] \<Longrightarrow> loop_free (wp_up (mk_pair s)) \<Longrightarrow> masked_step cap hash keyed auth Client_reads s \<noteq> None"
proof -
  show "masked_step cap hash keyed auth Server_reads s \<noteq> None" if up: "mk_up s \<noteq> []" and free: "loop_free (wp_down (mk_pair s))"
  proof -
    from up obtain raw raws where q: "mk_up s = raw # raws" by (cases "mk_up s") simp_all
    from related_histories(5) [OF r up] obtain f fs where f: "wp_up p = f # fs" by (cases "wp_up p") simp_all
    obtain p' where "pair_step hash keyed auth To_server p = Some p'"
      by (rule to_server_inv [OF p f, of hash keyed auth])
    with server_reads_related [OF b r N q free, of cap auth] show ?thesis
      by (cases "masked_step cap hash keyed auth Server_reads s") (simp_all del: masked_step.simps pair_step.simps)
  qed
  show "masked_step cap hash keyed auth Client_reads s \<noteq> None" if down: "mk_down s \<noteq> []" and free: "loop_free (wp_up (mk_pair s))"
  proof -
    from down obtain raw raws where q: "mk_down s = raw # raws" by (cases "mk_down s") simp_all
    from related_histories(6) [OF r down] obtain f fs where f: "wp_down p = f # fs" by (cases "wp_down p") simp_all
    obtain p' where "pair_step hash keyed auth To_client p = Some p'"
      by (rule to_client_inv [OF p f, of hash keyed auth])
    with client_reads_related [OF b r N q free, of cap auth] show ?thesis
      by (cases "masked_step cap hash keyed auth Client_reads s") (simp_all del: masked_step.simps pair_step.simps)
  qed
qed

subsection \<open>Everything on the way arrives, but for a jam\<close>

text \<open>The writers, the loops that read, and the application of the server with the answers \<open>as\<close>.\<close>

definition helpful :: "bytes \<Rightarrow> pair_action set \<Rightarrow> masked_action set" where
  "helpful salt as = {Client_writes salt, Server_writes salt, Server_reads, Client_reads} \<union> Turn ` as"

text \<open>What is left to do, and a step that does some of it.\<close>

definition work :: "masked \<Rightarrow> ws_pair \<Rightarrow> nat" where
  "work s p = 2 * pair_weight p + length (wp_up (mk_pair s)) + length (wp_down (mk_pair s))"

definition advances ::
  "nat \<Rightarrow> hash_fn \<Rightarrow> keyed_hash_fn \<Rightarrow> unit validator option \<Rightarrow> bytes option \<Rightarrow> bytes \<Rightarrow> nat \<Rightarrow> nat \<Rightarrow>
     masked \<Rightarrow> ws_pair \<Rightarrow> masked \<Rightarrow> ws_pair \<Rightarrow> bool" where
  "advances cap hash keyed auth secret salt N n s p s' p' \<longleftrightarrow>
     (\<exists>act \<in> helpful salt {}. masked_step cap hash keyed auth act s = Some s') \<and>
     related hash keyed secret (Suc N) s' p' \<and> pair_inv n p' \<and> work s' p' < work s p \<and>
     wp_requested p' = wp_requested p \<and> wp_replied p' = wp_replied p"

lemma client_writes_advance:
  assumes "blake3_lengths hash keyed" "related hash keyed secret N s p" "pair_inv n p" "length salt = SALT_LEN"
    and q: "wp_up (mk_pair s) \<noteq> []" and room: "length (mk_up s) < cap"
  obtains s' where "advances cap hash keyed auth secret salt N n s p s' p"
    "length (wp_up (mk_pair s)) = Suc (length (wp_up (mk_pair s')))"
    "wp_down (mk_pair s') = wp_down (mk_pair s)" "mk_down s' = mk_down s"
proof -
  from q obtain f fs where f: "wp_up (mk_pair s) = f # fs" by (cases "wp_up (mk_pair s)") simp_all
  obtain s' where 1: "masked_step cap hash keyed auth (Client_writes salt) s = Some s'" "related hash keyed secret (Suc N) s' p"
    by (rule client_writes_related [OF assms(1,2,4) f room])
  then have 2: "wp_up (mk_pair s') = fs" "wp_down (mk_pair s') = wp_down (mk_pair s)" "mk_down s' = mk_down s"
    using f room by (auto simp: Let_def)
  then have "work s' p < work s p" using f by (simp add: work_def)
  with 1 assms(3) have "advances cap hash keyed auth secret salt N n s p s' p"
    by (auto simp: advances_def helpful_def simp del: masked_step.simps)
  then show thesis by (rule that) (simp_all add: 2 f)
qed

lemma server_writes_advance:
  assumes "blake3_lengths hash keyed" "related hash keyed secret N s p" "pair_inv n p" "length salt = SALT_LEN"
    and q: "wp_down (mk_pair s) \<noteq> []" and room: "length (mk_down s) < cap"
  obtains s' where "advances cap hash keyed auth secret salt N n s p s' p"
    "length (wp_down (mk_pair s)) = Suc (length (wp_down (mk_pair s')))"
    "wp_up (mk_pair s') = wp_up (mk_pair s)" "mk_up s' = mk_up s"
proof -
  from q obtain f fs where f: "wp_down (mk_pair s) = f # fs" by (cases "wp_down (mk_pair s)") simp_all
  obtain s' where 1: "masked_step cap hash keyed auth (Server_writes salt) s = Some s'" "related hash keyed secret (Suc N) s' p"
    by (rule server_writes_related [OF assms(1,2,4) f room])
  then have 2: "wp_down (mk_pair s') = fs" "wp_up (mk_pair s') = wp_up (mk_pair s)" "mk_up s' = mk_up s"
    using f room by (auto simp: Let_def)
  then have "work s' p < work s p" using f by (simp add: work_def)
  with 1 assms(3) have "advances cap hash keyed auth secret salt N n s p s' p"
    by (auto simp: advances_def helpful_def simp del: masked_step.simps)
  then show thesis by (rule that) (simp_all add: 2 f)
qed

lemma server_reads_advance:
  assumes "blake3_lengths hash keyed" "related hash keyed secret N s p" "pair_inv n p" "N \<le> 2 ^ 64"
    and q: "mk_up s \<noteq> []" and free: "loop_free (wp_down (mk_pair s))"
  obtains s' p' where "advances cap hash keyed auth secret salt N n s p s' p'"
    "length (mk_up s) = Suc (length (mk_up s'))"
proof -
  from q obtain raw raws where up: "mk_up s = raw # raws" by (cases "mk_up s") simp_all
  from related_histories(5) [OF assms(2) q] obtain f fs where f: "wp_up p = f # fs" by (cases "wp_up p") simp_all
  obtain p' where p': "pair_step hash keyed auth To_server p = Some p'" "pair_inv n p'" "pair_weight p' < pair_weight p"
    "wp_requested p' = wp_requested p" "wp_replied p' = wp_replied p"
    by (rule to_server_inv [OF assms(3) f])
  from server_reads_related [OF assms(1,2,4) up free, of cap auth] p'(1) obtain s' where
    1: "masked_step cap hash keyed auth Server_reads s = Some s'" "related hash keyed secret N s' p'"
    by (cases "masked_step cap hash keyed auth Server_reads s") (simp_all del: masked_step.simps pair_step.simps)
  from 1(1) have "mk_up s' = raws" "length (wp_down (mk_pair s')) \<le> Suc (length (wp_down (mk_pair s)))"
    "wp_up (mk_pair s') = wp_up (mk_pair s)"
    using up by (auto split: if_splits dest: turn_sends_one)
  with 1 p'(2-5) up related_mono [OF 1(2), of "Suc N"] show thesis
    by (intro that) (auto simp: advances_def helpful_def work_def simp del: masked_step.simps)
qed

lemma client_reads_advance:
  assumes "blake3_lengths hash keyed" "related hash keyed secret N s p" "pair_inv n p" "N \<le> 2 ^ 64"
    and q: "mk_down s \<noteq> []" and free: "loop_free (wp_up (mk_pair s))"
  obtains s' p' where "advances cap hash keyed auth secret salt N n s p s' p'"
    "length (mk_down s) = Suc (length (mk_down s'))"
proof -
  from q obtain raw raws where down: "mk_down s = raw # raws" by (cases "mk_down s") simp_all
  from related_histories(6) [OF assms(2) q] obtain f fs where f: "wp_down p = f # fs" by (cases "wp_down p") simp_all
  obtain p' where p': "pair_step hash keyed auth To_client p = Some p'" "pair_inv n p'" "pair_weight p' < pair_weight p"
    "wp_requested p' = wp_requested p" "wp_replied p' = wp_replied p"
    by (rule to_client_inv [OF assms(3) f])
  from client_reads_related [OF assms(1,2,4) down free, of cap auth] p'(1) obtain s' where
    1: "masked_step cap hash keyed auth Client_reads s = Some s'" "related hash keyed secret N s' p'"
    by (cases "masked_step cap hash keyed auth Client_reads s") (simp_all del: masked_step.simps pair_step.simps)
  from 1(1) have "mk_down s' = raws" "length (wp_up (mk_pair s')) \<le> Suc (length (wp_up (mk_pair s)))"
    "wp_down (mk_pair s') = wp_down (mk_pair s)"
    using down by (auto split: if_splits dest: turn_sends_one)
  with 1 p'(2-5) down related_mono [OF 1(2), of "Suc N"] show thesis
    by (intro that) (auto simp: advances_def helpful_def work_def simp del: masked_step.simps)
qed

text \<open>
  As long as something is on the way and the ends are not jammed, there is a step that does not jam
  them: a loop that is free reads, or lets the other end write; if none is free, a writer has room.
\<close>

lemma step_without_jam:
  assumes b: "blake3_lengths hash keyed" and r: "related hash keyed secret N s p" and inv: "pair_inv n p"
    and N: "N \<le> 2 ^ 64" and salt: "length salt = SALT_LEN" and w: "within cap s" and cap: "0 < cap"
    and nojam: "\<not> jam cap s" and busy: "\<not> settled p"
  shows "\<exists>s' p'. advances cap hash keyed auth secret salt N n s p s' p' \<and> \<not> jam cap s'"
proof -
  let ?up = "wp_up (mk_pair s)" and ?down = "wp_down (mk_pair s)"
  have bounds: "length (mk_up s) \<le> cap" "length (mk_down s) \<le> cap"
    "length ?up \<le> Suc OUTBOUND_QUEUE" "length ?down \<le> Suc OUTBOUND_QUEUE" using w by (simp_all add: within_def)
  note cw = client_writes_advance [OF b r inv salt, of cap auth] and sw = server_writes_advance [OF b r inv salt, of cap auth]
  note sr = server_reads_advance [OF b r inv N, of cap auth salt] and cr = client_reads_advance [OF b r inv N, of cap auth salt]
  have empty: "loop_free []" by (simp add: loop_free_def)
  have client: ?thesis if "loop_free ?up" "mk_down s \<noteq> []"
    by (rule cr [OF that(2,1)]) (use bounds(2) in \<open>force simp: jam_def\<close>)
  have server: ?thesis if "loop_free ?down" "mk_up s \<noteq> []"
    by (rule sr [OF that(2,1)]) (use bounds(1) in \<open>force simp: jam_def\<close>)
  have client_writer: ?thesis if "?up \<noteq> []" "length (mk_up s) < cap" "loop_free ?down \<or> \<not> loop_free ?up"
    by (rule cw [OF that(1,2)]) (use that(3) bounds(3) in \<open>force simp: jam_def loop_free_def\<close>)
  have server_writer: ?thesis if "?down \<noteq> []" "length (mk_down s) < cap" "loop_free ?up \<or> \<not> loop_free ?down"
    by (rule sw [OF that(1,2)]) (use that(3) bounds(4) in \<open>force simp: jam_def loop_free_def\<close>)
  have full: "\<not> loop_free fs \<Longrightarrow> fs \<noteq> []" for fs using empty by auto
  from busy have "?up \<noteq> [] \<or> ?down \<noteq> [] \<or> mk_up s \<noteq> [] \<or> mk_down s \<noteq> []"
    using related_histories(7) [OF r] by (auto simp: settled_def)
  with client server client_writer server_writer cap empty full nojam show ?thesis
    unfolding jam_def not_le [symmetric] by (metis list.size(3) not_le)
qed

lemma work_weight:
  assumes "related hash keyed secret N s p"
  shows "work s p \<le> 3 * pair_weight p"
proof -
  have "length fs \<le> wire_weight fs" for fs
    by (induction fs) (simp_all add: frame_weight_def)
  then have "length (wp_up p) + length (wp_down p) \<le> pair_weight p" unfolding pair_weight_def by (intro add_mono)
  moreover have "length (wp_up (mk_pair s)) \<le> length (wp_up p)" "length (wp_down (mk_pair s)) \<le> length (wp_down p)"
    by (rule relatedE [OF assms]; simp add: view_def)+
  ultimately show ?thesis by (simp add: work_def)
qed

lemma delivers_all:
  assumes b: "blake3_lengths hash keyed" and salt: "length salt = SALT_LEN" and cap: "0 < cap"
  shows "related hash keyed secret N s p \<Longrightarrow> pair_inv n p \<Longrightarrow> within cap s \<Longrightarrow> \<not> jam cap s \<Longrightarrow> N + work s p \<le> 2 ^ 64 \<Longrightarrow>
    \<exists>acts s' p'. set acts \<subseteq> helpful salt {} \<and> masked_run cap hash keyed auth acts s = Some s' \<and>
      related hash keyed secret (N + work s p) s' p' \<and> pair_inv n p' \<and> within cap s' \<and> settled p' \<and>
      wp_requested p' = wp_requested p \<and> wp_replied p' = wp_replied p"
proof (induction "work s p" arbitrary: N s p rule: less_induct)
  case less
  show ?case
  proof (cases "settled p")
    case True
    with less.prems related_mono [OF less.prems(1)] show ?thesis by (intro exI [of _ "[]"] exI [of _ s] exI [of _ p]) simp
  next
    case False
    have N: "N \<le> 2 ^ 64" using less.prems(5) by simp
    obtain s1 p1 where a: "advances cap hash keyed auth secret salt N n s p s1 p1" "\<not> jam cap s1"
      using step_without_jam [OF b less.prems(1,2) N salt less.prems(3) cap less.prems(4) False] by blast
    from a(1) obtain act where 1: "act \<in> helpful salt {}" "masked_step cap hash keyed auth act s = Some s1"
      "related hash keyed secret (Suc N) s1 p1" "pair_inv n p1" "work s1 p1 < work s p"
      "wp_requested p1 = wp_requested p" "wp_replied p1 = wp_replied p" by (auto simp: advances_def)
    have "Suc N + work s1 p1 \<le> 2 ^ 64" using 1(5) less.prems(5) by simp
    from less.hyps [OF 1(5,3,4) masked_step_within [OF less.prems(3) 1(2)] a(2) this] obtain acts s' p' where
      2: "set acts \<subseteq> helpful salt {}" "masked_run cap hash keyed auth acts s1 = Some s'"
      "related hash keyed secret (Suc N + work s1 p1) s' p'" "pair_inv n p'" "within cap s'" "settled p'"
      "wp_requested p' = wp_requested p" "wp_replied p' = wp_replied p" by (auto simp: 1(6,7))
    have "related hash keyed secret (N + work s p) s' p'" by (rule related_mono [OF 2(3)]) (use 1(5) in simp)
    with 1(1,2) 2 show ?thesis
      by (intro exI [of _ "act # acts"] exI [of _ s'] exI [of _ p']) (simp del: masked_step.simps)
  qed
qed

text \<open>With nothing on the way the ends are not jammed, and the server can answer one more stream.\<close>

lemma settled_quiet:
  assumes "related hash keyed secret N s p" "settled p" "0 < cap"
  shows "\<not> jam cap s" "work s p = 0" "loop_free (wp_down (mk_pair s))"
  using related_histories(7) [OF assms(1)] assms(2,3)
  by (simp_all add: jam_def work_def settled_def pair_weight_def loop_free_def)

lemma answers_one:
  assumes b: "blake3_lengths hash keyed" and salt: "length salt = SALT_LEN" and cap: "0 < cap"
    and r: "related hash keyed secret N s p" and inv: "pair_inv n p" "n < 2 ^ 62" and w: "within cap s" and quiet: "settled p"
    and sid: "sid \<in> ids (wp_asked p)" "sid \<notin> ids (wp_replied p)" and N: "N + 3 \<le> 2 ^ 64"
  obtains acts s' p' where "set acts \<subseteq> helpful salt (range refusal)" "masked_run cap hash keyed auth acts s = Some s'"
    "related hash keyed secret (N + 3) s' p'" "pair_inv n p'" "within cap s'" "settled p'"
    "wp_requested p' = wp_requested p" "ids (wp_replied p') = insert sid (ids (wp_replied p))"
proof -
  have a: "refusal sid \<noteq> To_server" "refusal sid \<noteq> To_client" by (simp_all add: refusal_def)
  have free: "loop_free (queue_of (refusal sid) (mk_pair s))"
    using settled_quiet(3) [OF r quiet cap] by (simp add: refusal_def)
  obtain p1 where 1: "pair_step hash keyed auth (refusal sid) p = Some p1" "pair_inv n p1"
    by (rule replies_inv [OF inv action_ok_refusal [unfolded refusal_def] sid, of hash keyed auth])
      (simp add: refusal_def del: pair_step.simps)
  from 1(1) sid have same: "wp_requested p1 = wp_requested p" "ids (wp_replied p1) = insert sid (ids (wp_replied p))"
    "pair_weight p1 = Suc (pair_weight p)" "length (wp_down p1) = Suc (length (wp_down p))" "wp_up p1 = wp_up p"
    by (auto simp: refusal_def server_turn_def run_step_def run_command_def start_relay_def pair_weight_def frame_weight_def frame_new_def
        code_consts Let_def split: if_splits)
  from turn_related [OF r a free, of cap auth] 1(1) obtain s1 where
    2: "masked_step cap hash keyed auth (Turn (refusal sid)) s = Some s1" "related hash keyed secret N s1 p1"
    by (cases "masked_step cap hash keyed auth (Turn (refusal sid)) s") (simp_all del: masked_step.simps pair_step.simps)
  have lens: "length (wp_up (mk_pair s1)) \<le> length (wp_up p1)" "length (wp_down (mk_pair s1)) \<le> length (wp_down p1)"
    by (rule relatedE [OF 2(2)]; simp add: view_def)+
  then have up: "wp_up (mk_pair s1) = []" using quiet by (simp add: same settled_def)
  then have "\<not> jam cap s1" by (simp add: jam_def loop_free_def)
  moreover have "pair_weight p = 0" using quiet by (simp add: settled_def pair_weight_def)
  then have "work s1 p1 \<le> 3"
    using lens quiet by (simp add: work_def same settled_def)
  then have le: "N + work s1 p1 \<le> 2 ^ 64" "N + work s1 p1 \<le> N + 3" using N by simp_all
  ultimately obtain acts s' p' where 3: "set acts \<subseteq> helpful salt {}" "masked_run cap hash keyed auth acts s1 = Some s'"
    "related hash keyed secret (N + work s1 p1) s' p'" "pair_inv n p'" "within cap s'" "settled p'"
    "wp_requested p' = wp_requested p1" "wp_replied p' = wp_replied p1"
    using delivers_all [OF b salt cap 2(2) 1(2) masked_step_within [OF w 2(1)], of auth] by blast
  show thesis
    by (rule that [of "Turn (refusal sid) # acts" s' p', OF _ _ related_mono [OF 3(3) le(2)] 3(4-6)])
      (use 2(1) 3 in \<open>auto simp: same helpful_def simp del: masked_step.simps\<close>)
qed

lemma answers_all:
  assumes b: "blake3_lengths hash keyed" and salt: "length salt = SALT_LEN" and cap: "0 < cap" and n: "n < 2 ^ 62"
  shows "related hash keyed secret N s p \<Longrightarrow> pair_inv n p \<Longrightarrow> within cap s \<Longrightarrow> settled p \<Longrightarrow>
    card (ids (wp_requested p) - ids (wp_replied p)) = k \<Longrightarrow> N + 3 * k \<le> 2 ^ 64 \<Longrightarrow>
    \<exists>acts s' p'. set acts \<subseteq> helpful salt (range refusal) \<and> masked_run cap hash keyed auth acts s = Some s' \<and>
      related hash keyed secret (N + 3 * k) s' p' \<and> settled p' \<and>
      wp_requested p' = wp_requested p \<and> ids (wp_answered p') = ids (wp_requested p)"
proof (induction k arbitrary: N s p)
  case 0
  have "finite (ids (wp_requested p))" by (simp add: ids_def)
  with 0 have "ids (wp_requested p) \<subseteq> ids (wp_replied p)" by simp
  with 0 have "ids (wp_answered p) = ids (wp_requested p)" by (auto simp: pair_inv_def history_ok_def settled_def)
  with 0 show ?case by (intro exI [of _ "[]"] exI [of _ s] exI [of _ p]) simp
next
  case (Suc k)
  from Suc.prems(5) have "card (ids (wp_requested p) - ids (wp_replied p)) \<noteq> 0" by simp
  then obtain sid where sid: "sid \<in> ids (wp_requested p)" "sid \<notin> ids (wp_replied p)"
    by (metis Diff_iff card.empty ex_in_conv)
  have asked: "ids (wp_asked p) = ids (wp_requested p)" using Suc.prems(2,4) by (simp add: pair_inv_def history_ok_def settled_def)
  have N: "N + 3 \<le> 2 ^ 64" using Suc.prems(6) by simp
  obtain acts1 s1 p1 where 1: "set acts1 \<subseteq> helpful salt (range refusal)" "masked_run cap hash keyed auth acts1 s = Some s1"
    "related hash keyed secret (N + 3) s1 p1" "pair_inv n p1" "within cap s1" "settled p1"
    "wp_requested p1 = wp_requested p" "ids (wp_replied p1) = insert sid (ids (wp_replied p))"
    by (rule answers_one [OF b salt cap Suc.prems(1,2) n Suc.prems(3,4) sid(1) [folded asked] sid(2) N])
  have "ids (wp_requested p1) - ids (wp_replied p1) = (ids (wp_requested p) - ids (wp_replied p)) - {sid}"
    by (auto simp: 1(7,8))
  with Suc.prems(5) sid have "card (ids (wp_requested p1) - ids (wp_replied p1)) = k" by (simp add: card_Diff_singleton_if)
  from Suc.IH [OF 1(3-6) this] Suc.prems(6) obtain acts2 s' p' where "set acts2 \<subseteq> helpful salt (range refusal)"
    "masked_run cap hash keyed auth acts2 s1 = Some s'" "related hash keyed secret (N + 3 + 3 * k) s' p'" "settled p'"
    "wp_requested p' = wp_requested p" "ids (wp_answered p') = ids (wp_requested p)" by (auto simp: 1(7))
  with 1(1,2) show ?case
    by (intro exI [of _ "acts1 @ acts2"] exI [of _ s'] exI [of _ p']) (simp add: masked_run_append algebra_simps)
qed

subsection \<open>Whole runs\<close>

text \<open>A run of the masked pair is a run of the plain one.\<close>

lemma masked_run_plain:
  assumes b: "blake3_lengths hash keyed" and run: "masked_run cap hash keyed auth acts (masked_init hash secret) = Some s"
    and ok: "\<forall>act \<in> set acts. masked_ok secret act" and len: "length acts < 2 ^ 60"
  obtains pacts p where "pair_run hash keyed auth pacts pair_init = Some p" "related hash keyed secret (length acts) s p"
    "length pacts \<le> length acts" "\<forall>a \<in> set pacts. action_ok a" "pair_inv (length acts) p" "within cap s"
    "set pacts \<subseteq> {To_server, To_client} \<union> {a. Turn a \<in> set acts}"
proof -
  have "0 + length acts < 2 ^ 64" using len by simp
  from masked_run_related [OF b related_init this ok run, unfolded add_0] obtain pacts p where
    1: "pair_run hash keyed auth pacts pair_init = Some p" "related hash keyed secret (length acts) s p"
    "length pacts \<le> length acts" "\<forall>a \<in> set pacts. action_ok a"
    "set pacts \<subseteq> {To_server, To_client} \<union> {a. Turn a \<in> set acts}" by blast
  have "0 + length pacts < 2 ^ 62" using 1(3) len by simp
  from pair_run_inv [OF pair_inv_init this 1(4,1), unfolded add_0] 1(3) have "pair_inv (length acts) p"
    by (rule pair_inv_mono)
  from that [OF 1(1-4) this masked_run_within [OF within_init run] 1(5)] show thesis .
qed

text \<open>A frame that is written and read.\<close>

lemma deliveries_followed:
  assumes b: "blake3_lengths hash keyed" and r: "related hash keyed secret N s p" and N: "N < 2 ^ 64"
    and salt: "length salt = SALT_LEN" and cap: "0 < cap"
  shows "mk_up s = [] \<Longrightarrow> loop_free (wp_down (mk_pair s)) \<Longrightarrow> pair_step hash keyed auth To_server p = Some p' \<Longrightarrow>
      \<exists>s' raw. masked_run cap hash keyed auth [Client_writes salt, Server_reads] s = Some s' \<and>
        related hash keyed secret (Suc N) s' p' \<and> mk_up s' = [] \<and> mk_down s' = mk_down s \<and>
        mk_up_log s' = mk_up_log s @ [raw] \<and> mk_down_log s' = mk_down_log s"
    "mk_down s = [] \<Longrightarrow> loop_free (wp_up (mk_pair s)) \<Longrightarrow> pair_step hash keyed auth To_client p = Some p' \<Longrightarrow>
      \<exists>s' raw. masked_run cap hash keyed auth [Server_writes salt, Client_reads] s = Some s' \<and>
        related hash keyed secret (Suc N) s' p' \<and> mk_down s' = [] \<and> mk_up s' = mk_up s \<and>
        mk_down_log s' = mk_down_log s @ [raw] \<and> mk_up_log s' = mk_up_log s"
proof -
  show "\<exists>s' raw. masked_run cap hash keyed auth [Client_writes salt, Server_reads] s = Some s' \<and>
      related hash keyed secret (Suc N) s' p' \<and> mk_up s' = [] \<and> mk_down s' = mk_down s \<and>
      mk_up_log s' = mk_up_log s @ [raw] \<and> mk_down_log s' = mk_down_log s"
    if e: "mk_up s = []" and free: "loop_free (wp_down (mk_pair s))" and p': "pair_step hash keyed auth To_server p = Some p'"
  proof -
    from r have "wp_up p = wp_up (mk_pair s)"
      by (rule relatedE) (use e in \<open>auto simp: view_def dest: channel_length\<close>)
    moreover from p' obtain f fs where "wp_up p = f # fs" by (auto split: list.splits)
    ultimately have q: "wp_up (mk_pair s) = f # fs" by simp
    obtain raw s1 where 1: "masked_step cap hash keyed auth (Client_writes salt) s = Some s1"
      "related hash keyed secret (Suc N) s1 p" "mk_up s1 = [raw]"
      by (rule client_writes_related [OF b r salt q, of cap auth]) (use e cap in simp_all)
    have N': "Suc N \<le> 2 ^ 64" using N by simp
    have free1: "loop_free (wp_down (mk_pair s1))" using 1(1) free by (auto simp: q Let_def split: if_splits)
    from server_reads_related [OF b 1(2) N' 1(3) free1, of cap auth, unfolded p'] obtain s2 where
      2: "masked_step cap hash keyed auth Server_reads s1 = Some s2" "related hash keyed secret (Suc N) s2 p'"
      by (cases "masked_step cap hash keyed auth Server_reads s1") (simp_all del: masked_step.simps)
    from 1(1) have "mk_down s1 = mk_down s" "mk_up_log s1 = mk_up_log s" "mk_down_log s1 = mk_down_log s"
      by (auto simp: q Let_def split: if_splits)
    with 2(1) 1(3) have "mk_up s2 = []" "mk_down s2 = mk_down s" "mk_up_log s2 = mk_up_log s @ [raw]"
      "mk_down_log s2 = mk_down_log s" by (auto split: if_splits)
    with 1(1) 2 show ?thesis by (intro exI [of _ s2] exI [of _ raw]) (simp del: masked_step.simps)
  qed
  show "\<exists>s' raw. masked_run cap hash keyed auth [Server_writes salt, Client_reads] s = Some s' \<and>
      related hash keyed secret (Suc N) s' p' \<and> mk_down s' = [] \<and> mk_up s' = mk_up s \<and>
      mk_down_log s' = mk_down_log s @ [raw] \<and> mk_up_log s' = mk_up_log s"
    if e: "mk_down s = []" and free: "loop_free (wp_up (mk_pair s))" and p': "pair_step hash keyed auth To_client p = Some p'"
  proof -
    from r have "wp_down p = wp_down (mk_pair s)"
      by (rule relatedE) (use e in \<open>auto simp: view_def dest: channel_length\<close>)
    moreover from p' obtain f fs where "wp_down p = f # fs" by (auto split: list.splits)
    ultimately have q: "wp_down (mk_pair s) = f # fs" by simp
    obtain raw s1 where 1: "masked_step cap hash keyed auth (Server_writes salt) s = Some s1"
      "related hash keyed secret (Suc N) s1 p" "mk_down s1 = [raw]"
      by (rule server_writes_related [OF b r salt q, of cap auth]) (use e cap in simp_all)
    have N': "Suc N \<le> 2 ^ 64" using N by simp
    have free1: "loop_free (wp_up (mk_pair s1))" using 1(1) free by (auto simp: q Let_def split: if_splits)
    from client_reads_related [OF b 1(2) N' 1(3) free1, of cap auth, unfolded p'] obtain s2 where
      2: "masked_step cap hash keyed auth Client_reads s1 = Some s2" "related hash keyed secret (Suc N) s2 p'"
      by (cases "masked_step cap hash keyed auth Client_reads s1") (simp_all del: masked_step.simps)
    from 1(1) have "mk_up s1 = mk_up s" "mk_up_log s1 = mk_up_log s" "mk_down_log s1 = mk_down_log s"
      by (auto simp: q Let_def split: if_splits)
    with 2(1) 1(3) have "mk_down s2 = []" "mk_up s2 = mk_up s" "mk_down_log s2 = mk_down_log s @ [raw]"
      "mk_up_log s2 = mk_up_log s" by (auto split: if_splits)
    with 1(1) 2 show ?thesis by (intro exI [of _ s2] exI [of _ raw]) (simp del: masked_step.simps)
  qed
qed

text \<open>In a short run no loop waits.\<close>

lemma masked_step_queues:
  assumes "masked_step cap hash keyed auth act s = Some s'"
  shows "length (wp_up (mk_pair s')) \<le> Suc (length (wp_up (mk_pair s))) \<and>
    length (wp_down (mk_pair s')) \<le> Suc (length (wp_down (mk_pair s)))"
proof (cases act)
  case (Turn a)
  with assms show ?thesis
    by (cases a) (auto simp: ws_open_stream_def Let_def split: if_splits dest!: turn_sends_one)
qed (use assms in \<open>auto simp: Let_def split: list.splits if_splits dest!: turn_sends_one\<close>)

lemma masked_run_queues:
  "masked_run cap hash keyed auth acts s = Some s' \<Longrightarrow>
   length (wp_up (mk_pair s')) \<le> length (wp_up (mk_pair s)) + length acts \<and>
   length (wp_down (mk_pair s')) \<le> length (wp_down (mk_pair s)) + length acts"
proof (induction acts arbitrary: s)
  case (Cons act acts)
  then obtain s1 where "masked_step cap hash keyed auth act s = Some s1" "masked_run cap hash keyed auth acts s1 = Some s'"
    by (auto split: bind_splits simp del: masked_step.simps)
  with masked_step_queues [of cap hash keyed auth act s s1] Cons.IH [of s1] show ?case by simp
qed simp

lemma short_run_free:
  assumes "masked_run cap hash keyed auth acts (masked_init hash secret) = Some s" "length acts \<le> OUTBOUND_QUEUE"
  shows "loop_free (wp_up (mk_pair s))" "loop_free (wp_down (mk_pair s))"
  using masked_run_queues [OF assms(1)] assms(2) by (auto simp: loop_free_def masked_init_def pair_init_def)

text \<open>A small run: a stream is opened and answered, and both messages are sent again.\<close>

definition small_acts :: "u8 \<Rightarrow> u8 \<Rightarrow> bytes \<Rightarrow> bytes \<Rightarrow> masked_action list" where
  "small_acts status code message salt =
     [Turn (pair_action.Opens (Ip (V4 9) 80) 0), Client_writes salt, Server_reads,
      Turn (Replies 1 status code message 0), Server_writes salt, Client_reads,
      Replay_to_server 0, Replay_to_client 0]"

lemma small_acts_ok:
  "length salt = SALT_LEN \<Longrightarrow> length message \<le> 20 \<Longrightarrow>
   \<forall>act \<in> set (small_acts status code message salt). masked_ok (Some key) act"
  using small_actions_ok(1) [of 0] small_actions_ok(2) [of message status code 0]
  by (simp add: small_acts_def del: action_ok.simps)

lemma small_masked_run:
  assumes b: "blake3_lengths hash keyed" and salt: "length salt = SALT_LEN" and cap: "0 < cap"
    and len: "length message \<le> 20"
  shows "\<exists>s. masked_run cap hash keyed auth (small_acts status code message salt) (masked_init hash (Some key)) = Some s \<and>
    wp_requested (mk_pair s) = [(1, Ip (V4 9) 80)] \<and>
    wp_answered (mk_pair s) = [(1, reply_result status message)] \<and> wp_asked (mk_pair s) = wp_requested (mk_pair s) \<and>
    wp_replied (mk_pair s) = wp_answered (mk_pair s) \<and> settled (mk_pair s) \<and> mk_up s = [] \<and> mk_down s = []"
proof -
  let ?open = "pair_action.Opens (Ip (V4 9) 80) 0" and ?reply = "Replies 1 status code message 0"
  let ?step = "pair_step hash keyed auth" and ?mstep = "masked_step cap hash keyed auth" and ?mrun = "masked_run cap hash keyed auth"
  let ?R = "related hash keyed (Some key)" and ?init = "masked_init hash (Some key)"
  let ?as2 = "[Client_writes salt, Server_reads]" and ?as4 = "[Server_writes salt, Client_reads]"
  have N: "(0 :: nat) < 2 ^ 64" "Suc 0 < 2 ^ 64" by simp_all
  obtain p where p: "pair_run hash keyed auth [?open, To_server, ?reply, To_client] pair_init = Some p"
    "wp_answered p = [(1, reply_result status message)]" "settled p"
    "wp_requested p = [(1, Ip (V4 9) 80)]" "wp_replied p = wp_answered p" "wp_asked p = wp_requested p"
    using small_run [OF len, of hash keyed auth status code] by auto
  then obtain p1 p2 p3 where step: "?step ?open pair_init = Some p1" "?step To_server p1 = Some p2"
    "?step ?reply p2 = Some p3" "?step To_client p3 = Some p"
    by (auto split: option.splits simp del: pair_step.simps)
  note free = short_run_free [where cap = cap and hash = hash and keyed = keyed and auth = auth and secret = "Some key"]
  have f0: "loop_free (queue_of ?open (mk_pair ?init))"
    using free(1) [of "[]" ?init] by simp
  from turn_related [OF related_init _ _ f0, of keyed cap auth, unfolded step(1)] obtain s1 where
    1: "?mstep (Turn ?open) ?init = Some s1" "?R 0 s1 p1"
    by (cases "?mstep (Turn ?open) ?init") (simp_all del: masked_step.simps pair_step.simps)
  then have e1: "mk_up s1 = []" "mk_down s1 = []" by (auto simp: masked_init_def split: if_splits)
  note r1 = masked_run_one [OF 1(1)]
  from deliveries_followed(1) [OF b 1(2) N(1) salt cap e1(1) free(2) [OF r1] step(2)] obtain s2 where
    2: "?mrun ?as2 s1 = Some s2" "?R (Suc 0) s2 p2" "mk_up_log s2 \<noteq> []" "mk_down s2 = []"
    by (auto simp: e1 OUTBOUND_QUEUE_def simp del: masked_run.simps)
  note r2 = masked_run_then [OF r1 2(1)]
  have f2: "loop_free (queue_of ?reply (mk_pair s2))" using free(2) [OF r2] by (simp add: OUTBOUND_QUEUE_def)
  from turn_related [OF 2(2) _ _ f2, of cap auth, unfolded step(3)] obtain s3 where
    3: "?mstep (Turn ?reply) s2 = Some s3" "?R (Suc 0) s3 p3"
    by (cases "?mstep (Turn ?reply) s2") (simp_all del: masked_step.simps pair_step.simps)
  then have e3: "mk_down s3 = []" "mk_up_log s3 \<noteq> []" using 2(3,4) by (auto split: if_splits)
  note r3 = masked_run_then [OF r2 masked_run_one [OF 3(1)]]
  from deliveries_followed(2) [OF b 3(2) N(2) salt cap e3(1) free(1) [OF r3] step(4)] obtain s4 where
    4: "?mrun ?as4 s3 = Some s4" "?R (Suc (Suc 0)) s4 p" "mk_up_log s4 \<noteq> []" "mk_down_log s4 \<noteq> []"
    using e3(2) by (auto simp: OUTBOUND_QUEUE_def simp del: masked_run.simps)
  note r4 = masked_run_then [OF r3 4(1)]
  from replay_related(1) [OF b 4(2) _ free(2) [OF r4], of 0 cap auth] 4(3) obtain s5 where
    5: "?mstep (Replay_to_server 0) s4 = Some s5" "?R (Suc (Suc 0)) s5 p"
    by (auto simp: OUTBOUND_QUEUE_def simp del: masked_step.simps)
  note r5 = masked_run_then [OF r4 masked_run_one [OF 5(1)]]
  from 5 have "mk_down_log s5 \<noteq> []" using 4(4) by (auto split: if_splits)
  with replay_related(2) [OF b 5(2) _ free(1) [OF r5], of 0 cap auth] obtain s6 where
    6: "?mstep (Replay_to_client 0) s5 = Some s6" "?R (Suc (Suc 0)) s6 p"
    by (auto simp: OUTBOUND_QUEUE_def simp del: masked_step.simps)
  have "?mrun (small_acts status code message salt) ?init = Some s6"
    using masked_run_then [OF r5 masked_run_one [OF 6(1)]] by (simp add: small_acts_def del: masked_step.simps masked_run.simps)
  with p related_histories [OF 6(2)] show ?thesis by (intro exI [of _ s6]) simp
qed

subsection \<open>Properties\<close>

text \<open>
  (C12) The ends of a connection agree on its streams. This is a connection without multiplexed logins,
  after its login. In every run, with or without obfuscation, whatever the streams carry and however
  the loops and the writers interleave, the server is asked for exactly the streams the client opened,
  with their addresses and in their order; every caller gets the server's reply to its own request and
  nobody gets two; once queues and wires are empty and the server has replied to all it was asked, every
  caller has its answer. No message of the other end ends a loop that is free to read it. With
  obfuscation all this holds as well when somebody on the path sends messages again, any number of times
  and at any time, that have arrived on the same connection in the same direction, and no such message
  ends a loop. (Messages of another connection or of the other direction are not among these: \<open>Ws_Capture\<close>
  shows what they do. Without obfuscation a repeated request is a request.)
\<close>

theorem masked_ends_agree:
  assumes "blake3_lengths hash keyed"
    and "masked_run cap hash keyed auth acts (masked_init hash secret) = Some s"
    and "\<forall>act \<in> set acts. masked_ok secret act" and "length acts < 2 ^ 60"
  shows "let p = mk_pair s in
    prefix (wp_asked p) (wp_requested p) \<and> prefix (wp_answered p) (wp_replied p) \<and>
    distinct (map fst (wp_requested p)) \<and> distinct (map fst (wp_answered p)) \<and>
    fst ` set (wp_answered p) \<subseteq> fst ` set (wp_requested p) \<and>
    (settled p \<and> mk_up s = [] \<and> mk_down s = [] \<and> fst ` set (wp_replied p) = fst ` set (wp_asked p) \<longrightarrow>
       fst ` set (wp_answered p) = fst ` set (wp_requested p)) \<and>
    (loop_free (wp_down p) \<longrightarrow>
       (mk_up s \<noteq> [] \<longrightarrow> masked_step cap hash keyed auth Server_reads s \<noteq> None) \<and>
       (secret \<noteq> None \<longrightarrow>
          (\<forall>i < length (mk_up_log s). masked_step cap hash keyed auth (Replay_to_server i) s \<noteq> None))) \<and>
    (loop_free (wp_up p) \<longrightarrow>
       (mk_down s \<noteq> [] \<longrightarrow> masked_step cap hash keyed auth Client_reads s \<noteq> None) \<and>
       (secret \<noteq> None \<longrightarrow>
          (\<forall>i < length (mk_down_log s). masked_step cap hash keyed auth (Replay_to_client i) s \<noteq> None)))"
proof -
  obtain pacts p where p: "pair_run hash keyed auth pacts pair_init = Some p" "related hash keyed secret (length acts) s p"
    "length pacts \<le> length acts" "\<forall>a \<in> set pacts. action_ok a" "pair_inv (length acts) p"
    by (rule masked_run_plain [OF assms])
  note h = related_histories [OF p(2)]
  have "length pacts < 2 ^ 62" and N: "length acts \<le> 2 ^ 64" using p(3) assms(4) by simp_all
  note agree = ws_ends_agree [OF p(1,4) this(1), unfolded h(1-4,7)]
  have "masked_step cap hash keyed auth (Replay_to_server i) s \<noteq> None"
    if "secret \<noteq> None" "i < length (mk_up_log s)" "loop_free (wp_down (mk_pair s))" for i
    using that replay_related(1) [OF assms(1), of _ "length acts" s p i cap auth] p(2) by (auto simp del: masked_step.simps)
  moreover have "masked_step cap hash keyed auth (Replay_to_client i) s \<noteq> None"
    if "secret \<noteq> None" "i < length (mk_down_log s)" "loop_free (wp_up (mk_pair s))" for i
    using that replay_related(2) [OF assms(1), of _ "length acts" s p i cap auth] p(2) by (auto simp del: masked_step.simps)
  ultimately show ?thesis
    using agree arrivals_accepted [OF assms(1) p(2) N p(5), of cap auth] unfolding Let_def by blast
qed

theorem masked_ends_agree_witness:
  "let hash = (\<lambda>m. replicate 32 3); keyed = (\<lambda>k m. replicate 32 7)
   in \<exists>s. masked_run 4 hash keyed None (small_acts STATUS_ERR ERR_CONNECT_FAILED [104, 105] (replicate 8 5)) (masked_init hash (Some [1])) = Some s \<and>
     wp_requested (mk_pair s) = [(1, Ip (V4 9) 80)] \<and>
     fst ` set (wp_answered (mk_pair s)) = fst ` set (wp_requested (mk_pair s)) \<and>
     (\<forall>i < length (mk_up_log s). masked_step 4 hash keyed None (Replay_to_server i) s \<noteq> None)"
proof -
  let ?hash = "\<lambda>m :: bytes. replicate 32 3 :: bytes" and ?keyed = "\<lambda>k m :: bytes. replicate 32 7 :: bytes"
  let ?salt = "replicate 8 5 :: bytes"
  have b: "blake3_lengths ?hash ?keyed" and salt: "length ?salt = SALT_LEN"
    by (simp_all add: blake3_lengths_def code_consts)
  obtain s where s: "masked_run 4 ?hash ?keyed None (small_acts STATUS_ERR ERR_CONNECT_FAILED [104, 105] ?salt) (masked_init ?hash (Some [1])) = Some s"
    "wp_requested (mk_pair s) = [(1, Ip (V4 9) 80)]" "wp_asked (mk_pair s) = wp_requested (mk_pair s)"
    "wp_replied (mk_pair s) = wp_answered (mk_pair s)" "settled (mk_pair s)" "mk_up s = []" "mk_down s = []"
    "wp_answered (mk_pair s) = [(1, reply_result STATUS_ERR [104, 105])]"
    using small_masked_run [OF b salt, of 4 "[104, 105]" None STATUS_ERR ERR_CONNECT_FAILED "[1]"] by auto
  have ok: "\<forall>act \<in> set (small_acts STATUS_ERR ERR_CONNECT_FAILED [104, 105] ?salt). masked_ok (Some [1]) act"
    by (rule small_acts_ok [OF salt]) simp
  have len: "length (small_acts STATUS_ERR ERR_CONNECT_FAILED [104, 105] ?salt) < 2 ^ 60" by (simp add: small_acts_def)
  have "loop_free (wp_down (mk_pair s))"
    by (rule short_run_free(2) [OF s(1)]) (simp add: small_acts_def OUTBOUND_QUEUE_def)
  with masked_ends_agree [OF b s(1) ok len] s show ?thesis
    unfolding Let_def by (intro exI [of _ s]) (simp del: masked_step.simps)
qed

text \<open>
  (C13) Only a jam keeps an opener waiting. After any run of a connection (without multiplexed logins,
  after its login, with or without obfuscation, whatever was sent again on the way), the writers' queues
  and the wires having the bounds of the code, one of two things is the case. Either both ends are
  jammed: both loops wait for a place in their writer's full queue, both writers for a wire that takes no
  more, and nothing at all can happen any more (\<open>Ws_Backpressure.ends_can_deadlock\<close> shows that the ends can
  get there). Or the writers, the loops and a server that replies to what it was asked can give every
  waiting caller its answer. No other interleaving, no full queue of one end and no replay gets the ends
  into a state where this is no longer possible. (The applications are taken to empty the queues of
  events, and only those on the path send again what the previous property allows.)
\<close>

theorem masked_openers_answered:
  assumes "blake3_lengths hash keyed"
    and "masked_run cap hash keyed auth acts (masked_init hash secret) = Some s"
    and "\<forall>act \<in> set acts. masked_ok secret act" and "length acts < 2 ^ 60" and "length salt = SALT_LEN" and "0 < cap"
  shows "if jam cap s then \<forall>act. masked_step cap hash keyed auth act s = None
    else \<exists>acts' s'. set acts' \<subseteq> helpful salt (range refusal) \<and>
      masked_run cap hash keyed auth (acts @ acts') (masked_init hash secret) = Some s' \<and>
      settled (mk_pair s') \<and> mk_up s' = [] \<and> mk_down s' = [] \<and>
      wp_requested (mk_pair s') = wp_requested (mk_pair s) \<and>
      fst ` set (wp_answered (mk_pair s')) = fst ` set (wp_requested (mk_pair s))"
proof (cases "jam cap s")
  case True
  with jam_stuck [OF True] show ?thesis by simp
next
  case False
  let ?n = "length acts"
  obtain pacts p where p: "pair_run hash keyed auth pacts pair_init = Some p" "related hash keyed secret ?n s p"
    "length pacts \<le> ?n" "\<forall>a \<in> set pacts. action_ok a" "pair_inv ?n p" "within cap s"
    by (rule masked_run_plain [OF assms(1-4)])
  have n: "0 + length pacts < 2 ^ 62" "?n < 2 ^ 62" using p(3) assms(4) by simp_all
  have size: "pair_weight p \<le> 2 * ?n" "length (wp_requested p) \<le> ?n"
    using pair_run_grows [OF pair_inv_init n(1) p(4,1)] p(3) by (simp_all add: pair_init_def pair_weight_def)
  note work = work_weight [OF p(2)]
  have "?n + work s p \<le> 2 ^ 64" using work size assms(4) by simp
  from delivers_all [OF assms(1,5,6) p(2,5,6) False this] obtain acts1 s1 p1 where
    1: "set acts1 \<subseteq> helpful salt {}" "masked_run cap hash keyed auth acts1 s = Some s1"
    "related hash keyed secret (?n + work s p) s1 p1" "pair_inv ?n p1" "within cap s1" "settled p1"
    "wp_requested p1 = wp_requested p" by blast
  let ?k = "card (ids (wp_requested p1) - ids (wp_replied p1))"
  have "?k \<le> card (ids (wp_requested p1))" by (intro card_mono) (auto simp: ids_def)
  also have "\<dots> \<le> length (wp_requested p)"
    unfolding ids_def 1(7) by (rule order_trans [OF card_image_le card_length]) simp
  finally have "?n + work s p + 3 * ?k \<le> 2 ^ 64" using work size assms(4) by simp
  from answers_all [OF assms(1,5,6) n(2) 1(3-6) refl this] obtain acts2 s' p' where
    2: "set acts2 \<subseteq> helpful salt (range refusal)" "masked_run cap hash keyed auth acts2 s1 = Some s'"
    "related hash keyed secret (?n + work s p + 3 * ?k) s' p'" "settled p'" "wp_requested p' = wp_requested p1"
    "ids (wp_answered p') = ids (wp_requested p1)" by blast
  note h = related_histories [OF p(2)] and h' = related_histories [OF 2(3)]
  note run = masked_run_then [OF assms(2) masked_run_then [OF 1(2) 2(2)]]
  have "set (acts1 @ acts2) \<subseteq> helpful salt (range refusal)" using 1(1) 2(1) by (auto simp: helpful_def)
  with run False 2(4-6) show ?thesis
    by (auto simp: 1(7) h(1-4) h'(1-4,7) ids_def intro!: exI [of _ "acts1 @ acts2"] exI [of _ s'])
qed

theorem masked_openers_answered_witness:
  "let hash = (\<lambda>m. replicate 32 3); keyed = (\<lambda>k m. replicate 32 7); init = masked_init hash (Some [1]);
       acts = [Turn (pair_action.Opens (Ip (V4 9) 80) 0)]
   in \<exists>s acts' s'. masked_run 4 hash keyed None acts init = Some s \<and>
     masked_run 4 hash keyed None (acts @ acts') init = Some s' \<and>
     fst ` set (wp_answered (mk_pair s')) = fst ` set (wp_requested (mk_pair s))"
proof -
  let ?hash = "\<lambda>m :: bytes. replicate 32 3 :: bytes" and ?keyed = "\<lambda>k m :: bytes. replicate 32 7 :: bytes"
  let ?salt = "replicate 8 5 :: bytes" and ?acts = "[Turn (pair_action.Opens (Ip (V4 9) 80) 0)]"
  have b: "blake3_lengths ?hash ?keyed" and salt: "length ?salt = SALT_LEN"
    by (simp_all add: blake3_lengths_def code_consts)
  obtain s where "masked_run 4 ?hash ?keyed None (small_acts STATUS_ERR ERR_CONNECT_FAILED [104, 105] ?salt) (masked_init ?hash (Some [1])) = Some s"
    using small_masked_run [OF b salt, of 4 "[104, 105]" None STATUS_ERR ERR_CONNECT_FAILED "[1]"] by auto
  then obtain s1 where run: "masked_run 4 ?hash ?keyed None ?acts (masked_init ?hash (Some [1])) = Some s1"
    by (auto simp: small_acts_def simp del: masked_step.simps split: bind_splits)
  have ok: "\<forall>act \<in> set ?acts. masked_ok (Some [1]) act"
    using small_acts_ok [OF salt, of "[104, 105]" STATUS_ERR ERR_CONNECT_FAILED "[1]"] by (simp add: small_acts_def del: action_ok.simps)
  have len: "length ?acts < 2 ^ 60" and cap: "0 < (4 :: nat)" by simp_all
  have nojam: "\<not> jam 4 s1"
    using short_run_free(1) [OF run] by (simp add: jam_def OUTBOUND_QUEUE_def)
  from masked_openers_answered [OF b run ok len salt cap] run show ?thesis
    unfolding if_not_P [OF nojam] Let_def by blast
qed

end
