(* ===== verification/Ws_Serving.thy ===== *)
theory Ws_Serving
  imports Ws_Progress Client
begin

section \<open>Streams of a WebSocket connection, served\<close>

text \<open>
  The connection of \<open>Ws_Masked\<close>, its server's side driven by \<open>Server::handle_stream\<close> of
  \<open>src/crates/hydr-server/src/lib.rs\<close>: for every stream the loop reports, a task connects to the peer
  and answers. The tasks run concurrently, so the answers come in any order and at any time. On the
  client's side \<open>handle_conn\<close> opens the streams.
\<close>

text \<open>What the task for an accepted stream sends to the loop.\<close>

definition stream_reply ::
  "('h \<Rightarrow> address \<Rightarrow> unit result) \<Rightarrow> (address \<Rightarrow> tcp_outcome) \<Rightarrow> ('s, 'h) server \<Rightarrow> u64 \<times> address \<times> nat
     \<Rightarrow> ws_cmd list" where
  "stream_reply open_downstream tcp self inc =
     (let acc = ws_accepted inc
      in case as_inner (snd (handle_stream open_downstream tcp (reply_with_code True) self (as_address acc) acc)) of
           Ws_inner sid halves cmds \<Rightarrow> cmds
         | Quic_inner s \<Rightarrow> [])"

text \<open>
  The connection with these tasks: an answer is that of the task of a stream the loop has reported; all
  other actions are those of \<open>masked_step\<close>.
\<close>

datatype serving_action = Answers u64 nat | Acts masked_action

definition is_reply :: "masked_action \<Rightarrow> bool" where
  "is_reply act = (case act of Turn (Replies sid status code message pipe) \<Rightarrow> True | _ \<Rightarrow> False)"

fun serving_step ::
  "nat \<Rightarrow> hash_fn \<Rightarrow> keyed_hash_fn \<Rightarrow> unit validator option \<Rightarrow> (u64 \<times> address \<times> nat \<Rightarrow> ws_cmd list) \<Rightarrow>
     serving_action \<Rightarrow> masked \<Rightarrow> masked option" where
  "serving_step cap hash keyed auth tasks (Answers sid pipe) s =
     (case map_of (wp_asked (mk_pair s)) sid of
        None \<Rightarrow> None
      | Some addr \<Rightarrow>
          (case tasks (sid, addr, pipe) of
             [ReplyOpen sid status code message pipe] \<Rightarrow>
               masked_step cap hash keyed auth (Turn (Replies sid status code message pipe)) s
           | _ \<Rightarrow> None))"
| "serving_step cap hash keyed auth tasks (Acts act) s =
     (if is_reply act then None else masked_step cap hash keyed auth act s)"

fun serving_run ::
  "nat \<Rightarrow> hash_fn \<Rightarrow> keyed_hash_fn \<Rightarrow> unit validator option \<Rightarrow> (u64 \<times> address \<times> nat \<Rightarrow> ws_cmd list) \<Rightarrow>
     serving_action list \<Rightarrow> masked \<Rightarrow> masked option" where
  "serving_run cap hash keyed auth tasks [] s = Some s"
| "serving_run cap hash keyed auth tasks (a # acts) s =
     Option.bind (serving_step cap hash keyed auth tasks a s) (serving_run cap hash keyed auth tasks acts)"

text \<open>The caller's side: \<open>WsHandle::open_stream\<close>, with the answer the loop has given for the number, if any.\<close>

definition ws_caller :: "(u64 \<times> unit result) list \<Rightarrow> address \<Rightarrow> u64 \<Rightarrow> unit result \<times> u64" where
  "ws_caller answered addr next =
     (let (r, cmd, sid) = ws_open_stream True (map_of answered (next + 1)) next addr 0 in (r, sid))"

lemma stream_reply_eq:
  "stream_reply open_downstream tcp self (sid, addr, pipe) =
     (case connect_peer open_downstream tcp self addr of
        Inl Panic \<Rightarrow> []
      | Inl (Err e) \<Rightarrow> [ReplyOpen sid STATUS_ERR ERR_CONNECT_FAILED (error_to_string e) pipe]
      | Inr _ \<Rightarrow> [ReplyOpen sid STATUS_OK ERR_NONE [] pipe])"
  by (simp add: stream_reply_def ws_accepted_def handle_stream_def reply_with_code_def reply_open_def Let_def
      split: sum.split failure.split)

text \<open>What the caller gets when the server's task has this result.\<close>

definition caller_result :: "unit result \<Rightarrow> unit result" where
  "caller_result r = (case r of Inl (Err e) \<Rightarrow> Fail (Message (from_utf8_lossy (error_to_string e))) | _ \<Rightarrow> r)"

lemma caller_result_Ok [simp]: "caller_result r = Ok () \<longleftrightarrow> r = Ok ()"
  by (auto simp: caller_result_def split: sum.splits failure.splits)

lemma stream_reply_result:
  "stream_reply open_downstream tcp self (sid, addr, pipe) = [ReplyOpen sid status code message pipe] \<Longrightarrow>
     reply_result status message = caller_result (connect_peer open_downstream tcp self addr) \<and>
     connect_peer open_downstream tcp self addr \<noteq> Crash"
  by (auto simp: stream_reply_eq reply_result_def caller_result_def code_consts split: sum.splits failure.splits)

text \<open>Every answer on record was one of the actions.\<close>

lemma turn_replied:
  "client_turn hash keyed inp s = Some s' \<Longrightarrow> wp_replied s' = wp_replied s"
  "server_turn hash keyed auth inp s = Some s' \<Longrightarrow> wp_replied s' = wp_replied s"
  by (auto simp: client_turn_def server_turn_def split: sum.splits prod.splits bool.splits)

lemma pair_step_replied:
  assumes "pair_step hash keyed auth a s = Some s'" and "(sid, r) \<in> set (wp_replied s')"
  shows "(sid, r) \<in> set (wp_replied s) \<or>
    (\<exists>status code message pipe. a = Replies sid status code message pipe \<and> r = reply_result status message)"
  using assms
  by (cases a) (auto simp: Let_def split_beta split: option.splits if_splits list.splits dest!: turn_replied)

lemma pair_run_replied:
  "pair_run hash keyed auth acts s = Some s' \<Longrightarrow> (sid, r) \<in> set (wp_replied s') \<Longrightarrow>
   (sid, r) \<in> set (wp_replied s) \<or>
   (\<exists>status code message pipe. Replies sid status code message pipe \<in> set acts \<and> r = reply_result status message)"
proof (induction acts arbitrary: s)
  case (Cons a acts)
  from Cons.prems(1) obtain s1 where 1: "pair_step hash keyed auth a s = Some s1" "pair_run hash keyed auth acts s1 = Some s'"
    by (auto split: option.splits)
  from Cons.IH [OF 1(2) Cons.prems(2)] pair_step_replied [OF 1(1), of sid r] show ?case by auto
qed simp

lemma distinct_ids_unique: "distinct_ids xs \<Longrightarrow> (k, x) \<in> set xs \<Longrightarrow> (k, y) \<in> set xs \<Longrightarrow> x = y"
  unfolding distinct_ids_def by (metis eq_key_imp_eq_value)

text \<open>A run with tasks is a run of the connection whose answers are those of the tasks.\<close>

lemma turn_asked:
  "client_turn hash keyed inp s = Some s' \<Longrightarrow> wp_asked s' = wp_asked s"
  "server_turn hash keyed auth inp s = Some s' \<Longrightarrow> set (wp_asked s) \<subseteq> set (wp_asked s')"
  by (auto simp: client_turn_def server_turn_def split: sum.splits prod.splits bool.splits)

lemma pair_step_asked:
  "a \<noteq> To_server \<Longrightarrow> a \<noteq> pair_action.To_client \<Longrightarrow> pair_step hash keyed auth a s = Some s' \<Longrightarrow> set (wp_asked s) \<subseteq> set (wp_asked s')"
  by (cases a) (auto simp: Let_def split_beta split: option.splits if_splits dest!: turn_asked)

lemma masked_step_asked:
  assumes "masked_step cap hash keyed auth act s = Some s'"
  shows "set (wp_asked (mk_pair s)) \<subseteq> set (wp_asked (mk_pair s'))"
proof (cases act)
  case (Turn a)
  with assms show ?thesis by (auto split: if_splits dest: pair_step_asked [THEN subsetD, rotated 3] simp del: pair_step.simps)
qed (use assms in \<open>auto simp: Let_def split: list.splits if_splits dest!: turn_asked\<close>)

text \<open>An answer of the task of a stream among \<open>asked\<close>.\<close>

definition task_answer ::
  "('h \<Rightarrow> address \<Rightarrow> unit result) \<Rightarrow> (address \<Rightarrow> tcp_outcome) \<Rightarrow> ('s, 'h) server \<Rightarrow> (u64 \<times> address) list
     \<Rightarrow> masked_action \<Rightarrow> bool" where
  "task_answer open_downstream tcp self asked act \<longleftrightarrow>
     (\<exists>sid addr pipe status code message. act = Turn (Replies sid status code message pipe) \<and>
        (sid, addr) \<in> set asked \<and>
        stream_reply open_downstream tcp self (sid, addr, pipe) = [ReplyOpen sid status code message pipe])"

lemma task_answer_mono:
  "task_answer open_downstream tcp self asked act \<Longrightarrow> set asked \<subseteq> set asked' \<Longrightarrow>
   task_answer open_downstream tcp self asked' act"
  unfolding task_answer_def by blast

lemma serving_step_masked:
  assumes "serving_step cap hash keyed auth (stream_reply open_downstream tcp self) a s = Some s'"
  obtains act where "masked_step cap hash keyed auth act s = Some s'"
    "a = Acts act \<and> \<not> is_reply act \<or> task_answer open_downstream tcp self (wp_asked (mk_pair s)) act"
proof (cases a)
  case (Acts act)
  with assms show thesis by (intro that [of act]) (auto split: if_splits simp del: masked_step.simps)
next
  case (Answers sid pipe)
  with assms obtain addr status code message where "(sid, addr) \<in> set (wp_asked (mk_pair s))"
    "stream_reply open_downstream tcp self (sid, addr, pipe) = [ReplyOpen sid status code message pipe]"
    "masked_step cap hash keyed auth (Turn (Replies sid status code message pipe)) s = Some s'"
    by (auto simp: stream_reply_eq split: option.splits sum.splits failure.splits
        dest: map_of_SomeD simp del: masked_step.simps)
  then have "task_answer open_downstream tcp self (wp_asked (mk_pair s)) (Turn (Replies sid status code message pipe))"
    and "masked_step cap hash keyed auth (Turn (Replies sid status code message pipe)) s = Some s'"
    unfolding task_answer_def by blast+
  with that show thesis by blast
qed

lemma serving_run_masked:
  "serving_run cap hash keyed auth (stream_reply open_downstream tcp self) acts s = Some s' \<Longrightarrow>
   \<exists>macts. masked_run cap hash keyed auth macts s = Some s' \<and> length macts = length acts \<and>
     set (wp_asked (mk_pair s)) \<subseteq> set (wp_asked (mk_pair s')) \<and>
     set macts \<subseteq> {act. Acts act \<in> set acts \<and> \<not> is_reply act} \<union>
       Collect (task_answer open_downstream tcp self (wp_asked (mk_pair s')))"
proof (induction acts arbitrary: s)
  case Nil
  then show ?case by (intro exI [of _ "[]"]) simp
next
  case (Cons a acts)
  let ?reply = "stream_reply open_downstream tcp self"
  from Cons.prems obtain s1 where 1: "serving_step cap hash keyed auth ?reply a s = Some s1"
    "serving_run cap hash keyed auth ?reply acts s1 = Some s'"
    by (auto split: bind_splits simp del: serving_step.simps)
  from Cons.IH [OF 1(2)] obtain macts where 2: "masked_run cap hash keyed auth macts s1 = Some s'" "length macts = length acts"
    "set (wp_asked (mk_pair s1)) \<subseteq> set (wp_asked (mk_pair s'))"
    "set macts \<subseteq> {act. Acts act \<in> set acts \<and> \<not> is_reply act} \<union>
       Collect (task_answer open_downstream tcp self (wp_asked (mk_pair s')))" by blast
  obtain act where 3: "masked_step cap hash keyed auth act s = Some s1"
    "a = Acts act \<and> \<not> is_reply act \<or> task_answer open_downstream tcp self (wp_asked (mk_pair s)) act"
    by (rule serving_step_masked [OF 1(1)])
  have sub: "set (wp_asked (mk_pair s)) \<subseteq> set (wp_asked (mk_pair s'))" using masked_step_asked [OF 3(1)] 2(3) by blast
  have "a = Acts act \<and> \<not> is_reply act \<or> task_answer open_downstream tcp self (wp_asked (mk_pair s')) act"
    using 3(2) task_answer_mono sub by metis
  then have "set (act # macts) \<subseteq> {act. Acts act \<in> set (a # acts) \<and> \<not> is_reply act} \<union>
      Collect (task_answer open_downstream tcp self (wp_asked (mk_pair s')))"
    using 2(4) by auto
  with 2(1,2) 3(1) sub show ?case by (intro exI [of _ "act # macts"]) (simp del: masked_step.simps)
qed

text \<open>What the actions of a run have to satisfy, and that the answers of the tasks satisfy it.\<close>

fun serving_ok :: "bytes option \<Rightarrow> serving_action \<Rightarrow> bool" where
  "serving_ok secret (Answers sid pipe) \<longleftrightarrow> True"
| "serving_ok secret (Acts act) \<longleftrightarrow> masked_ok secret act"

lemma stream_reply_ok:
  assumes "stream_reply open_downstream tcp self (sid, addr, pipe) = [ReplyOpen sid status code message pipe]"
    and "\<And>e. connect_peer open_downstream tcp self addr = Fail e \<Longrightarrow> length (error_to_string e) \<le> 60000"
  shows "action_ok (Replies sid status code message pipe)"
proof -
  have "length message \<le> 60000"
    using assms by (auto simp: stream_reply_eq split: sum.splits failure.splits)
  then show ?thesis
    using length_ack [of "\<lparr>oa_status = status, oa_error_code = code, oa_message = message\<rparr>"]
    by (simp add: wf_open_stream_ack_def code_consts Let_def)
qed

lemma task_answer_ok:
  assumes "task_answer open_downstream tcp self asked act"
    and "\<And>addr e. connect_peer open_downstream tcp self addr = Fail e \<Longrightarrow> length (error_to_string e) \<le> 60000"
  shows "masked_ok secret act"
proof -
  from assms(1) obtain sid addr pipe status code message where 1: "act = Turn (Replies sid status code message pipe)"
    "stream_reply open_downstream tcp self (sid, addr, pipe) = [ReplyOpen sid status code message pipe]"
    unfolding task_answer_def by blast
  from stream_reply_ok [OF 1(2) assms(2)] show ?thesis unfolding 1(1) masked_ok.simps .
qed

text \<open>An answered caller has the result of connecting to the address it asked for.\<close>

lemma answered_result:
  assumes "blake3_lengths hash keyed"
    and "serving_run cap hash keyed auth (stream_reply open_downstream tcp self) acts (masked_init hash secret) = Some s"
    and "\<forall>act \<in> set acts. serving_ok secret act" and "length acts < 2 ^ 60"
    and small: "\<And>addr e. connect_peer open_downstream tcp self addr = Fail e \<Longrightarrow> length (error_to_string e) \<le> 60000"
    and "(sid, addr) \<in> set (wp_requested (mk_pair s))" and "(sid, r) \<in> set (wp_answered (mk_pair s))"
  shows "r = caller_result (connect_peer open_downstream tcp self addr)" "r \<noteq> Crash"
    "distinct_ids (wp_answered (mk_pair s))"
proof -
  obtain macts where m: "masked_run cap hash keyed auth macts (masked_init hash secret) = Some s" "length macts = length acts"
    "set macts \<subseteq> {act. Acts act \<in> set acts \<and> \<not> is_reply act} \<union>
       Collect (task_answer open_downstream tcp self (wp_asked (mk_pair s)))"
    using serving_run_masked [OF assms(2)] by blast
  have ok: "\<forall>act \<in> set macts. masked_ok secret act"
  proof
    fix act assume "act \<in> set macts"
    with m(3) consider "Acts act \<in> set acts" | "task_answer open_downstream tcp self (wp_asked (mk_pair s)) act" by blast
    then show "masked_ok secret act"
    proof cases
      case 1
      with assms(3) serving_ok.simps(2) [of secret act] show ?thesis by blast
    next
      case 2
      then show ?thesis by (rule task_answer_ok [OF _ small])
    qed
  qed
  have len: "length macts < 2 ^ 60" using m(2) assms(4) by simp
  obtain pacts p where p: "pair_run hash keyed auth pacts pair_init = Some p" "related hash keyed secret (length macts) s p"
    "length pacts \<le> length macts" "\<forall>a \<in> set pacts. action_ok a" "pair_inv (length macts) p"
    "set pacts \<subseteq> {To_server, pair_action.To_client} \<union> {a. Turn a \<in> set macts}"
    by (rule masked_run_plain [OF assms(1) m(1) ok len])
  note same = related_histories(1-4) [OF p(2)]
  have h: "history_ok p" using p(5) by (simp add: pair_inv_def)
  then have "(sid, r) \<in> set (wp_replied p)" using assms(7) by (simp add: history_ok_def same(4))
  with pair_run_replied [OF p(1)] obtain status code message pipe where
    1: "Replies sid status code message pipe \<in> set pacts" "r = reply_result status message"
    by (fastforce simp: pair_init_def)
  then have "Turn (Replies sid status code message pipe) \<in> set macts" using p(6) by auto
  then have "Turn (Replies sid status code message pipe) \<in> {act. Acts act \<in> set acts \<and> \<not> is_reply act} \<union>
      Collect (task_answer open_downstream tcp self (wp_asked (mk_pair s)))" using m(3) by blast
  then have "task_answer open_downstream tcp self (wp_asked (mk_pair s)) (Turn (Replies sid status code message pipe))"
    by (simp add: is_reply_def)
  then obtain addr' where 2: "(sid, addr') \<in> set (wp_asked p)"
      "stream_reply open_downstream tcp self (sid, addr', pipe) = [ReplyOpen sid status code message pipe]"
    unfolding task_answer_def same(2) by blast
  have "(sid, addr') \<in> set (wp_requested p)" "distinct_ids (wp_requested p)"
    using h 2(1) unfolding history_ok_def by (metis Un_iff set_append, blast)
  with assms(6) have "addr' = addr" unfolding same(1) [symmetric] using distinct_ids_unique by metis
  with 1(2) stream_reply_result [OF 2(2)]
  show "r = caller_result (connect_peer open_downstream tcp self addr)" "r \<noteq> Crash"
    by (auto simp: caller_result_def split: sum.splits failure.splits)
  show "distinct_ids (wp_answered (mk_pair s))" unfolding same(4) [symmetric]
    using h by (metis history_ok_def distinct_ids_simps(3))
qed

lemma handle_stream_ws:
  assumes "connect_peer open_downstream tcp self addr \<noteq> Crash"
  shows "fst (handle_stream open_downstream tcp (reply_with_code True) self addr (ws_accepted (sid, addr, pipe))) =
    Ok (connect_peer open_downstream tcp self addr = Ok ())"
  using assms
  by (auto simp: handle_stream_def ws_accepted_def reply_with_code_def reply_open_def
      split: sum.splits failure.splits)

subsection \<open>Chains of servers\<close>

text \<open>
  What the caller of a chain of servers gets, each the next hop of the one before; a server with a
  next hop holds the connection to it in \<open>sv_downstream\<close>.
\<close>

fun chain_result :: "(address \<Rightarrow> tcp_outcome) \<Rightarrow> ('s, 'h) server list \<Rightarrow> address \<Rightarrow> unit result" where
  "chain_result tcp [] addr = Fail StreamClosed"
| "chain_result tcp (self # servers) addr =
     caller_result (connect_peer (\<lambda>h. chain_result tcp servers) tcp self addr)"

fun linked :: "('s, 'h) server list \<Rightarrow> bool" where
  "linked [] \<longleftrightarrow> False"
| "linked [self] \<longleftrightarrow> sc_next_hop (sv_config self) = None"
| "linked (self # servers) \<longleftrightarrow>
     sc_next_hop (sv_config self) \<noteq> None \<and> sv_downstream self \<noteq> None \<and> linked servers"

lemma chain_reaches: "linked servers \<Longrightarrow> chain_result tcp servers addr = Ok () \<longleftrightarrow> tcp addr = Tcp_connected"
proof (induction servers rule: linked.induct)
  case (2 self)
  then show ?case by (simp add: connect_peer_def split: tcp_outcome.split)
next
  case (3 self self2 servers)
  then obtain h where "sv_downstream self = Some h" "sc_next_hop (sv_config self) \<noteq> None" by auto
  with 3 show ?case by (simp add: connect_peer_def)
qed simp

lemma answers_step:
  assumes "masked_step cap hash keyed auth (Turn (Replies sid status code message pipe)) s = Some s'"
    and "\<And>addr. tasks (sid, addr, pipe) = [ReplyOpen sid status code message pipe]"
  shows "serving_step cap hash keyed auth tasks (Answers sid pipe) s = Some s'"
proof -
  from assms(1) have "sid \<in> fst ` set (wp_asked (mk_pair s))" by (auto simp: ids_def split: if_splits)
  then obtain addr where "map_of (wp_asked (mk_pair s)) sid = Some addr" by (auto simp: map_of_eq_None_iff dest!: weak_map_of_SomeI)
  with assms show ?thesis by (simp del: masked_step.simps)
qed

subsection \<open>Properties\<close>

text \<open>
  (C6) The whole way of a connection over a WebSocket tunnel, with or without obfuscation, through a
  chain of servers. The client has no SOCKS5 login configured, and the target is one that it reads
  correctly, an IPv4 address or a domain of less than 64 bytes (\<open>common_format\<close>; see the findings for the
  others). However many streams are opened and answered at the same time, and however the turns of the
  two loops, the writers and the tasks that answer interleave: an application that asked the client's
  SOCKS5 port for such a target and whose stream the loop has answered gets the success reply, and both
  ends relay from the first byte of the payload, exactly when the last server of the chain reached that
  target; else it gets the failure reply and the server does not relay. The texts of errors fit into a
  message, and the servers of the chain keep their next hops.
\<close>

theorem proxied_connect_over_ws:
  assumes "bi_recv app = [5, of_nat (length methods)] @ methods @ rfc1928_request CMD_CONNECT a @ payload"
    and "METHOD_NO_AUTH \<in> set methods" and "length methods \<le> 32" and "common_format a"
    and "bi_write_error app = None"
    and "blake3_lengths hash keyed"
    and "serving_run cap hash keyed auth (stream_reply (\<lambda>h. chain_result tcp servers) tcp self) acts
      (masked_init hash secret) = Some s"
    and "\<forall>act \<in> set acts. serving_ok secret act" and "length acts < 2 ^ 60"
    and "linked (self # servers)"
    and "\<And>addr e. connect_peer (\<lambda>h. chain_result tcp servers) tcp self addr = Fail e \<Longrightarrow> length (error_to_string e) \<le> 60000"
    and "(next + 1, a) \<in> set (wp_requested (mk_pair s))" and "next + 1 \<in> fst ` set (wp_answered (mk_pair s))"
    and "handle_conn (ws_caller (wp_answered (mk_pair s))) udp None password next app = ((session, next'), app')"
    and "handle_stream (\<lambda>h. chain_result tcp servers) tcp (reply_with_code True) self a (ws_accepted (next + 1, a, pipe)) =
      (relays, acc)"
  shows "relays = Ok (tcp a = Tcp_connected) \<and> bi_recv app' = payload \<and>
    (if tcp a = Tcp_connected
     then session = Ok (Relay_session a) \<and> bi_sent app' = bi_sent app @ [5, 0] @ socks_reply 0x00
     else session \<in> range Inl \<and> bi_sent app' = bi_sent app @ [5, 0] @ socks_reply 0x04)"
proof -
  let ?peer = "connect_peer (\<lambda>h. chain_result tcp servers) tcp self a"
  let ?answered = "wp_answered (mk_pair s)"
  from assms(13) obtain r where in_r: "(next + 1, r) \<in> set ?answered" by auto
  note r = answered_result [OF assms(6-9,11,12) in_r]
  have "map_of ?answered (next + 1) = Some r"
    using r(3) in_r by (simp add: distinct_ids_def)
  then have connect: "ws_caller ?answered a next = (r, next + 1)"
    by (simp add: ws_caller_def ws_open_stream_def Let_def)
  have reach: "?peer = Ok () \<longleftrightarrow> tcp a = Tcp_connected" and "?peer \<noteq> Crash"
    using chain_reaches [OF assms(10), of tcp a] r(1,2) by (simp, auto simp: caller_result_def)
  from handle_stream_ws [OF this(2), of "next + 1" pipe] assms(15) reach have relays: "relays = Ok (tcp a = Tcp_connected)"
    by simp
  note conn = handle_conn_connect [where connect = "ws_caller ?answered" and c = "next", OF assms(1-5)]
  show ?thesis
  proof (cases "tcp a = Tcp_connected")
    case True
    with r(1) reach have "r = Ok ()" by simp
    with conn(1) connect assms(14) relays True show ?thesis by auto
  next
    case False
    with r(1,2) reach have "r \<noteq> Ok ()" "r \<noteq> Crash" by simp_all
    then obtain e where "r = Fail e" by (metis failure.exhaust old.unit.exhaust sum.exhaust)
    with conn(2) connect assms(14) relays False show ?thesis by auto
  qed
qed

theorem proxied_connect_over_ws_witness:
  "let hash = (\<lambda>m. replicate 32 3); keyed = (\<lambda>k m. replicate 32 7); self = server_new sample_config :: (nat, nat) server;
       tcp = (\<lambda>a. Tcp_connected)
   in \<exists>acts s app next' app'.
     serving_run 4 hash keyed None (stream_reply (\<lambda>h. chain_result tcp ([] :: (nat, nat) server list)) tcp self) acts
       (masked_init hash (Some [1])) = Some s \<and>
     handle_conn (ws_caller (wp_answered (mk_pair s))) (\<lambda>c s. ((Crash, c), s)) None None 0 app =
       ((Ok (Relay_session (Ip (V4 9) 80)), next'), app') \<and> bi_recv app' = [7]"
proof -
  let ?hash = "\<lambda>m :: bytes. replicate 32 3 :: bytes" and ?keyed = "\<lambda>k m :: bytes. replicate 32 7 :: bytes"
  let ?salt = "replicate 8 5 :: bytes"
  let ?a = "Ip (V4 9) 80" and ?self = "server_new sample_config :: (nat, nat) server" and ?tcp = "\<lambda>a :: address. Tcp_connected"
  let ?down = "\<lambda>h. chain_result ?tcp ([] :: (nat, nat) server list)"
  let ?open = "Acts (Turn (pair_action.Opens ?a 0))"
  let ?replays = "[Acts (Replay_to_server 0), Acts (Replay_to_client 0)]"
  let ?acts = "[?open, Acts (Client_writes ?salt), Acts Server_reads, Answers 1 0, Acts (Server_writes ?salt), Acts Client_reads] @ ?replays"
  let ?small = "small_acts STATUS_OK ERR_NONE [] ?salt" and ?init = "masked_init ?hash (Some [1])"
  let ?app = "\<lparr>bi_recv = [5, of_nat (length [0 :: u8])] @ [0] @ rfc1928_request CMD_CONNECT ?a @ [7],
    bi_read_error = [], bi_sent = [], bi_write_error = None\<rparr>"
  have b: "blake3_lengths ?hash ?keyed" and salt: "length ?salt = SALT_LEN"
    by (simp_all add: blake3_lengths_def code_consts)
  obtain s where s: "masked_run 4 ?hash ?keyed None ?small ?init = Some s" "wp_answered (mk_pair s) = [(1, Ok ())]"
    "wp_requested (mk_pair s) = [(1, ?a)]"
    using small_masked_run [OF b salt, of 4 "[]" None STATUS_OK ERR_NONE "[1]"] by (auto simp: reply_result_def)
  have linked: "linked [?self]" by (simp add: server_new_def sample_config_def Let_def)
  then have peer: "connect_peer ?down ?tcp ?self addr = Ok ()" for addr
    by (simp add: connect_peer_def)
  have run: "serving_run 4 ?hash ?keyed None (stream_reply ?down ?tcp ?self) ?acts ?init = Some s"
  proof -
    have reply: "stream_reply ?down ?tcp ?self (1, addr, 0) = [ReplyOpen 1 STATUS_OK ERR_NONE [] 0]" for addr
      by (simp add: stream_reply_eq peer)
    show ?thesis
      using s(1) answers_step [where tasks = "stream_reply ?down ?tcp ?self", OF _ reply]
      by (auto simp: small_acts_def is_reply_def bind_eq_Some_conv simp del: masked_step.simps serving_step.simps(1))
  qed
  have ok: "\<forall>act \<in> set ?acts. serving_ok (Some [1]) act"
    using small_acts_ok [OF salt, of "[]" STATUS_OK ERR_NONE "[1]"] by (simp add: small_acts_def del: action_ok.simps)
  let ?h = "handle_conn (ws_caller (wp_answered (mk_pair s))) (\<lambda>c s. ((Crash, c), s)) None None 0 ?app"
  have conn: "?h = ((fst (fst ?h), snd (fst ?h)), snd ?h)" by (simp only: prod.collapse)
  let ?r = "handle_stream ?down ?tcp (reply_with_code True) ?self ?a (ws_accepted (0 + 1, ?a, 0))"
  have h: "?r = (fst ?r, snd ?r)" by (rule prod.collapse [symmetric])
  have "fst ?r = Ok (?tcp ?a = Tcp_connected) \<and> bi_recv (snd ?h) = [7] \<and>
    (if ?tcp ?a = Tcp_connected
     then fst (fst ?h) = Ok (Relay_session ?a) \<and> bi_sent (snd ?h) = bi_sent ?app @ [5, 0] @ socks_reply 0x00
     else fst (fst ?h) \<in> range Inl \<and> bi_sent (snd ?h) = bi_sent ?app @ [5, 0] @ socks_reply 0x04)"
  proof (rule proxied_connect_over_ws [OF _ _ _ _ _ b run ok _ linked _ _ _ conn h])
    show "bi_recv ?app = [5, of_nat (length [0 :: u8])] @ [0] @ rfc1928_request CMD_CONNECT ?a @ [7]"
      "(0 + 1, ?a) \<in> set (wp_requested (mk_pair s))" "0 + 1 \<in> fst ` set (wp_answered (mk_pair s))"
      by (simp_all add: s)
  qed (simp_all add: METHOD_NO_AUTH_def peer)
  then have res: "fst (fst ?h) = Ok (Relay_session ?a)" "bi_recv (snd ?h) = [7]" by (simp_all only: if_True simp_thms)
  have "?h = ((Ok (Relay_session ?a), snd (fst ?h)), snd ?h)" unfolding res(1) [symmetric] prod.collapse ..
  with run res(2) show ?thesis unfolding Let_def by blast
qed

end
