(* ===== verification/Ws_Backpressure.thy ===== *)
theory Ws_Backpressure
  imports Ws_Credit
begin

section \<open>Backpressure between the ends of a WebSocket connection\<close>

text \<open>
  The queues of \<open>src/crates/hydr-transport/src/ws.rs\<close> at their sizes, for both ends of a connection:
  the command queue and the queue of the \<open>writer\<close> (\<open>OUTBOUND_QUEUE\<close> frames each), the frame the loop
  \<open>run\<close> waits to put into the latter, the frame the writer waits to put on the wire, and a wire that
  takes \<open>cap\<close> frames until the other end reads. The loop only reads the wire when it does not wait
  for the writer's queue. Streams obey the flow control of \<open>Ws_Credit\<close>.
\<close>

datatype bp_frame = Data u64 nat | Credit u64 u64 | Ping | Pong

text \<open>
  One end: besides the queues, for every stream what its pump has sent without credit, what the
  reader keeps for the next credit, and the delivered bytes the application has not read.
\<close>

record bp_end =
  be_cmds :: "bp_frame list"
  be_held :: "bp_frame option"
  be_out :: "bp_frame list"
  be_writing :: "bp_frame option"
  be_outstanding :: "u64 \<Rightarrow> u64"
  be_pending :: "u64 \<Rightarrow> u64"
  be_inbox :: "u64 \<Rightarrow> nat"

definition end_init :: bp_end where
  "end_init =
     \<lparr>be_cmds = [], be_held = None, be_out = [], be_writing = None,
      be_outstanding = (\<lambda>sid. 0), be_pending = (\<lambda>sid. 0), be_inbox = (\<lambda>sid. 0)\<rparr>"

text \<open>
  The actions of the tasks of one end:
  \<^item> \<open>Pump sid n\<close>: with the window open, \<open>pump_stream\<close> queues \<open>n\<close> bytes as a command;
  \<^item> \<open>App_read sid n\<close>: the application reads, and \<open>CreditReader\<close> may queue a credit;
  \<^item> \<open>Take\<close>, \<open>Hand_over\<close>: \<open>run\<close> receives a command; the writer's queue takes its frame;
  \<^item> \<open>Write_start\<close>, \<open>Write_done\<close>: the writer takes a frame; the wire takes it;
  \<^item> \<open>Receive\<close>: \<open>run\<close> handles the next frame from the wire, and waits to answer a ping;
  \<^item> \<open>Tick\<close>: every 30 seconds \<open>run\<close> sends a ping.
\<close>

datatype end_action = Pump u64 nat | App_read u64 nat | Take | Hand_over | Write_start | Write_done | Receive | Tick

fun end_step ::
  "nat \<Rightarrow> end_action \<Rightarrow> bp_end \<times> bp_frame list \<times> bp_frame list
     \<Rightarrow> (bp_end \<times> bp_frame list \<times> bp_frame list) option" where
  "end_step cap (Pump sid n) (e, wout, win) =
     (if window_open (be_outstanding e sid) \<and> 0 < n \<and> n \<le> PUMP_BUFFER \<and> length (be_cmds e) < OUTBOUND_QUEUE
      then Some (e\<lparr>be_cmds := be_cmds e @ [Data sid n],
                   be_outstanding := (be_outstanding e)(sid := credit_sent (be_outstanding e sid) (of_nat n))\<rparr>, wout, win)
      else None)"
| "end_step cap (App_read sid n) (e, wout, win) =
     (if 0 < n \<and> n \<le> PIPE_SIZE \<and> n \<le> be_inbox e sid
      then (let (pending, frame) = credit_poll (be_pending e sid) (of_nat n) (length (be_cmds e) < OUTBOUND_QUEUE)
            in Some (e\<lparr>be_inbox := (be_inbox e)(sid := be_inbox e sid - n),
                       be_pending := (be_pending e)(sid := pending),
                       be_cmds := be_cmds e @ (case frame of None \<Rightarrow> [] | Some amt \<Rightarrow> [Credit sid amt])\<rparr>, wout, win))
      else None)"
| "end_step cap Take (e, wout, win) =
     (case (be_held e, be_cmds e) of
        (None, f # fs) \<Rightarrow> Some (e\<lparr>be_held := Some f, be_cmds := fs\<rparr>, wout, win)
      | _ \<Rightarrow> None)"
| "end_step cap Hand_over (e, wout, win) =
     (case be_held e of
        None \<Rightarrow> None
      | Some f \<Rightarrow>
          if length (be_out e) < OUTBOUND_QUEUE
          then Some (e\<lparr>be_held := None, be_out := be_out e @ [f]\<rparr>, wout, win) else None)"
| "end_step cap Write_start (e, wout, win) =
     (case (be_writing e, be_out e) of
        (None, f # fs) \<Rightarrow> Some (e\<lparr>be_writing := Some f, be_out := fs\<rparr>, wout, win)
      | _ \<Rightarrow> None)"
| "end_step cap Write_done (e, wout, win) =
     (case be_writing e of
        None \<Rightarrow> None
      | Some f \<Rightarrow> if length wout < cap then Some (e\<lparr>be_writing := None\<rparr>, wout @ [f], win) else None)"
| "end_step cap Receive (e, wout, win) =
     (case (be_held e, win) of
        (None, f # fs) \<Rightarrow>
          Some (case f of
              Data sid n \<Rightarrow> e\<lparr>be_inbox := (be_inbox e)(sid := be_inbox e sid + n)\<rparr>
            | Credit sid amt \<Rightarrow>
                e\<lparr>be_outstanding := (be_outstanding e)(sid := credit_grant (be_outstanding e sid) amt)\<rparr>
            | Ping \<Rightarrow> e\<lparr>be_held := Some Pong\<rparr>
            | Pong \<Rightarrow> e, wout, fs)
      | _ \<Rightarrow> None)"
| "end_step cap Tick (e, wout, win) =
     (case be_held e of None \<Rightarrow> Some (e\<lparr>be_held := Some Ping\<rparr>, wout, win) | Some _ \<Rightarrow> None)"

text \<open>The connection: two ends and the wires from \<open>A\<close> to \<open>B\<close> and back.\<close>

datatype side = A | B

type_synonym bp_conn = "bp_end \<times> bp_end \<times> bp_frame list \<times> bp_frame list"

fun conn_step :: "nat \<Rightarrow> side \<times> end_action \<Rightarrow> bp_conn \<Rightarrow> bp_conn option" where
  "conn_step cap (A, act) (a, b, ab, ba) =
     map_option (\<lambda>(a, ab, ba). (a, b, ab, ba)) (end_step cap act (a, ab, ba))"
| "conn_step cap (B, act) (a, b, ab, ba) =
     map_option (\<lambda>(b, ba, ab). (a, b, ab, ba)) (end_step cap act (b, ba, ab))"

fun conn_run :: "nat \<Rightarrow> (side \<times> end_action) list \<Rightarrow> bp_conn \<Rightarrow> bp_conn option" where
  "conn_run cap [] s = Some s"
| "conn_run cap (act # acts) s = (case conn_step cap act s of None \<Rightarrow> None | Some s \<Rightarrow> conn_run cap acts s)"

definition conn_init :: bp_conn where
  "conn_init = (end_init, end_init, [], [])"

subsection \<open>Jammed ends\<close>

text \<open>An end whose loop waits for its writer and whose writer waits for the wire.\<close>

definition jammed :: "nat \<Rightarrow> bp_end \<Rightarrow> bp_frame list \<Rightarrow> bool" where
  "jammed cap e wout \<longleftrightarrow>
     be_held e \<noteq> None \<and> length (be_out e) = OUTBOUND_QUEUE \<and> be_writing e \<noteq> None \<and> length wout = cap"

fun only_local :: "side \<times> end_action \<Rightarrow> bool" where
  "only_local (x, Pump sid n) \<longleftrightarrow> True"
| "only_local (x, App_read sid n) \<longleftrightarrow> True"
| "only_local (x, _) \<longleftrightarrow> False"

text \<open>Two jammed ends stay jammed, and only pumps and applications still act.\<close>

lemma jammed_step:
  assumes "jammed cap a ab" "jammed cap b ba" "conn_step cap act (a, b, ab, ba) = Some s"
  shows "\<exists>a' b'. s = (a', b', ab, ba) \<and> jammed cap a' ab \<and> jammed cap b' ba \<and> only_local act"
proof -
  obtain x ev where act: "act = (x, ev)" by (cases act)
  from assms show ?thesis
    unfolding act by (cases x; cases ev) (auto simp: jammed_def Let_def split_beta split: option.splits if_splits list.splits)
qed

lemma jammed_run:
  "jammed cap a ab \<Longrightarrow> jammed cap b ba \<Longrightarrow> conn_run cap acts (a, b, ab, ba) = Some s \<Longrightarrow>
   (\<exists>a' b'. s = (a', b', ab, ba)) \<and> list_all only_local acts"
proof (induction acts arbitrary: a b)
  case (Cons act acts)
  from Cons.prems(3) obtain s1 where 1: "conn_step cap act (a, b, ab, ba) = Some s1" "conn_run cap acts s1 = Some s"
    by (auto split: option.splits)
  from jammed_step [OF Cons.prems(1,2) 1(1)] 1(2) Cons.IH show ?case by auto
qed auto

subsection \<open>Filling one end\<close>

fun end_run ::
  "nat \<Rightarrow> end_action list \<Rightarrow> bp_end \<times> bp_frame list \<times> bp_frame list
     \<Rightarrow> (bp_end \<times> bp_frame list \<times> bp_frame list) option" where
  "end_run cap [] s = Some s"
| "end_run cap (act # acts) s = (case end_step cap act s of None \<Rightarrow> None | Some s \<Rightarrow> end_run cap acts s)"

lemma end_run_append:
  "end_run cap (xs @ ys) s = (case end_run cap xs s of None \<Rightarrow> None | Some s \<Rightarrow> end_run cap ys s)"
  by (induction xs arbitrary: s) (simp_all split: option.split)

lemma end_run_seq: "end_run cap xs s = Some s' \<Longrightarrow> end_run cap (xs @ ys) s = end_run cap ys s'"
  by (simp add: end_run_append)

lemma conn_run_append:
  "conn_run cap (xs @ ys) s = (case conn_run cap xs s of None \<Rightarrow> None | Some s \<Rightarrow> conn_run cap ys s)"
  by (induction xs arbitrary: s) (simp_all split: option.split)

lemma conn_run_A:
  "conn_run cap (map (Pair A) acts) (a, b, ab, ba) =
     map_option (\<lambda>(a, ab, ba). (a, b, ab, ba)) (end_run cap acts (a, ab, ba))"
  by (induction acts arbitrary: a ab ba) (auto split: option.splits)

lemma conn_run_B:
  "conn_run cap (map (Pair B) acts) (a, b, ab, ba) =
     map_option (\<lambda>(b, ba, ab). (a, b, ab, ba)) (end_run cap acts (b, ba, ab))"
  by (induction acts arbitrary: b ab ba) (auto split: option.splits)

text \<open>
  The pumps send whole buffers, 16 per stream, which is a stream's window; \<open>spent k\<close> is what the
  streams have sent after \<open>k\<close> buffers.
\<close>

definition spent :: "nat \<Rightarrow> u64 \<Rightarrow> u64" where
  "spent k sid = of_nat (min 16 (k - 16 * unat sid) * PUMP_BUFFER)"

lemma spent_0: "spent 0 = (\<lambda>sid. 0)"
  by (simp add: spent_def fun_eq_iff)

lemma spent_Suc:
  assumes "k < 2 ^ 32"
  defines "sid \<equiv> of_nat (k div 16)"
  shows "window_open (spent k sid)"
    and "(spent k)(sid := credit_sent (spent k sid) (of_nat PUMP_BUFFER)) = spent (Suc k)"
proof -
  have u: "unat sid = k div 16" unfolding sid_def using assms(1) by (subst unat_of_nat_small) simp_all
  have r: "k - 16 * (k div 16) = k mod 16" by (simp add: minus_mult_div_eq_mod)
  have m: "k mod 16 < 16" by simp
  have s: "spent k sid = of_nat (k mod 16 * PUMP_BUFFER)" by (simp add: spent_def u r min_absorb2 less_imp_le)
  have "unat (spent k sid) = k mod 16 * PUMP_BUFFER"
    unfolding s using m by (subst unat_of_nat_small) (simp_all add: code_consts)
  then show "window_open (spent k sid)"
    using m by (simp add: window_open_def word_less_nat_alt code_consts)
  show "(spent k)(sid := credit_sent (spent k sid) (of_nat PUMP_BUFFER)) = spent (Suc k)"
  proof (rule ext)
    fix x
    have "min 16 (Suc k - 16 * unat x) = min 16 (k - 16 * unat x)" if "x \<noteq> sid"
    proof -
      from that u have "unat x \<noteq> k div 16" by (metis word_unat_eq_iff)
      then show ?thesis by auto
    qed
    moreover have "min 16 (Suc k - 16 * unat sid) = Suc (k mod 16)" "min 16 (k - 16 * unat sid) = k mod 16"
      using m by (simp_all add: u r Suc_diff_le)
    ultimately show "((spent k)(sid := credit_sent (spent k sid) (of_nat PUMP_BUFFER))) x = spent (Suc k) x"
      by (simp add: spent_def credit_sent_def algebra_simps)
  qed
qed

text \<open>One more buffer on its way to the writer.\<close>

definition ready :: "nat \<Rightarrow> bp_end \<Rightarrow> bool" where
  "ready k e \<longleftrightarrow> be_cmds e = [] \<and> be_held e = None \<and> be_outstanding e = spent k"

definition push :: "nat \<Rightarrow> end_action list" where
  "push k = [Pump (of_nat (k div 16)) PUMP_BUFFER, Take]"

lemma run_push:
  assumes "ready k e" "k < 2 ^ 32"
  shows "end_run cap (push k) (e, wout, win) =
    Some (e\<lparr>be_held := Some (Data (of_nat (k div 16)) PUMP_BUFFER), be_outstanding := spent (Suc k)\<rparr>, wout, win)"
  using assms spent_Suc [OF assms(2)]
  by (simp add: push_def ready_def) (simp add: code_consts)

lemma fill_wire:
  "n \<le> cap \<Longrightarrow> n < 2 ^ 32 \<Longrightarrow>
   \<exists>acts e wout. end_run cap acts (end_init, [], win) = Some (e, wout, win) \<and> ready n e \<and>
     be_out e = [] \<and> be_writing e = None \<and> length wout = n"
proof (induction n)
  case 0
  show ?case
    by (intro exI [of _ "[]"]) (simp add: ready_def end_init_def spent_0)
next
  case (Suc n)
  then obtain acts e wout where e: "end_run cap acts (end_init, [], win) = Some (e, wout, win)" "ready n e"
    "be_out e = []" "be_writing e = None" "length wout = n" by auto
  let ?acts = "acts @ push n @ [Hand_over, Write_start, Write_done]"
  have "n < 2 ^ 32" "n < cap" using Suc.prems by simp_all
  then show ?case
    using e run_push [OF e(2)]
    by (intro exI [of _ ?acts]) (simp add: end_run_append ready_def OUTBOUND_QUEUE_def)
qed

lemma fill_queue:
  "n \<le> OUTBOUND_QUEUE \<Longrightarrow> k + n < 2 ^ 32 \<Longrightarrow> ready k e \<Longrightarrow> be_out e = [] \<Longrightarrow> be_writing e = Some f \<Longrightarrow>
   \<exists>acts e'. end_run cap acts (e, wout, win) = Some (e', wout, win) \<and> ready (k + n) e' \<and>
     length (be_out e') = n \<and> be_writing e' = Some f"
proof (induction n)
  case 0
  then show ?case by (intro exI [of _ "[]"]) simp
next
  case (Suc n)
  then obtain acts e' where e: "end_run cap acts (e, wout, win) = Some (e', wout, win)" "ready (k + n) e'"
    "length (be_out e') = n" "be_writing e' = Some f" by auto
  have "k + n < 2 ^ 32" "n < OUTBOUND_QUEUE" using Suc.prems by simp_all
  then show ?case
    using e run_push [OF e(2)]
    by (intro exI [of _ "acts @ push (k + n) @ [Hand_over]"]) (simp add: end_run_append ready_def)
qed

lemma fill_end:
  assumes "cap < 2 ^ 31"
  shows "\<exists>acts e wout. end_run cap acts (end_init, [], win) = Some (e, wout, win) \<and> jammed cap e wout"
proof -
  obtain acts1 e1 wout where 1: "end_run cap acts1 (end_init, [], win) = Some (e1, wout, win)" "ready cap e1"
    "be_out e1 = []" "be_writing e1 = None" "length wout = cap"
    using fill_wire [of cap cap win] assms by auto
  let ?e2 = "e1\<lparr>be_writing := Some (Data (of_nat (cap div 16)) PUMP_BUFFER), be_outstanding := spent (Suc cap)\<rparr>"
  have 2: "end_run cap (push cap @ [Hand_over, Write_start]) (e1, wout, win) = Some (?e2, wout, win)"
    using 1 run_push [OF 1(2)] assms by (simp add: end_run_append ready_def OUTBOUND_QUEUE_def)
  have "ready (Suc cap) ?e2" using 1(2) by (simp add: ready_def)
  then obtain acts3 e3 where 3: "end_run cap acts3 (?e2, wout, win) = Some (e3, wout, win)"
    "ready (Suc cap + OUTBOUND_QUEUE) e3" "length (be_out e3) = OUTBOUND_QUEUE" "be_writing e3 \<noteq> None"
    using fill_queue [of OUTBOUND_QUEUE "Suc cap" ?e2 _ cap wout win] 1(3) assms
    by (auto simp: OUTBOUND_QUEUE_def)
  have "Suc cap + OUTBOUND_QUEUE < 2 ^ 32" using assms by (simp add: OUTBOUND_QUEUE_def)
  from run_push [OF 3(2) this, of cap wout win]
  have "end_run cap (acts1 @ (push cap @ [Hand_over, Write_start]) @ acts3 @ push (Suc cap + OUTBOUND_QUEUE))
      (end_init, [], win) = Some (e3\<lparr>be_held := Some (Data (of_nat ((Suc cap + OUTBOUND_QUEUE) div 16)) PUMP_BUFFER),
        be_outstanding := spent (Suc (Suc cap + OUTBOUND_QUEUE))\<rparr>, wout, win)"
    by (simp only: end_run_seq [OF 1(1)] end_run_seq [OF 2] end_run_seq [OF 3(1)])
  then show ?thesis
    using 1(5) 3(3,4) by (intro exI conjI) (assumption, simp add: jammed_def)
qed

subsection \<open>Properties\<close>

text \<open>
  (C30) The two ends of a connection can lock each other up for ever, although every stream stays
  within its window: whatever number of frames the wire takes, there is a run after which no loop
  ever handles a frame again, takes a command or sends a ping, and neither writer makes progress,
  whatever happens. A full writer's queue does stop the handling of incoming frames.
\<close>

theorem ends_can_deadlock:
  assumes "cap < 2 ^ 31"
  shows "\<exists>acts s. conn_run cap acts conn_init = Some s \<and>
    (\<forall>acts' s'. conn_run cap acts' s = Some s' \<longrightarrow> list_all only_local acts' \<and> snd (snd s') = snd (snd s))"
proof -
  obtain acts1 a ab where 1: "end_run cap acts1 (end_init, [], []) = Some (a, ab, [])" "jammed cap a ab"
    using fill_end [OF assms] by blast
  obtain acts2 b ba where 2: "end_run cap acts2 (end_init, [], ab) = Some (b, ba, ab)" "jammed cap b ba"
    using fill_end [OF assms] by blast
  have "conn_run cap (map (Pair A) acts1 @ map (Pair B) acts2) conn_init = Some (a, b, ab, ba)"
    by (simp add: conn_run_append conn_run_A conn_run_B conn_init_def 1(1) 2(1))
  with jammed_run [OF 1(2) 2(2)] show ?thesis by fastforce
qed

theorem ends_can_deadlock_witness:
  "\<exists>acts s. conn_run 100 acts conn_init = Some s \<and>
    (\<forall>acts' s'. conn_run 100 acts' s = Some s' \<longrightarrow> list_all only_local acts' \<and> snd (snd s') = snd (snd s))"
  by (rule ends_can_deadlock) simp

end
