(* ===== verification/Ws_Capture.thy ===== *)
theory Ws_Capture
  imports Ws_Masked
begin

section \<open>What the obfuscation does not stop\<close>

text \<open>
  The replay window of \<open>src/crates/hydr-core/src/obfuscation.rs\<close> belongs to one obfuscator, and every
  connection of \<open>src/crates/hydr-transport/src/ws.rs\<close> starts with a new one from the same secret, the
  same for both directions. On its own connection a message is accepted once (\<open>Ws_Progress\<close>); here it is
  sent to another connection, and back to its sender, by somebody who does not know the secret.
\<close>

subsection \<open>A recorded session\<close>

text \<open>What \<open>writer\<close> puts on the wire for a list of frames, one salt each.\<close>

definition session_items :: "(bytes \<times> frame) list \<Rightarrow> (bytes option \<times> out_msg \<times> bool) list" where
  "session_items items = map (\<lambda>(salt, f). (Some salt, OutFrame f, True)) items"

lemma writer_sealed:
  assumes b: "blake3_lengths hash keyed"
  shows "sends hash secret n ob \<Longrightarrow> \<forall>(salt, f) \<in> set items. length salt = SALT_LEN \<Longrightarrow>
    \<exists>raws ob'. writer hash keyed ob (session_items items) = Ok (map SinkBinary raws, ob') \<and>
      sealed_all hash keyed secret n (map snd items) raws"
proof (induction items arbitrary: n ob)
  case Nil
  then show ?case by (simp add: session_items_def)
next
  case (Cons x items)
  obtain salt f where x: "x = (salt, f)" by (cases x)
  obtain raw ob1 where 1: "write_next hash keyed salt ob f = Some (raw, ob1)"
    "sealed hash keyed secret n (encode_frame [] f) raw" "sends hash secret (Suc n) ob1"
    by (rule write_next_sealed [OF b Cons.prems(1), of salt f]) (use Cons.prems(2) in \<open>auto simp: x\<close>)
  from 1(1) have s: "sink_message_of hash keyed (Some salt) ob (OutFrame f) = Ok (SinkBinary raw, ob1)"
    by (auto simp: write_next_def sink_message_of_def split: sum.splits)
  from Cons.IH [OF 1(3)] Cons.prems(2) obtain raws ob' where
    "writer hash keyed ob1 (session_items items) = Ok (map SinkBinary raws, ob')"
    "sealed_all hash keyed secret (Suc n) (map snd items) raws" by auto
  with s 1(2) show ?case
    by (intro exI [of _ "raw # raws"] exI [of _ ob']) (simp add: x session_items_def)
qed

text \<open>A loop that takes the messages in order does what the frames say.\<close>

lemma session_taken:
  assumes b: "blake3_lengths hash keyed"
  shows "receives hash secret n (rs_ob st) \<Longrightarrow> sealed_all hash keyed secret n fs raws \<Longrightarrow> n + length fs \<le> 2 ^ 64 \<Longrightarrow>
    \<forall>f \<in> set fs. traffic f \<or> request_frame f \<Longrightarrow> wc_sessions (rs_conn st) = None \<Longrightarrow>
    \<exists>effs st'. run_loop hash keyed auth (arrivals (map SinkBinary raws)) st = Ok (True, effs, st') \<and>
      asked_streams effs = on_wire open_request fs"
proof (induction fs arbitrary: n raws st)
  case Nil
  then show ?case by (cases raws) (simp_all add: arrivals_def)
next
  case (Cons f fs)
  from Cons.prems(2) obtain raw raws' where r: "raws = raw # raws'" "sealed hash keyed secret n (encode_frame [] f) raw"
    "sealed_all hash keyed secret (Suc n) fs raws'" by (cases raws) simp_all
  have n: "n < 2 ^ 64" using Cons.prems(3) by simp
  obtain ob' where ob: "inbound_message hash keyed (rs_metrics st) (rs_ob st) raw = Ok (InFrame (encode_frame [] f), rs_metrics st, ob')"
    "receives hash secret (Suc n) ob'"
    by (rule sealed_arrives [OF b Cons.prems(1) n r(2), of "rs_metrics st"])
  obtain res effs v conn where d: "dispatch_frame auth True (rs_validator st) (rs_conn st) f = (res, effs, v, conn)"
    by (cases "dispatch_frame auth True (rs_validator st) (rs_conn st) f")
  have f: "traffic f \<or> request_frame f" using Cons.prems(4) by simp
  then have t: "res = Ok () \<and> wf_frame f \<and> wc_sessions conn = None \<and> asked_streams effs = open_request f"
  proof
    assume "traffic f"
    with dispatch_traffic [OF this d] Cons.prems(5) show ?thesis by simp (simp add: traffic_def)
  next
    assume r: "request_frame f"
    with dispatch_request [OF r Cons.prems(5), of auth True "rs_validator st"] d Cons.prems(5) show ?thesis
      by auto (simp_all add: request_frame_def)
  qed
  let ?st = "st\<lparr>rs_metrics := rs_metrics st, rs_ob := ob', rs_validator := v, rs_conn := conn\<rparr>"
  from t frame_codec.decode_encode [OF _ length_encode_frame, of f] d
  have h: "handle_frame auth True (rs_validator st) (rs_conn st) (encode_frame [] f) = (Ok (), effs, v, conn)"
    by (simp add: handle_frame_def)
  have "run_step hash keyed auth True True (Incoming (Some (Binary raw))) st = Ok (True, effs, ?st)"
    by (simp add: run_step_def run_incoming_def ob(1) h Let_def)
  moreover from Cons.IH [of "Suc n" ?st raws'] ob(2) r(3) Cons.prems t obtain effs' st' where
    "run_loop hash keyed auth (arrivals (map SinkBinary raws')) ?st = Ok (True, effs', st')"
    "asked_streams effs' = on_wire open_request fs" by auto
  ultimately show ?case
    using t by (simp add: r(1) arrivals_def received_def)
qed

text \<open>The login message of a session, at a server that starts.\<close>

lemma login_taken:
  assumes b: "blake3_lengths hash keyed" and wf: "wf_auth_request req" "length (encode_auth_request [] req) \<le> MAX_BODY_LEN"
    and s: "sealed hash keyed secret 0 (encode_frame [] (frame_new 0 FRAME_AUTH_REQUEST (encode_auth_request [] req))) raw"
    and vd: "vd v req = (Ok resp, v')"
  shows "\<exists>answer st. run_step hash keyed (Some vd) True True (Incoming (Some (Binary raw)))
      \<lparr>rs_conn = server_conn False, rs_ob = fresh_obfuscation hash secret, rs_metrics = metrics_new, rs_validator = v\<rparr> =
        Ok (True, [AuthDone req, Queue (OutFrame answer)], st) \<and>
      receives hash secret 1 (rs_ob st) \<and> wc_sessions (rs_conn st) = None"
proof -
  let ?f = "frame_new 0 FRAME_AUTH_REQUEST (encode_auth_request [] req)"
  obtain ob where ob: "inbound_message hash keyed metrics_new (fresh_obfuscation hash secret) raw =
      Ok (InFrame (encode_frame [] ?f), metrics_new, ob)" "receives hash secret (Suc 0) ob"
    by (rule sealed_arrives [OF b receives_fresh _ s, of metrics_new]) simp
  have req: "decode_auth_request (encode_auth_request [] req) = Ok (req, length (encode_auth_request [] req))"
    by (rule auth_request_codec.decode_encode [OF wf(1) body_isize [OF wf(2)]])
  show ?thesis
    using login_frame [OF wf(2), of FRAME_AUTH_REQUEST] req ob(2)
    by (simp add: run_step_def run_incoming_def ob(1) handle_frame_def dispatch_frame_def handle_auth_request_def
        on_result_def register_auth_def send_auth_response_def queue_frame_def vd server_conn_def run_init_def
        frame_new_def code_consts Let_def)
qed

text \<open>
  (C32) Whoever has recorded what a client sent on an obfuscated connection can send it to the server again on
  a new connection, without the secret or the password: nothing is dropped as a replay. The nonce
  check refuses the recorded login, but the tunnel is served all the same
  (\<open>Server_Tunnels.ws_login_not_enforced\<close>), and the server is asked to open every stream again that
  the client had opened.
\<close>

theorem captured_session_served:
  assumes "blake3_lengths hash keyed"
    and "writer hash keyed (fresh_obfuscation hash secret)
      (session_items ((salt, frame_new 0 FRAME_AUTH_REQUEST (encode_auth_request [] req)) # items)) = Ok (msgs, ob)"
    and "length salt = SALT_LEN" and "\<forall>(salt, f) \<in> set items. length salt = SALT_LEN \<and> (traffic f \<or> request_frame f)"
    and "length items < 2 ^ 63" and "wf_auth_request req" and "length (encode_auth_request [] req) \<le> MAX_BODY_LEN"
  shows "\<exists>effs st. run_loop hash keyed (Some (\<lambda>(m, self) r. validate derive keyed now m self r)) (arrivals msgs)
      \<lparr>rs_conn = server_conn False, rs_ob = fresh_obfuscation hash secret, rs_metrics = metrics_new,
       rs_validator = (m, self)\<rparr> = Ok (True, effs, st) \<and>
    accept_outcome effs = Some req \<and> asked_streams effs = on_wire open_request (map snd items)"
proof -
  let ?f = "frame_new 0 FRAME_AUTH_REQUEST (encode_auth_request [] req)"
  let ?vd = "\<lambda>(m, self) r. validate derive keyed now m self r"
  have "\<forall>(salt, f) \<in> set ((salt, ?f) # items). length salt = SALT_LEN" using assms(3,4) by auto
  from writer_sealed [OF assms(1) sends_fresh this, of secret] assms(2) obtain raws where
    msgs: "msgs = map SinkBinary raws" and all: "sealed_all hash keyed secret 0 (?f # map snd items) raws" by auto
  then obtain raw raws' where r: "raws = raw # raws'" "sealed hash keyed secret 0 (encode_frame [] ?f) raw"
    "sealed_all hash keyed secret (Suc 0) (map snd items) raws'" by (cases raws) auto
  obtain resp m' self' where v: "?vd (m, self) req = (Ok resp, (m', self'))" using validate_returns by fastforce
  from login_taken [where vd = ?vd and v = "(m, self)", OF assms(1,6,7) r(2) v] obtain answer st where
    1: "run_step hash keyed (Some ?vd) True True (Incoming (Some (Binary raw)))
      \<lparr>rs_conn = server_conn False, rs_ob = fresh_obfuscation hash secret, rs_metrics = metrics_new,
       rs_validator = (m, self)\<rparr> = Ok (True, [AuthDone req, Queue (OutFrame answer)], st)"
    "receives hash secret 1 (rs_ob st)" "wc_sessions (rs_conn st) = None" by blast
  have "receives hash secret (Suc 0) (rs_ob st)" "Suc 0 + length (map snd items) \<le> 2 ^ 64"
    "\<forall>f \<in> set (map snd items). traffic f \<or> request_frame f" using 1(2) assms(4,5) by auto
  from session_taken [OF assms(1) this(1) r(3) this(2,3) 1(3)] obtain effs st' where
    "run_loop hash keyed (Some ?vd) (arrivals (map SinkBinary raws')) st = Ok (True, effs, st')"
    "asked_streams effs = on_wire open_request (map snd items)" by blast
  with 1(1) show ?thesis by (simp add: msgs r(1) arrivals_def received_def)
qed

theorem captured_session_served_witness:
  "let hash = (\<lambda>m. replicate 32 3); keyed = (\<lambda>k m. replicate 32 7); salt = replicate 8 5;
       open = frame_new 1 FRAME_OPEN_STREAM (encode_open_stream [] \<lparr>os_address = Ip (V4 9) 80\<rparr>)
   in \<exists>msgs ob. writer hash keyed (fresh_obfuscation hash (Some [1]))
       (session_items [(salt, frame_new 0 FRAME_AUTH_REQUEST (encode_auth_request [] sample_auth)), (salt, open)]) =
         Ok (msgs, ob) \<and>
     (\<forall>derive now m self. \<exists>effs st. run_loop hash keyed (Some (\<lambda>(m, self) r. validate derive keyed now m self r)) (arrivals msgs)
        \<lparr>rs_conn = server_conn False, rs_ob = fresh_obfuscation hash (Some [1]), rs_metrics = metrics_new,
         rs_validator = (m, self)\<rparr> = Ok (True, effs, st) \<and>
      accept_outcome effs = Some sample_auth \<and> asked_streams effs = [(1, Ip (V4 9) 80)])"
proof -
  let ?hash = "\<lambda>m :: bytes. replicate 32 3 :: bytes" and ?keyed = "\<lambda>k m :: bytes. replicate 32 7 :: bytes"
  let ?salt = "replicate 8 5 :: bytes"
  let ?open = "frame_new 1 FRAME_OPEN_STREAM (encode_open_stream [] \<lparr>os_address = Ip (V4 9) 80\<rparr>)"
  let ?login = "frame_new 0 FRAME_AUTH_REQUEST (encode_auth_request [] sample_auth)"
  have b: "blake3_lengths ?hash ?keyed" and salt: "length ?salt = SALT_LEN"
    by (simp_all add: blake3_lengths_def code_consts)
  have wf: "wf_auth_request sample_auth" by (simp add: wf_auth_request_def sample_auth_def)
  have len: "length (encode_auth_request [] sample_auth) \<le> MAX_BODY_LEN"
    using sample_lengths(1) by (simp add: code_consts)
  have "(1 :: u64) < 2 ^ 62" by simp
  note f = request_frame_new [OF small_actions_ok(1) [of 0] this]
  have ok: "\<forall>(salt, f) \<in> set [(?salt, ?open)]. length salt = SALT_LEN \<and> (traffic f \<or> request_frame f)"
    and few: "length [(?salt, ?open)] < 2 ^ 63"
    using salt f(2) by simp_all
  have "\<forall>(salt, f) \<in> set [(?salt, ?login), (?salt, ?open)]. length salt = SALT_LEN" using salt by simp
  from writer_sealed [OF b sends_fresh this, of "Some [1]"] obtain raws ob where
    w: "writer ?hash ?keyed (fresh_obfuscation ?hash (Some [1])) (session_items [(?salt, ?login), (?salt, ?open)]) =
      Ok (map SinkBinary raws, ob)" by blast
  note served = captured_session_served [OF b w salt ok few wf len, unfolded list.map on_wire_simps snd_conv f(1) append.simps]
  show ?thesis unfolding Let_def by (intro exI [of _ "map SinkBinary raws"] exI [of _ ob] conjI allI w served)
qed

subsection \<open>A reflected message\<close>

text \<open>
  Both directions of a connection use the same key and count from 0. A message the client has sent
  is taken by the client itself when it comes back: a request to open a stream is one of the server
  then. And it spends the number, so the genuine message of the server with that number is dropped
  as a replay, whatever it is.
\<close>

theorem reflected_message_taken:
  assumes "blake3_lengths hash keyed" and "length salt = SALT_LEN" and "request_frame f"
    and "receives hash (Some key) n (rs_ob st)" and "n < 2 ^ 64" and "wc_sessions (rs_conn st) = None"
    and "sends hash (Some key) n client_ob"
    and "outbound_message hash keyed (Some salt) client_ob f = Ok (own, ob)"
    and "sealed hash keyed (Some key) n buf theirs"
  shows "\<exists>sid addr pipe st1 m.
    run_step hash keyed (None :: unit validator option) True room (Incoming (Some (Binary own))) st =
      Ok (True, [Event (WsOpen sid addr pipe)], st1) \<and> open_request f = [(sid, addr)] \<and>
    run_step hash keyed (None :: unit validator option) True room (Incoming (Some (Binary theirs))) st1 =
      Ok (True, [], st1\<lparr>rs_metrics := m\<rparr>)"
proof -
  have "write_next hash keyed salt client_ob f = Some (own, ob)"
    using assms(8) by (simp add: write_next_def sink_message_of_def)
  with write_next_sealed [OF assms(1,7,2), of f] have own: "sealed hash keyed (Some key) n (encode_frame [] f) own"
    by auto
  obtain ob' where ob: "inbound_message hash keyed (rs_metrics st) (rs_ob st) own =
      Ok (InFrame (encode_frame [] f), rs_metrics st, ob')" "receives hash (Some key) (Suc n) ob'" "spent_number ob' n"
    by (rule sealed_arrives [OF assms(1,4,5) own, of "rs_metrics st"]) simp
  from dispatch_request [OF assms(3,6)] obtain sid addr where d: "open_request f = [(sid, addr)]"
    "dispatch_frame (None :: unit validator option) True (rs_validator st) (rs_conn st) f =
      (Ok (), [Event (WsOpen sid addr (wc_pipes (rs_conn st)))], rs_validator st,
       (rs_conn st)\<lparr>wc_pipes := wc_pipes (rs_conn st) + 1\<rparr>)" by metis
  have wf: "wf_frame f" using assms(3) by (simp add: request_frame_def)
  let ?st = "st\<lparr>rs_ob := ob', rs_conn := (rs_conn st)\<lparr>wc_pipes := wc_pipes (rs_conn st) + 1\<rparr>\<rparr>"
  have "run_step hash keyed (None :: unit validator option) True room (Incoming (Some (Binary own))) st =
      Ok (True, [Event (WsOpen sid addr (wc_pipes (rs_conn st)))], ?st)"
    using d(2) frame_codec.decode_encode [OF wf length_encode_frame [OF wf]]
    by (simp add: run_step_def run_incoming_def ob(1) handle_frame_def Let_def)
  moreover obtain m where "inbound_message hash keyed (rs_metrics ?st) (rs_ob ?st) theirs = Ok (InDrop, m, rs_ob ?st)"
    by (rule sealed_again [OF assms(1), of "Some key" "Suc n" "rs_ob ?st"]) (use ob assms(9) in simp_all)
  then have "run_step hash keyed (None :: unit validator option) True room (Incoming (Some (Binary theirs))) ?st =
      Ok (True, [], ?st\<lparr>rs_metrics := m\<rparr>)"
    by (simp add: run_step_def run_incoming_def Let_def)
  ultimately show ?thesis using d(1) by blast
qed

end
