(* ===== verification/Udp_Path.thy ===== *)
theory Udp_Path
  imports Udp_Relay Udp_Manager Quic_Transport
begin

section \<open>A UDP packet and its answer, end to end\<close>

text \<open>
  The way of a packet from an application through the client's \<open>UdpRelay\<close>, a QUIC datagram and the
  server's \<open>UdpManager\<close> to the target, and of the answer back. The parts are the operations of
  \<open>Udp_Relay\<close>, \<open>Quic_Transport\<close> and \<open>Udp_Manager\<close>, composed here as the two programs compose them.
\<close>

text \<open>
  A datagram through the tunnel: what the sender gives to quinn is what the receiver reads, if the
  connection delivers it at all.
\<close>

definition through_tunnel :: "datagram \<Rightarrow> datagram result" where
  "through_tunnel dg = quic_recv_datagram (Inr (encode_datagram [] dg))"

lemma through_tunnel_same:
  assumes "wf_address (dg_address dg)" "length (encode_datagram [] dg) \<le> isize_max"
  shows "through_tunnel dg = Ok dg"
  using assms datagram_codec.decode_encode [of dg]
  by (simp add: through_tunnel_def quic_recv_datagram_def wf_datagram_def)

text \<open>A session opened by its first packet: the socket it gets, and the task that serves the answers.\<close>

lemma forward_opens_session:
  assumes "fmlookup (um_sessions mgr) (ip, dg_session_id dg) = None"
    and "map_len (um_sessions mgr) < um_max_sessions mgr" "get_or_0 (um_per_ip mgr) ip < um_max_per_ip mgr"
    and "resolve_target lookup_host (dg_address dg) = Ok target" "send_to sock (dg_payload dg) target = Ok ()"
  shows "\<exists>m' mgr'. forward_datagram now (Ok sock) lookup_host send_to m mgr up ip dg =
    (Ok (), Some \<lparr>rt_socket = sock, rt_upstream = up, rt_sid = dg_session_id dg\<rparr>, None, m', mgr')"
  using assms by (simp add: forward_datagram_def udp_acquire_def Let_def)

text \<open>
  (C7) The first UDP packet of an association reaches its target over a QUIC tunnel, and the answers come
  back to its sender. For a target that is an IPv4 address or a domain of less than 64 bytes
  (\<open>common_format\<close>; the client misreads the others, see the findings), and a server below its limits that has
  no session of that number yet, an application's first packet, in the format of RFC 1928, makes the server
  send exactly its payload to exactly the target it names, from a socket of the session's own; and what
  is sent to that socket from an IPv4 address (the server binds it to an IPv4 address) reaches the
  application from its association's socket, behind the header RFC 1928 prescribes with the address of
  who sent it. Neither side needs to know about the other's sessions: they agree on the number in the
  datagrams. The tunnel and the sockets take the datagrams.
\<close>

theorem udp_round_trip:
  assumes "fmlookup (ur_sessions r) sid = Some \<lparr>rl_socket = lsock, rl_client = None\<rparr>"
    and "common_format a" and "length (rfc1928_udp a payload) \<le> isize_max"
    and "length (encode_datagram [] (datagram_new sid a payload)) \<le> isize_max"
    and "fmlookup (um_sessions mgr) (ip, sid) = None"
    and "map_len (um_sessions mgr) < um_max_sessions mgr" "get_or_0 (um_per_ip mgr) ip < um_max_per_ip mgr"
    and "resolve_target lookup_host a = Ok target"
    and "\<And>p t. send_to sock p t = Ok () \<longleftrightarrow> p = payload \<and> t = target"
    and "send_datagram up (datagram_new sid (Ip (V4 host) port) answer) = Ok ()"
    and "length (encode_datagram [] (datagram_new sid (Ip (V4 host) port) answer)) \<le> isize_max"
  shows "\<exists>r' dg task m' mgr'.
    relay_step (Packet sid (rfc1928_udp a payload) app True) r = Some ([To_tunnel dg], r') \<and>
    and_then (through_tunnel dg) (\<lambda>dg. fst (forward_datagram now (Ok sock) lookup_host send_to m mgr up ip dg)) = Ok () \<and>
    forward_datagram now (Ok sock) lookup_host send_to m mgr up ip dg = (Ok (), Some task, None, m', mgr') \<and>
    rt_socket task = sock \<and>
    (\<exists>m'' resp. reply_turn send_datagram m' task (Ok (answer, (V4 host, port))) = (m'', Some (up, resp), True) \<and>
      through_tunnel resp = Ok resp \<and>
      relay_step (Reply resp) r' =
        Some ([To_client sid lsock (rfc1928_udp (Ip (V4 host) port) answer) app], r'))"
proof -
  let ?dg = "datagram_new sid a payload" and ?reply = "datagram_new sid (Ip (V4 host) port) answer"
  let ?r = "r\<lparr>ur_sessions := fmupd sid \<lparr>rl_socket = lsock, rl_client = Some app\<rparr> (ur_sessions r)\<rparr>"
  have out: "relay_step (Packet sid (rfc1928_udp a payload) app True) r = Some ([To_tunnel ?dg], ?r)"
    using assms(1) parse_udp_packet_rfc [OF assms(2,3)]
    by (auto simp: relay_packet_def Let_def fmlookup_dom_iff)
  have there: "through_tunnel ?dg = Ok ?dg"
    using through_tunnel_same [of ?dg] assms(4) common_format_encode [OF assms(2)] by (simp add: datagram_new_def)
  obtain m' mgr' where fwd: "forward_datagram now (Ok sock) lookup_host send_to m mgr up ip ?dg =
      (Ok (), Some \<lparr>rt_socket = sock, rt_upstream = up, rt_sid = sid\<rparr>, None, m', mgr')"
    using forward_opens_session [of mgr ip ?dg lookup_host target send_to sock now m up] assms(5-9)
    by (auto simp: datagram_new_def)
  obtain m'' where turn: "reply_turn send_datagram m' \<lparr>rt_socket = sock, rt_upstream = up, rt_sid = sid\<rparr>
      (Ok (answer, (V4 host, port))) = (m'', Some (up, ?reply), True)"
    using assms(10) by (simp add: reply_turn_def reply_datagram_def Let_def)
  have home: "through_tunnel ?reply = Ok ?reply"
    using through_tunnel_same [of ?reply] assms(11) by (simp add: datagram_new_def)
  have "relay_step (Reply ?reply) ?r = Some ([To_client sid lsock (rfc1928_udp (Ip (V4 host) port) answer) app], ?r)"
    using common_format_encode [of "Ip (V4 host) port"]
    by (simp add: route_reply_def datagram_new_def Let_def rfc1928_udp_def encode_address_append [of "[0, 0, 0]"])
  with out there fwd turn home show ?thesis
    by (intro exI [of _ ?r] exI [of _ ?dg] exI [of _ "\<lparr>rt_socket = sock, rt_upstream = up, rt_sid = sid\<rparr>"]
        exI [of _ m'] exI [of _ mgr'] exI [of _ m''] exI [of _ ?reply] conjI) (simp_all del: relay_step.simps)
qed

theorem udp_round_trip_witness:
  "\<exists>r' dg. relay_step (Packet 1 (rfc1928_udp (Ip (V4 9) 53) [7]) (V4 1, 5000) True)
      \<lparr>ur_sessions = fmupd 1 \<lparr>rl_socket = (V4 1, 4000), rl_client = None\<rparr> fmempty, ur_next_session = 2\<rparr> =
      Some ([To_tunnel dg], r') \<and>
    fst (forward_datagram 0 (Ok (5 :: nat)) (\<lambda>h p. Crash) (\<lambda>s p t. if p = [7] \<and> t = (V4 9, 53) then Ok () else Crash)
      metrics_new udp_manager_new (0 :: nat) (V4 3) dg) = Ok () \<and>
    (\<exists>resp. relay_step (Reply resp) r' =
      Some ([To_client 1 (V4 1, 4000) (rfc1928_udp (Ip (V4 9) 53) [8]) (V4 1, 5000)], r'))"
proof -
  have 1: "length (rfc1928_udp (Ip (V4 9) 53) [7]) \<le> isize_max"
    "length (encode_datagram [] (datagram_new 1 (Ip (V4 9) 53) [7])) \<le> isize_max"
    "length (encode_datagram [] (datagram_new 1 (Ip (V4 9) 53) [8])) \<le> isize_max"
    by (rule small_isize, code_simp)+
  let ?r = "\<lparr>ur_sessions = fmupd 1 \<lparr>rl_socket = (V4 1, 4000), rl_client = None\<rparr> fmempty, ur_next_session = (2 :: u32)\<rparr>"
  let ?mgr = "udp_manager_new :: nat udp_manager"
  let ?send = "\<lambda>(s :: nat) p t. if p = [7] \<and> t = (V4 9, 53) then Ok () else Crash"
  have mgr: "fmlookup (um_sessions ?mgr) (V4 3, 1) = None" "map_len (um_sessions ?mgr) < um_max_sessions ?mgr"
    "get_or_0 (um_per_ip ?mgr) (V4 3) < um_max_per_ip ?mgr"
    by (simp_all add: udp_manager_new_def with_limits_def map_len_def get_or_0_def code_consts fcard_fempty)
  have "fmlookup (ur_sessions ?r) 1 = Some \<lparr>rl_socket = (V4 1, 4000), rl_client = None\<rparr>"
    "common_format (Ip (V4 9) 53)" "resolve_target (\<lambda>h p. Crash) (Ip (V4 9) 53) = Ok (V4 9, 53)"
    "\<And>p t. ?send 5 p t = Ok () \<longleftrightarrow> p = [7] \<and> t = (V4 9, 53)"
    by (simp_all add: resolve_target_def)
  from udp_round_trip [where send_datagram = "\<lambda>u d. Ok ()" and up = "0 :: nat" and app = "(V4 1, 5000)" and now = 0
      and m = metrics_new and sock = 5, OF this(1,2) 1(1,2) mgr this(3,4) refl 1(3)]
  show ?thesis
    by (elim exE conjE, intro exI conjI) (assumption, simp del: relay_step.simps, assumption)
qed

end
