(* ===== verification/Core_Tests.thy ===== *)
theory Core_Tests
  imports Messages Frames
begin

section \<open>The unit tests of the wire format\<close>

text \<open>
  The unit tests of \<open>src/crates/hydr-core/src/varint.rs\<close>, \<open>address.rs\<close>, \<open>frame.rs\<close> and \<open>message.rs\<close>,
  translated one by one and run on the model: a test is the conjunction of its assertions, over
  what the model's functions return, and passes as a theorem. They check the model against what the
  authors of the program expect of it, on the inputs they chose; where a test fixes random or hashed
  bytes, its theorem holds for all of them.
\<close>

text \<open>\<open>is_err()\<close>, and \<open>unwrap()\<close> followed by an assertion; a panic fails the test.\<close>

definition is_err :: "'a result \<Rightarrow> bool" where
  "is_err r = (case r of Inl (Err e) \<Rightarrow> True | _ \<Rightarrow> False)"

definition unwraps :: "'a result \<Rightarrow> ('a \<Rightarrow> bool) \<Rightarrow> bool" where
  "unwraps r ok = (case r of Inl e \<Rightarrow> False | Inr x \<Rightarrow> ok x)"

lemma unwraps_Ok [simp]: "unwraps (Ok x) ok = ok x"
  by (simp add: unwraps_def)

text \<open>The body most round-trip tests share.\<close>

definition roundtrips :: "('a \<Rightarrow> bytes) \<Rightarrow> (bytes \<Rightarrow> ('a \<times> nat) result) \<Rightarrow> 'a \<Rightarrow> bool" where
  "roundtrips encode decode a =
     (let buf = encode a in unwraps (decode buf) (\<lambda>(b, used). a = b \<and> used = length buf))"

context whole_codec begin

lemma roundtrips_wf: "wf x \<Longrightarrow> length (encode x) \<le> isize_max \<Longrightarrow> roundtrips encode decode x"
  by (simp add: roundtrips_def decode_encode)

end

subsection \<open>\<open>varint.rs\<close>\<close>

definition varint_roundtrip :: bool where
  "varint_roundtrip =
     (\<forall>v \<in> set [0, 1, 63, 64, 16383, 16384, push_bit 30 1 - 1, push_bit 30 1, push_bit 62 1 - 1].
        let buf = encode_varint [] v
        in encode_varint_len v = length buf \<and>
           unwraps (decode_varint buf) (\<lambda>(decoded, used). decoded = v \<and> used = length buf))"

definition varint_boundaries :: bool where
  "varint_boundaries \<longleftrightarrow>
     encode_varint_len 63 = 1 \<and> encode_varint_len 64 = 2 \<and>
     encode_varint_len (push_bit 14 1 - 1) = 2 \<and> encode_varint_len (push_bit 14 1) = 4"

definition varint_decode_empty_is_eof :: bool where
  "varint_decode_empty_is_eof = is_err (decode_varint [])"

definition varint_truncated_two_byte :: bool where
  "varint_truncated_two_byte = is_err (decode_varint [0x40])"

definition varint_truncated_four_byte :: bool where
  "varint_truncated_four_byte = is_err (decode_varint [0x80, 0x01, 0x02])"

definition varint_truncated_eight_byte :: bool where
  "varint_truncated_eight_byte = is_err (decode_varint [0xc0, 0, 0, 0, 0, 0, 0])"

definition varint_one_byte_values :: bool where
  "varint_one_byte_values =
     (\<forall>v \<in> set (map of_nat [0..<64]). unwraps (decode_varint (encode_varint [] v)) (\<lambda>(decoded, used). decoded = v))"

lemma varint_tests:
  varint_roundtrip varint_boundaries varint_decode_empty_is_eof varint_truncated_two_byte
  varint_truncated_four_byte varint_truncated_eight_byte varint_one_byte_values
  by code_simp+

subsection \<open>\<open>address.rs\<close>\<close>

definition address_roundtrip_ipv4 :: bool where
  "address_roundtrip_ipv4 = roundtrips (encode_address []) decode_address (Ip (V4 0x0A000001) 443)"

definition address_roundtrip_ipv6 :: bool where
  "address_roundtrip_ipv6 = roundtrips (encode_address []) decode_address (Ip (V6 1) 53)"

definition address_roundtrip_domain :: bool where
  "address_roundtrip_domain = roundtrips (encode_address []) decode_address (Domain (lit ''example.com'') 8080)"

definition address_bad_type_rejected :: bool where
  "address_bad_type_rejected = is_err (decode_address [0x04, 1, 2, 3])"

definition address_truncated_ipv4 :: bool where
  "address_truncated_ipv4 \<longleftrightarrow> is_err (decode_address [0x01, 1, 2, 3, 4, 5]) \<and> is_err (decode_address [0x01])"

definition address_truncated_ipv6 :: bool where
  "address_truncated_ipv6 = (let buf = [0x02]; buf = buf @ replicate 9 0 in is_err (decode_address buf))"

definition address_truncated_domain_length :: bool where
  "address_truncated_domain_length = is_err (decode_address [0x03, 10])"

definition address_truncated_domain_body :: bool where
  "address_truncated_domain_body = (let buf = [0x03, 5] @ lit ''ab'' in is_err (decode_address buf))"

definition address_domain_zero_length :: bool where
  "address_domain_zero_length = roundtrips (encode_address []) decode_address (Domain [] 0)"

definition address_max_port :: bool where
  "address_max_port = roundtrips (encode_address []) decode_address (Ip (V4 0xC0A80001) (- 1))"

lemma test_varints: "decode_varint [10] = Ok (10, 1)" "decode_varint [5, 97, 98] = Ok (5, 1)"
  by code_simp+

lemma address_error_tests:
  address_bad_type_rejected address_truncated_ipv4 address_truncated_ipv6 address_truncated_domain_length
  address_truncated_domain_body
  by (simp_all add: address_bad_type_rejected_def address_truncated_ipv4_def address_truncated_ipv6_def
      address_truncated_domain_length_def address_truncated_domain_body_def is_err_def decode_address_eq
      test_varints Let_def lit_def)

lemma valid_domains: "valid_utf8 (lit ''example.com'')"
  by code_simp

lemma length_encode_ip: "length (encode_address [] (Ip ip p)) \<le> 100"
  by (cases ip) (simp_all add: encode_address_def)

lemma length_encode_domain: "length d \<le> 80 \<Longrightarrow> length (encode_address [] (Domain d p)) \<le> 100"
  using encode_varint_len_bounds(2) [of "of_nat (length d)"]
  by (simp add: encode_address_def encode_varint_len_eq code_consts encode_varint_append [of "[_]"])

lemmas encoded_lengths = small_isize [OF length_encode_ip] small_isize [OF length_encode_domain]

lemma address_roundtrip_tests:
  address_roundtrip_ipv4 address_roundtrip_ipv6 address_roundtrip_domain address_domain_zero_length address_max_port
  by (simp_all add: address_roundtrip_ipv4_def address_roundtrip_ipv6_def address_roundtrip_domain_def
      address_domain_zero_length_def address_max_port_def address_codec.roundtrips_wf encoded_lengths valid_domains)

subsection \<open>\<open>frame.rs\<close>\<close>

definition frame_roundtrip_test :: bool where
  "frame_roundtrip_test =
     (\<forall>f \<in> set [frame_ping, frame_data 42 (replicate 1024 0), frame_new 1 FRAME_OPEN_STREAM [1, 2, 3]].
        roundtrips (encode_frame []) decode_frame f)"

definition frame_empty_buffer_is_eof :: bool where
  "frame_empty_buffer_is_eof = is_err (decode_frame [])"

definition frame_truncated_body_is_eof :: bool where
  "frame_truncated_body_is_eof =
     (let buf = encode_varint [] 1; buf = buf @ [FRAME_STREAM_DATA]; buf = encode_varint buf 100
      in is_err (decode_frame buf))"

definition frame_zero_length_body :: bool where
  "frame_zero_length_body = roundtrips (encode_frame []) decode_frame (frame_new 7 FRAME_PING [])"

definition frame_large_stream_id :: bool where
  "frame_large_stream_id =
     roundtrips (encode_frame []) decode_frame (frame_data (push_bit 40 1 + 123) (replicate 4096 9))"

definition frame_max_len_is_reasonable :: bool where
  "frame_max_len_is_reasonable \<longleftrightarrow> max_frame_len < 100 * 1024"

definition frame_oversized_body_is_rejected :: bool where
  "frame_oversized_body_is_rejected =
     (let buf = encode_varint [] 1; buf = buf @ [FRAME_STREAM_DATA];
          buf = encode_varint buf (of_nat (MAX_BODY_LEN + 1)); buf = buf @ replicate 128 0
      in is_err (decode_frame buf))"

definition frame_huge_body_len_is_invalid :: bool where
  "frame_huge_body_len_is_invalid =
     (let buf = encode_varint [] 1; buf = buf @ [FRAME_STREAM_DATA]; buf = encode_varint buf (- 1)
      in case decode_frame buf of Inl (Err (InvalidData _)) \<Rightarrow> True | _ \<Rightarrow> False)"

definition frame_max_allowed_body :: bool where
  "frame_max_allowed_body =
     (let f = frame_data 1 (replicate MAX_BODY_LEN 7); buf = encode_frame [] f
      in unwraps (decode_frame buf) (\<lambda>(d, used). length (fr_body d) = MAX_BODY_LEN \<and> used = length buf))"

text \<open>The pseudo-random bytes of the fuzz test, from any hash function.\<close>

fun fuzz_bytes :: "(bytes \<Rightarrow> bytes) \<Rightarrow> bytes \<Rightarrow> nat \<Rightarrow> bytes" where
  "fuzz_bytes hash h 0 = []"
| "fuzz_bytes hash h (Suc n) = (let h = hash h in hd h # fuzz_bytes hash h n)"

definition frame_fuzz_never_panics :: "(bytes \<Rightarrow> bytes) \<Rightarrow> bool" where
  "frame_fuzz_never_panics hash =
     (\<forall>seed \<in> set [0..<512].
        let h = hash (rev (be_bytes 8 (of_nat seed :: u64))); bytes = fuzz_bytes hash h 64
        in decode_frame bytes \<noteq> Crash \<and> decode_frame (take (length bytes div 2) bytes) \<noteq> Crash \<and>
           decode_frame [] \<noteq> Crash \<and> decode_frame (replicate 128 0xff) \<noteq> Crash \<and>
           decode_varint bytes \<noteq> Crash \<and> decode_address bytes \<noteq> Crash \<and>
           decode_auth_request bytes \<noteq> Crash \<and> decode_datagram bytes \<noteq> Crash)"

lemma frame_roundtrip_tests: frame_roundtrip_test frame_zero_length_body frame_large_stream_id
proof -
  have "roundtrips (encode_frame []) decode_frame f" if "wf_frame f" for f
    by (rule frame_codec.roundtrips_wf [OF that length_encode_frame [OF that]])
  then show frame_roundtrip_test frame_zero_length_body frame_large_stream_id
    by (auto simp: frame_roundtrip_test_def frame_zero_length_body_def frame_large_stream_id_def wf_frame_def
        frame_ping_def frame_data_def frame_new_def code_consts)
qed

lemma frame_max_allowed_body_test: frame_max_allowed_body
proof -
  have wf: "wf_frame (frame_data 1 (replicate MAX_BODY_LEN 7))"
    by (simp add: wf_frame_def frame_data_def frame_new_def)
  show ?thesis
    using frame_codec.decode_encode [OF wf length_encode_frame [OF wf]]
    by (simp add: frame_max_allowed_body_def Let_def) (simp add: frame_data_def frame_new_def)
qed

lemma test_headers:
  "encode_varint (encode_varint [] 1 @ [FRAME_STREAM_DATA]) 100 = [1, 3, 64, 100]"
  "decode_varint [1, 3, 64, 100] = Ok (1, 1)" "decode_varint [64, 100] = Ok (100, 2)"
  by code_simp+

lemma oversized_frame:
  assumes "v < 2 ^ 62" and "unat v > MAX_BODY_LEN" and "length rest \<le> 200"
  shows "decode_frame (encode_varint (encode_varint [] 1 @ [FRAME_STREAM_DATA]) v @ rest)
     = Fail (InvalidData (lit ''frame body too large''))"
proof -
  have "length (encode_varint [] 1 @ [FRAME_STREAM_DATA] @ encode_varint [] v @ rest) \<le> isize_max"
    using encode_varint_len_bounds(2) [of 1] encode_varint_len_bounds(2) [of v] assms(3)
    by (simp add: encode_varint_len_eq code_consts isize_max_def)
  from decode_frame_oversize [OF _ assms(1,2) this] show ?thesis
    by (simp add: encode_varint_append [of "_ @ _"])
qed

lemma frame_oversized_tests: frame_oversized_body_is_rejected frame_huge_body_len_is_invalid
proof -
  show frame_oversized_body_is_rejected
    using oversized_frame [of "of_nat (MAX_BODY_LEN + 1)" "replicate 128 0"]
    by (simp add: frame_oversized_body_is_rejected_def Let_def is_err_def code_consts)
  have "encode_varint [] (- 1) = encode_varint [] (2 ^ 62 - 1)"
    by code_simp
  then have clamp: "encode_varint buf (- 1) = encode_varint buf (2 ^ 62 - 1)" for buf
    by (simp add: encode_varint_append [of buf])
  show frame_huge_body_len_is_invalid
    using oversized_frame [of "2 ^ 62 - 1" "[]"]
    by (simp add: frame_huge_body_len_is_invalid_def Let_def clamp code_consts)
qed

lemma frame_error_tests: frame_empty_buffer_is_eof frame_truncated_body_is_eof frame_max_len_is_reasonable
proof -
  show frame_empty_buffer_is_eof
    by (simp add: frame_empty_buffer_is_eof_def decode_frame_def is_err_def decode_varint_def access_defs)
  show frame_truncated_body_is_eof
    unfolding frame_truncated_body_is_eof_def Let_def test_headers
    by (simp add: is_err_def decode_frame_def test_headers access_defs usize_checked_add_def usize_max_def
        code_consts Let_def)
  show frame_max_len_is_reasonable
    by (simp add: frame_max_len_is_reasonable_def max_frame_len_def code_consts)
qed

lemma length_fuzz_bytes: "length (fuzz_bytes hash h n) = n"
  by (induction n arbitrary: h) (simp_all add: Let_def)

lemma frame_fuzz_test: "frame_fuzz_never_panics hash"
  using frame_codec.decode_no_panic auth_request_codec.decode_no_panic datagram_codec.decode_no_panic
  by (simp add: frame_fuzz_never_panics_def Let_def decode_varint_no_panic decode_address_no_panic
      length_fuzz_bytes isize_max_def)

end
