(* ===== verification/Message_Tests.thy ===== *)
theory Message_Tests
  imports Core_Tests
begin

section \<open>The unit tests of the message layer\<close>

text \<open>
  The modules \<open>tests\<close> and \<open>reader_tests\<close> of \<open>src/crates/hydr-core/src/message.rs\<close>, translated as in
  \<open>Core_Tests\<close>. The nonce of an \<open>AuthRequest\<close> is random and its proof is a BLAKE3 hash, so the tests that
  build one hold for every nonce and every pair of hash functions with 32-byte results. Left out are the
  tests of BLAKE3 itself: that two different passwords or nonces give different proofs, and that the proof
  does not happen to contain the password.
\<close>

subsection \<open>Round trips\<close>

definition auth_roundtrip :: "derive_key_fn \<Rightarrow> keyed_hash_fn \<Rightarrow> bytes \<Rightarrow> bool" where
  "auth_roundtrip derive keyed random =
     unwraps (new_password derive keyed (lit ''secret'') 100000 FEATURE_UDP (Some random))
       (roundtrips (encode_auth_request []) decode_auth_request)"

definition auth_resp_roundtrip :: bool where
  "auth_resp_roundtrip = roundtrips (encode_auth_response []) decode_auth_response (auth_response_ok 0 FEATURE_UDP)"

definition open_stream_roundtrip :: bool where
  "open_stream_roundtrip =
     roundtrips (encode_open_stream []) decode_open_stream \<lparr>os_address = Domain (lit ''google.com'') 443\<rparr>"

definition datagram_roundtrip_test :: bool where
  "datagram_roundtrip_test =
     roundtrips (encode_datagram []) decode_datagram (datagram_new 7 (Ip (V4 0x08080808) 53) [1, 2, 3])"

definition datagram_with_fragments_roundtrip :: bool where
  "datagram_with_fragments_roundtrip \<longleftrightarrow>
     (let a = datagram_new 9 (Domain (lit ''x.example'') 1234) [4, 5, 6];
          a = a\<lparr>dg_packet_id := 42\<rparr>; a = a\<lparr>dg_frag_id := 1\<rparr>; a = a\<lparr>dg_frag_count := 3\<rparr>
      in dg_frag_count a = 3 \<and> roundtrips (encode_datagram []) decode_datagram a)"

definition auth_response_error_preserves_message :: bool where
  "auth_response_error_preserves_message \<longleftrightarrow>
     (let a = auth_response_error (lit ''denied''); buf = encode_auth_response [] a
      in ar_status a = STATUS_ERR \<and>
         unwraps (decode_auth_response buf)
           (\<lambda>(b, used). a = b \<and> used = length buf \<and> ar_message b = lit ''denied''))"

definition auth_request_with_padding_roundtrip :: "derive_key_fn \<Rightarrow> keyed_hash_fn \<Rightarrow> bytes \<Rightarrow> bool" where
  "auth_request_with_padding_roundtrip derive keyed random =
     unwraps (new_password derive keyed (lit ''pw'') 1000 FEATURE_UDP (Some random))
       (\<lambda>a. roundtrips (encode_auth_request []) decode_auth_request (a\<lparr>aq_padding := replicate 50 7\<rparr>))"

definition open_stream_ack_with_message_roundtrip :: bool where
  "open_stream_ack_with_message_roundtrip =
     roundtrips (encode_open_stream_ack []) decode_open_stream_ack
       \<lparr>oa_status = STATUS_ERR, oa_error_code = ERR_CONNECT_FAILED, oa_message = lit ''no route''\<rparr>"

definition auth_response_error_code_preserved :: bool where
  "auth_response_error_code_preserved =
     (let a = auth_response_error_with_code ERR_RATE_LIMITED (lit ''slow down''); buf = encode_auth_response [] a
      in unwraps (decode_auth_response buf)
           (\<lambda>(b, used). ar_status b = STATUS_ERR \<and> ar_error_code b = ERR_RATE_LIMITED \<and>
              ar_message b = lit ''slow down''))"

definition open_stream_ack_ok_has_zero_code :: bool where
  "open_stream_ack_ok_has_zero_code \<longleftrightarrow>
     (let a = open_stream_ack_ok in oa_status a = STATUS_OK \<and> oa_error_code a = ERR_NONE)"

lemma test_domains:
  "valid_utf8 (lit ''google.com'')" "valid_utf8 (lit ''x.example'')" "valid_utf8 (lit ''x.io'')"
  "valid_utf8 (lit ''a.b'')"
  by code_simp+

text \<open>The messages of these tests are far below the size limits.\<close>

lemma length_encode_bytes: "length (encode_bytes bs) \<le> 10 + length bs"
  using encode_varint_len_bounds(2) [of "of_nat (length bs)"]
  by (simp add: encode_bytes_def encode_varint_len_eq code_consts)

lemma length_encode_auth_request:
  "length (encode_auth_request [] r) \<le>
     60 + length (aq_client_nonce r) + length (aq_auth_proof r) + length (aq_padding r)"
  using encode_varint_len_bounds(2) [of "aq_version r"] encode_varint_len_bounds(2) [of "aq_cc_rx r"]
    length_encode_bytes [of "aq_client_nonce r"] length_encode_bytes [of "aq_auth_proof r"]
    length_encode_bytes [of "aq_padding r"]
  by (simp add: encode_auth_request_append encode_varint_len_eq code_consts)

lemma length_encode_auth_response:
  "length (encode_auth_response [] r) \<le> 40 + length (ar_message r) + length (ar_padding r)"
  using encode_varint_len_bounds(2) [of "ar_server_cc_rx r"] length_encode_bytes [of "ar_message r"]
    length_encode_bytes [of "ar_padding r"]
  by (simp add: encode_auth_response_append encode_varint_len_eq code_consts)

lemma auth_request_roundtrips:
  assumes "\<And>k m. length (keyed k m) = 32" and "length random = NONCE_LEN" and "cc < 2 ^ 62" and "length pad \<le> 50"
  shows "unwraps (new_password derive keyed pw cc f (Some random))
     (\<lambda>a. roundtrips (encode_auth_request []) decode_auth_request (a\<lparr>aq_padding := pad\<rparr>))"
proof -
  let ?a = "\<lparr>aq_version = PROTOCOL_VERSION, aq_auth_method = AUTH_PASSWORD, aq_client_nonce = random,
    aq_auth_proof = compute_auth_proof derive keyed pw random, aq_cc_rx = cc, aq_features = f, aq_padding = pad\<rparr>"
  have "roundtrips (encode_auth_request []) decode_auth_request ?a"
    using assms length_encode_auth_request [of ?a]
    by (intro auth_request_codec.roundtrips_wf)
      (simp_all add: wf_auth_request_def compute_auth_proof_def code_consts isize_max_def)
  then show ?thesis by (simp add: new_password_def new_password_with_nonce_def)
qed

lemma auth_request_tests:
  assumes "\<And>k m. length (keyed k m) = 32" and "length random = NONCE_LEN"
  shows "auth_roundtrip derive keyed random" "auth_request_with_padding_roundtrip derive keyed random"
  using auth_request_roundtrips [OF assms, where derive = derive and pw = "lit ''secret''" and cc = 100000
      and f = FEATURE_UDP and pad = "[]"]
    auth_request_roundtrips [OF assms, where derive = derive and pw = "lit ''pw''" and cc = 1000
      and f = FEATURE_UDP and pad = "replicate 50 7"]
  by (simp_all add: auth_roundtrip_def auth_request_with_padding_roundtrip_def new_password_def
      new_password_with_nonce_def)

lemma auth_response_decodes:
  assumes "length (ar_message r) \<le> 20" "ar_padding r = []" "ar_server_cc_rx r = 0"
  shows "decode_auth_response (encode_auth_response [] r) = Ok (r, length (encode_auth_response [] r))"
  using assms length_encode_auth_response [of r]
  by (intro auth_response_codec.decode_encode) (simp_all add: wf_auth_response_def isize_max_def)

lemma auth_response_tests:
  auth_resp_roundtrip auth_response_error_preserves_message auth_response_error_code_preserved
  by (simp_all add: auth_resp_roundtrip_def auth_response_error_preserves_message_def Let_def roundtrips_def
      auth_response_error_code_preserved_def auth_response_decodes auth_response_ok_def auth_response_error_def
      auth_response_error_with_code_def lit_def)

lemma open_stream_tests:
  open_stream_roundtrip open_stream_ack_with_message_roundtrip open_stream_ack_ok_has_zero_code
proof -
  show open_stream_roundtrip
    unfolding open_stream_roundtrip_def
    by (rule open_stream_codec.roundtrips_wf)
      (simp_all add: wf_open_stream_def encode_open_stream_def encoded_lengths test_domains)
  show open_stream_ack_with_message_roundtrip
    unfolding open_stream_ack_with_message_roundtrip_def
    by (rule open_stream_ack_codec.roundtrips_wf)
      (simp_all add: wf_open_stream_ack_def lit_def small_isize [OF order_trans [OF length_ack]])
  show open_stream_ack_ok_has_zero_code
    by (simp add: open_stream_ack_ok_has_zero_code_def open_stream_ack_ok_def)
qed

subsection \<open>Datagrams\<close>

definition datagram_truncated_header :: bool where
  "datagram_truncated_header = is_err (decode_datagram [0, 1, 2])"

definition datagram_truncated_address :: bool where
  "datagram_truncated_address =
     (let buf = replicate 8 0; buf = buf @ [0x01] in is_err (decode_datagram buf))"

definition datagram_single_fragment_default :: bool where
  "datagram_single_fragment_default \<longleftrightarrow>
     (let a = datagram_new 3 (Ip (V4 0x01020304) 53) [9, 8, 7]; buf = encode_datagram [] a
      in dg_frag_count a = 1 \<and> dg_frag_id a = 0 \<and> dg_packet_id a = 0 \<and>
         unwraps (decode_datagram buf) (\<lambda>(b, used). a = b))"

definition datagram_fragment_fields_roundtrip :: bool where
  "datagram_fragment_fields_roundtrip =
     (\<forall>(fid, fcount) \<in> set [(0, 1), (0, 5), (4, 5), (1, 255), (254, 255)].
        let a = datagram_new 9 (Domain (lit ''x.io'') 80) [1, 2];
            a = a\<lparr>dg_packet_id := 1234\<rparr>; a = a\<lparr>dg_frag_id := fid\<rparr>; a = a\<lparr>dg_frag_count := fcount\<rparr>
        in roundtrips (encode_datagram []) decode_datagram a)"

definition datagram_max_frag_count :: bool where
  "datagram_max_frag_count =
     (let a = datagram_new 1 (Ip (V4 0x7F000001) 1) [];
          a = a\<lparr>dg_frag_count := - 1\<rparr>; a = a\<lparr>dg_frag_id := - 1 - 1\<rparr>; buf = encode_datagram [] a
      in unwraps (decode_datagram buf) (\<lambda>(b, used). a = b))"

definition datagram_packet_id_wraps_u16 :: bool where
  "datagram_packet_id_wraps_u16 =
     (let a = datagram_new 5 (Domain (lit ''a.b'') 443) [0]; a = a\<lparr>dg_packet_id := - 1\<rparr>; buf = encode_datagram [] a
      in unwraps (decode_datagram buf) (\<lambda>(b, used). dg_packet_id b = - 1))"

definition datagram_zero_length_payload_roundtrip :: bool where
  "datagram_zero_length_payload_roundtrip =
     (let a = datagram_new 11 (Ip (V4 0x0A000001) 53) []; buf = encode_datagram [] a
      in unwraps (decode_datagram buf) (\<lambda>(b, used). a = b \<and> used = length buf \<and> dg_payload b = []))"

definition datagram_fragments_are_independent_messages :: bool where
  "datagram_fragments_are_independent_messages =
     (let f0 = datagram_new 7 (Ip (V4 0x08080808) 53) (lit ''part0'');
          f0 = f0\<lparr>dg_packet_id := 42\<rparr>; f0 = f0\<lparr>dg_frag_id := 0\<rparr>; f0 = f0\<lparr>dg_frag_count := 3\<rparr>;
          f1 = f0\<lparr>dg_frag_id := 1\<rparr>; f1 = f1\<lparr>dg_payload := lit ''part1''\<rparr>;
          b0 = encode_datagram [] f0; b1 = encode_datagram [] f1
      in unwraps (decode_datagram b0) (\<lambda>(d0, _). unwraps (decode_datagram b1) (\<lambda>(d1, _).
           dg_packet_id d0 = dg_packet_id d1 \<and> dg_frag_count d0 = dg_frag_count d1 \<and>
           dg_frag_id d0 \<noteq> dg_frag_id d1 \<and> dg_payload d0 \<noteq> dg_payload d1)))"

definition small_datagram :: "datagram \<Rightarrow> bool" where
  "small_datagram d \<longleftrightarrow> length (encode_address [] (dg_address d)) \<le> 100 \<and> length (dg_payload d) \<le> 100"

lemma small_datagram_decodes:
  assumes "small_datagram d" "wf_address (dg_address d)"
  shows "decode_datagram (encode_datagram [] d) = Ok (d, length (encode_datagram [] d))"
  using assms
  by (intro datagram_codec.decode_encode)
    (simp_all add: small_datagram_def wf_datagram_def encode_datagram_append isize_max_def)

lemma datagram_tests:
  datagram_roundtrip_test datagram_with_fragments_roundtrip datagram_single_fragment_default
  datagram_fragment_fields_roundtrip datagram_max_frag_count datagram_packet_id_wraps_u16
  datagram_zero_length_payload_roundtrip datagram_fragments_are_independent_messages
  by (simp_all add: datagram_roundtrip_test_def datagram_with_fragments_roundtrip_def Let_def roundtrips_def
      datagram_single_fragment_default_def datagram_fragment_fields_roundtrip_def datagram_max_frag_count_def
      datagram_packet_id_wraps_u16_def datagram_zero_length_payload_roundtrip_def datagram_new_def
      datagram_fragments_are_independent_messages_def small_datagram_decodes small_datagram_def length_encode_ip
      length_encode_domain test_domains)
    (simp add: lit_def)

lemma datagram_error_tests: datagram_truncated_header datagram_truncated_address
proof -
  show datagram_truncated_header
    by (simp add: datagram_truncated_header_def decode_datagram_def is_err_def)
  show datagram_truncated_address
    by (simp add: datagram_truncated_address_def decode_datagram_split Let_def is_err_def isize_max_def
        decode_address_eq)
qed

subsection \<open>Padding and the reader\<close>

definition random_padding_obeyed :: bool where
  "random_padding_obeyed \<longleftrightarrow>
     (let f = (\<lambda>state. let state = state + 1 in (state, state)); p = fst (random_padding f 16 0)
      in length p = 16 \<and> p = map of_nat [1..<16 + 1])"

definition random_padding_zero_length :: bool where
  "random_padding_zero_length \<longleftrightarrow> (let f = (\<lambda>u. (0, u)) in length (fst (random_padding f 0 ())) = 0)"

definition reads_u8_varint_bytes_remaining :: bool where
  "reads_u8_varint_bytes_remaining \<longleftrightarrow>
     (let buf = [] @ [0xAA]; buf = encode_varint buf 3; buf = encode_varint buf 3; buf = buf @ [1, 2, 3];
          buf = buf @ lit ''tail''; r = reader_new buf
      in unwraps (reader_u8 r) (\<lambda>(b, r). b = 0xAA \<and>
         unwraps (reader_varint r) (\<lambda>(v, r). v = 3 \<and>
         unwraps (reader_bytes r) (\<lambda>(bs, r). bs = [1, 2, 3] \<and>
         unwraps (reader_remaining r) (\<lambda>t. t = lit ''tail'')))))"

definition u8_truncated :: bool where
  "u8_truncated = is_err (reader_u8 (reader_new []))"

definition varint_truncated :: bool where
  "varint_truncated = is_err (reader_varint (reader_new [0x40]))"

definition bytes_truncated :: bool where
  "bytes_truncated =
     (let buf = encode_varint [] 5; buf = buf @ [1, 2] in is_err (reader_bytes (reader_new buf)))"

lemma padding_tests: random_padding_obeyed random_padding_zero_length
  by code_simp+

lemma reader_truncated_tests: u8_truncated varint_truncated bytes_truncated
proof -
  have v: "decode_varint [64] = Fail UnexpectedEof" "decode_varint [5, 1, 2] = Ok (5, 1)"
    "encode_varint [] 5 = [5]"
    by code_simp+
  note defs = is_err_def reader_new_def access_defs usize_max_def
  show u8_truncated by (simp add: u8_truncated_def reader_u8_def defs)
  show varint_truncated by (simp add: varint_truncated_def reader_varint_def v defs)
  show bytes_truncated by (simp add: bytes_truncated_def reader_bytes_def reader_varint_def v defs Let_def)
qed

lemma reader_test: reads_u8_varint_bytes_remaining
proof -
  have v: "encode_varint buf 3 = buf @ [3]" for buf
    by (simp add: encode_varint_append [of buf]) code_simp
  have d: "decode_varint (3 # rest) = Ok (3, 1)" for rest
    using decode_encode_varint_62 [of 3 rest] by (simp add: v encode_varint_len_def)
  show ?thesis
    by (simp add: reads_u8_varint_bytes_remaining_def Let_def v d reader_u8_def reader_varint_def reader_bytes_def
        reader_remaining_def reader_new_def access_defs usize_max_def)
qed

end
