(* ===== verification/Component_Tests.thy ===== *)
theory Component_Tests
  imports Core_Tests Metrics Obfuscation Congestion Nonce_Cache Tls_Pin "HOL-Library.Sublist"
begin

section \<open>The unit tests of the stateful components\<close>

text \<open>
  The unit tests of \<open>obfuscation.rs\<close> and \<open>metrics.rs\<close> of \<open>hydr-core\<close>, of \<open>hydr-cc\<close>, of the nonce cache
  in \<open>hydr-server\<close> and of \<open>tls.rs\<close>, translated as in \<open>Core_Tests\<close>. Random bytes, hash functions, clock
  readings and thread schedules are arguments, and the tests hold for all of them within the stated
  limits. Left out are the assertions about BLAKE3 itself: that a wrong key or a changed byte gives
  another tag, and that a masked body differs from the plain one.
\<close>

subsection \<open>\<open>ReplayFilter\<close>\<close>

definition replay_filter_rejects_duplicates :: bool where
  "replay_filter_rejects_duplicates \<longleftrightarrow>
     fst (run_guard observe (replay_filter_new 1024) [0, 1, 0, 1, 2, 5000, 10]) =
       [True, True, False, False, True, True, False]"

lemma replay_filter_duplicates_test: replay_filter_rejects_duplicates
  unfolding replay_filter_rejects_duplicates_def window_history.same_decisions [OF tracks_new calls_ok_True]
  by (simp add: ideal_observe_def highest_def)

text \<open>
  The concurrent test. The filter is behind a lock, so a run of the four threads is one order of their
  calls that respects each thread's own. A call carries its thread, its number and the asserted result.
\<close>

type_synonym filter_call = "nat \<times> u64 \<times> bool"

definition chaos_thread :: "nat \<Rightarrow> filter_call list" where
  "chaos_thread t =
     concat (map (\<lambda>i. let seq = of_nat (t * 1000 + i) in [(t, seq, True), (t, seq, False)]) [0..<1000])"

definition chaos_schedule :: "filter_call list \<Rightarrow> bool" where
  "chaos_schedule calls \<longleftrightarrow>
     fst ` set calls \<subseteq> {0..<4} \<and> (\<forall>t \<in> {0..<4}. filter (\<lambda>c. fst c = t) calls = chaos_thread t)"

definition replay_filter_chaos_concurrent :: "filter_call list \<Rightarrow> bool" where
  "replay_filter_chaos_concurrent calls \<longleftrightarrow>
     (let (results, f) = run_guard observe (replay_filter_new 4096) (map (fst \<circ> snd) calls)
      in results = map (snd \<circ> snd) calls \<and> fst (run_guard observe f [0, 3999, 10000]) = [False, False, True])"

text \<open>Calls whose asserted results are those of a filter that has seen the numbers \<open>seen\<close>.\<close>

fun expected :: "u64 set \<Rightarrow> filter_call list \<Rightarrow> bool" where
  "expected seen [] = True"
| "expected seen ((t, seq, ok) # calls) = (ok = (seq \<notin> seen) \<and> expected (insert seq seen) calls)"

lemma expected_other:
  "seq \<notin> (fst \<circ> snd) ` set calls \<Longrightarrow> expected (insert seq seen) calls = expected seen calls"
  by (induction seen calls rule: expected.induct) (auto simp: insert_commute)

lemma expected_interleaving:
  assumes "\<And>t. expected seen (filter (\<lambda>c. fst c = t) calls)"
    and "\<forall>c \<in> set calls. fst c = unat (fst (snd c)) div 1000"
  shows "expected seen calls"
  using assms
proof (induction calls arbitrary: seen)
  case (Cons c calls)
  obtain t seq ok where c: "c = (t, seq, ok)" by (cases c)
  have "expected (insert seq seen) (filter (\<lambda>c. fst c = t') calls)" for t'
  proof (cases "t' = t")
    case True
    with Cons.prems(1) [of t] show ?thesis by (simp add: c)
  next
    case False
    then have "seq \<notin> (fst \<circ> snd) ` set (filter (\<lambda>c. fst c = t') calls)"
      using Cons.prems(2) by (fastforce simp: c)
    with Cons.prems(1) [of t'] False show ?thesis by (simp add: c expected_other)
  qed
  with Cons.IH Cons.prems(1) [of t] Cons.prems(2) show ?case by (simp add: c)
qed simp

text \<open>A filter that keeps every number answers as asserted while no number leaves its window.\<close>

lemma ideal_observe_near:
  "unat (highest h) \<le> unat w \<Longrightarrow>
     ideal_observe w h seq = (seq \<notin> set h, if seq \<in> set h then h else seq # h)"
  by (simp add: ideal_observe_def)

lemma expected_run:
  assumes "expected (set h) calls" and "unat (highest h) \<le> unat w"
    and "\<forall>c \<in> set calls. unat (fst (snd c)) \<le> unat w"
  shows "fst (run_guard (ideal_observe w) h (map (fst \<circ> snd) calls)) = map (snd \<circ> snd) calls \<and>
    set (snd (run_guard (ideal_observe w) h (map (fst \<circ> snd) calls))) = set h \<union> (fst \<circ> snd) ` set calls \<and>
    unat (highest (snd (run_guard (ideal_observe w) h (map (fst \<circ> snd) calls)))) \<le> unat w"
  using assms
proof (induction calls arbitrary: h)
  case (Cons c calls)
  obtain t seq ok where c: "c = (t, seq, ok)" by (cases c)
  let ?h = "if seq \<in> set h then h else seq # h"
  have "unat (highest ?h) \<le> unat w"
    using Cons.prems(2,3) by (simp add: c highest_def max_def)
  moreover have "set ?h = insert seq (set h)" by auto
  ultimately show ?case
    using Cons.IH [of ?h] Cons.prems by (simp add: c ideal_observe_near)
qed simp

lemma small_seq: "n \<le> 5000 \<Longrightarrow> unat (of_nat n :: u64) = n"
  by (simp add: unat_of_nat)

lemma expected_thread:
  assumes "\<forall>s \<in> seen. unat s < a" and "a + n \<le> 5000"
  shows "expected seen (concat (map (\<lambda>k. [(t, of_nat k, True), (t, of_nat k, False)]) [a..<a + n]))"
  using assms
proof (induction n arbitrary: a seen)
  case (Suc n)
  have "expected (insert (of_nat a) seen)
      (concat (map (\<lambda>k. [(t, of_nat k, True), (t, of_nat k, False)]) [Suc a..<Suc a + n]))"
    using Suc.prems by (intro Suc.IH) (auto simp: small_seq)
  moreover have "of_nat a \<notin> seen" using Suc.prems small_seq [of a] by auto
  moreover have "[a..<a + Suc n] = a # [Suc a..<Suc a + n]" by (simp add: upt_conv_Cons)
  ultimately show ?case by (simp del: upt_Suc)
qed simp

lemma chaos_thread_eq:
  "chaos_thread t = concat (map (\<lambda>k. [(t, of_nat k, True), (t, of_nat k, False)]) [t * 1000..<t * 1000 + 1000])"
proof -
  have "[t * 1000..<t * 1000 + 1000] = map (\<lambda>i. t * 1000 + i) [0..<1000]"
    by (simp add: map_add_upt add.commute)
  then show ?thesis by (simp add: chaos_thread_def Let_def o_def)
qed

lemma chaos_thread_calls:
  "c \<in> set (chaos_thread t) \<longleftrightarrow>
     (\<exists>k. t * 1000 \<le> k \<and> k < t * 1000 + 1000 \<and> (c = (t, of_nat k, True) \<or> c = (t, of_nat k, False)))"
  by (auto simp: chaos_thread_eq)

lemma schedule_calls:
  assumes "chaos_schedule calls" and "c \<in> set calls"
  shows "fst c < 4 \<and> c \<in> set (chaos_thread (fst c))"
proof -
  from assms have t: "fst c < 4" by (auto simp: chaos_schedule_def)
  have "c \<in> set (filter (\<lambda>d. fst d = fst c) calls)" using assms(2) by simp
  with assms(1) t show ?thesis by (auto simp: chaos_schedule_def)
qed

lemma schedule_seqs:
  assumes "chaos_schedule calls" and "c \<in> set calls"
  shows "fst c = unat (fst (snd c)) div 1000" "unat (fst (snd c)) < 4000"
proof -
  from schedule_calls [OF assms] have "fst c < 4" and "\<exists>k. fst c * 1000 \<le> k \<and> k < fst c * 1000 + 1000 \<and>
      (c = (fst c, of_nat k, True) \<or> c = (fst c, of_nat k, False))"
    by (simp_all add: chaos_thread_calls)
  then obtain k where "fst c < 4" "fst c * 1000 \<le> k" "k < fst c * 1000 + 1000" "fst (snd c) = of_nat k"
    by (metis fst_conv snd_conv)
  then show "fst c = unat (fst (snd c)) div 1000" "unat (fst (snd c)) < 4000"
    using small_seq [of k] by auto
qed

lemma schedule_has:
  assumes "chaos_schedule calls" and "k < 4000"
  shows "of_nat k \<in> (fst \<circ> snd) ` set calls"
proof -
  let ?c = "(k div 1000, of_nat k :: u64, True)"
  have "k div 1000 * 1000 \<le> k" "k < k div 1000 * 1000 + 1000" by simp_all
  then have "?c \<in> set (chaos_thread (k div 1000))" unfolding chaos_thread_calls by blast
  with assms have "?c \<in> set (filter (\<lambda>c. fst c = k div 1000) calls)" by (auto simp: chaos_schedule_def)
  then show ?thesis by force
qed

text \<open>The test passes under every interleaving of the four threads.\<close>

lemma replay_filter_chaos_test:
  assumes sch: "chaos_schedule calls"
  shows "replay_filter_chaos_concurrent calls"
proof -
  have "expected {} (filter (\<lambda>c. fst c = t) calls)" for t
  proof (cases "t < 4")
    case True
    with sch expected_thread [of "{}" "t * 1000" 1000 t] show ?thesis
      by (simp add: chaos_schedule_def chaos_thread_eq)
  next
    case False
    with sch have "filter (\<lambda>c. fst c = t) calls = []" by (auto simp: chaos_schedule_def filter_empty_conv)
    then show ?thesis by simp
  qed
  then have exp: "expected (set []) calls"
    unfolding list.set(1) by (rule expected_interleaving) (use schedule_seqs(1) [OF sch] in blast)
  let ?keys = "map (fst \<circ> snd) calls"
  let ?h = "snd (run_guard (ideal_observe 4096) [] ?keys)"
  have small: "\<forall>c \<in> set calls. unat (fst (snd c)) \<le> unat (4096 :: u64)"
    using schedule_seqs(2) [OF sch] by fastforce
  have "unat (highest []) \<le> unat (4096 :: u64)" by (simp add: highest_def)
  note r = expected_run [OF exp this small]
  have run: "fst (run_guard (ideal_observe 4096) [] ?keys) = map (snd \<circ> snd) calls"
    "set ?h = set [] \<union> (fst \<circ> snd) ` set calls" "unat (highest ?h) \<le> unat (4096 :: u64)"
    using r by blast+
  have "0 \<in> set ?h" "3999 \<in> set ?h"
    using schedule_has [OF sch, of 0] schedule_has [OF sch, of 3999] by (simp_all add: run(2))
  moreover have "10000 \<notin> set ?h" using schedule_seqs(2) [OF sch] by (force simp: run(2))
  ultimately have last: "fst (run_guard (ideal_observe 4096) ?h [0, 3999, 10000]) = [False, False, True]"
    by (simp add: ideal_observe_near [OF run(3)])
  have "fst (run_guard observe (replay_filter_new 4096) ?keys) = map (snd \<circ> snd) calls"
    unfolding run(1) [symmetric] by (rule window_history.same_decisions [OF tracks_new calls_ok_True])
  moreover have "fst (run_guard observe (snd (run_guard observe (replay_filter_new 4096) ?keys)) [0, 3999, 10000])
      = [False, False, True]"
    unfolding last [symmetric]
    by (rule window_history.same_decisions [OF window_history.related_after [OF tracks_new calls_ok_True] calls_ok_True])
  ultimately show ?thesis
    by (simp only: replay_filter_chaos_concurrent_def split_beta Let_def simp_thms)
qed

text \<open>One schedule: the threads one after the other.\<close>

lemma chaos_schedule_sequential: "chaos_schedule (concat (map chaos_thread [0..<4]))"
proof -
  have thread: "c \<in> set (chaos_thread t) \<Longrightarrow> fst c = t" for c t
    unfolding chaos_thread_calls by auto
  have own: "filter (\<lambda>c. fst c = t) (chaos_thread s) = (if s = t then chaos_thread s else [])" for s t
    using thread by (auto simp: filter_id_conv filter_empty_conv)
  have "concat (map (\<lambda>s. if s = t then chaos_thread s else []) [0..<n]) = (if t < n then chaos_thread t else [])"
    for t n by (induction n) auto
  then have "filter (\<lambda>c. fst c = t) (concat (map chaos_thread [0..<4])) = (if t < 4 then chaos_thread t else [])" for t
    unfolding filter_concat map_map o_def own .
  moreover have "fst ` set (concat (map chaos_thread [0..<4])) \<subseteq> {0..<4}"
    using thread by fastforce
  ultimately show ?thesis by (simp only: chaos_schedule_def) simp
qed

subsection \<open>\<open>Obfuscator\<close>\<close>

definition obfuscation_roundtrip :: "hash_fn \<Rightarrow> keyed_hash_fn \<Rightarrow> bytes \<Rightarrow> metrics \<Rightarrow> bool" where
  "obfuscation_roundtrip hash keyed salt m =
     (let ob = obfuscator_new hash (lit ''super-secret-key''); payload = map of_nat [0..<128]
      in unwraps (encrypt hash keyed (Some salt) ob payload) (\<lambda>(payload, ob).
           payload \<noteq> replicate 128 0 \<and>
           unwraps (decrypt hash keyed m ob payload) (\<lambda>(dec, _). dec = Some (map of_nat [0..<128]))))"

definition decrypt_too_short_returns_none :: "hash_fn \<Rightarrow> keyed_hash_fn \<Rightarrow> metrics \<Rightarrow> bool" where
  "decrypt_too_short_returns_none hash keyed m =
     (let ob = obfuscator_new hash (lit ''k'')
      in \<forall>buf \<in> set [[], [1, 2, 3], replicate 7 0, replicate (SALT_LEN + TAG_LEN + 7) 0].
           unwraps (decrypt hash keyed m ob buf) (\<lambda>(dec, _). dec = None))"

definition roundtrip_empty_and_tiny :: "hash_fn \<Rightarrow> keyed_hash_fn \<Rightarrow> bytes \<Rightarrow> obfuscator \<Rightarrow> metrics \<Rightarrow> nat \<Rightarrow> bool" where
  "roundtrip_empty_and_tiny hash keyed salt ob m len =
     (let original = map of_nat [0..<len]
      in unwraps (encrypt hash keyed (Some salt) ob original) (\<lambda>(enc, ob).
           unwraps (decrypt hash keyed m ob enc) (\<lambda>(dec, _). dec = Some original)))"

definition same_key_different_salts_still_decrypt ::
  "hash_fn \<Rightarrow> keyed_hash_fn \<Rightarrow> bytes \<Rightarrow> bytes \<Rightarrow> metrics \<Rightarrow> bool" where
  "same_key_different_salts_still_decrypt hash keyed salt1 salt2 m =
     (let ob = obfuscator_new hash (lit ''shared''); a = [1, 2, 3, 4]; b = [1, 2, 3, 4]
      in unwraps (encrypt hash keyed (Some salt1) ob a) (\<lambda>(a, ob).
         unwraps (encrypt hash keyed (Some salt2) ob b) (\<lambda>(b, ob).
           a \<noteq> b \<and>
           unwraps (decrypt hash keyed m ob a) (\<lambda>(x, m, ob).
           unwraps (decrypt hash keyed m ob b) (\<lambda>(y, m, ob). x \<noteq> None \<and> x = y)))))"

definition replayed_packet_rejected :: "hash_fn \<Rightarrow> keyed_hash_fn \<Rightarrow> bytes \<Rightarrow> bytes \<Rightarrow> metrics \<Rightarrow> bool" where
  "replayed_packet_rejected hash keyed salt1 salt2 m =
     (let ob = obfuscator_new hash (lit ''k''); p1 = lit ''hello''; p2 = lit ''hello''
      in unwraps (encrypt hash keyed (Some salt1) ob p1) (\<lambda>(p1, ob).
         unwraps (encrypt hash keyed (Some salt2) ob p2) (\<lambda>(p2, ob).
         unwraps (decrypt hash keyed m ob p1) (\<lambda>(x, m, ob). x = Some (lit ''hello'') \<and>
         unwraps (decrypt hash keyed m ob p2) (\<lambda>(y, m, ob). y = Some (lit ''hello'') \<and>
         unwraps (decrypt hash keyed m ob p1) (\<lambda>(z, m, ob). z = None))))))"

definition fuzz_payload :: "u64 \<Rightarrow> nat \<Rightarrow> bytes" where
  "fuzz_payload seed len = map (\<lambda>i. ucast (seed + of_nat i) * 7) [0..<len]"

definition fuzz_obfuscation_step ::
  "hash_fn \<Rightarrow> keyed_hash_fn \<Rightarrow> bytes \<Rightarrow> obfuscator \<Rightarrow> metrics \<Rightarrow> u64 \<Rightarrow> nat \<Rightarrow> bool" where
  "fuzz_obfuscation_step hash keyed salt ob m seed len =
     (let payload = fuzz_payload seed len; orig = payload
      in unwraps (encrypt hash keyed (Some salt) ob payload) (\<lambda>(payload, ob).
         unwraps (decrypt hash keyed m ob payload) (\<lambda>(dec, m, ob). dec = Some orig \<and>
           (let garbage = (if length payload > SALT_LEN
                           then payload[SALT_LEN := payload ! SALT_LEN XOR 0xff] else payload)
            in unwraps (decrypt hash keyed m ob garbage) (\<lambda>(_, m, ob).
               unwraps (decrypt hash keyed m ob []) (\<lambda>(_, m, ob).
               unwraps (decrypt hash keyed m ob (take (length payload - 1) payload)) (\<lambda>_. True)))))))"

text \<open>
  \<open>roundtrip_empty_and_tiny\<close> and \<open>fuzz_obfuscation_step\<close> are the bodies of the loops, for any length, seed
  and state of the obfuscator in which the filter has not overtaken its send counter. An obfuscator
  decrypts what it encrypted itself.
\<close>

lemma decrypt_eq:
  "decrypt_outcome hash keyed m r buf = Ok (out, m', r') \<Longrightarrow>
     decrypt hash keyed m r buf = Ok (case out of OutcomeOk v \<Rightarrow> Some v | _ \<Rightarrow> None, m', r')"
  by (simp add: decrypt_def)

lemma decrypt_total:
  assumes "blake3_lengths hash keyed"
  obtains x m' r' where "decrypt hash keyed m r buf = Ok (x, m', r')"
  by (rule decrypt_outcome_total [OF assms, of m r buf]) (use decrypt_eq that in blast)

lemma in_step_own: "in_step n s r \<Longrightarrow> in_step n s (r\<lparr>ob_send_seq := k\<rparr>)"
  by (simp add: in_step_def)

lemma encrypt_decrypts:
  assumes b: "blake3_lengths hash keyed" and i: "in_step n s r" and n: "n < 2 ^ 64"
    and salt: "length salt = SALT_LEN"
  obtains msg r' where "encrypt hash keyed (Some salt) s buf = Ok (msg, s\<lparr>ob_send_seq := ob_send_seq s + 1\<rparr>)"
    "decrypt_outcome hash keyed m r msg = Ok (OutcomeOk buf, m, r')"
    "decrypt hash keyed m r msg = Ok (Some buf, m, r')"
    "in_step (Suc n) (s\<lparr>ob_send_seq := ob_send_seq s + 1\<rparr>) r'"
proof (rule encrypt_decrypt [OF b i n salt, of buf m])
  fix msg
  assume 1: "encrypt hash keyed (Some salt) s buf = Ok (msg, s\<lparr>ob_send_seq := ob_send_seq s + 1\<rparr>)"
    and 2: "decrypt_outcome hash keyed m r msg
      = Ok (OutcomeOk buf, m, r\<lparr>ob_recv := snd (observe (ob_recv r) (of_nat n))\<rparr>)"
  show thesis
    using that [OF 1 2 _ in_step_observe [OF i n]] decrypt_eq [OF 2] by simp
qed

lemma own_message:
  assumes b: "blake3_lengths hash keyed" and i: "in_step n s s" and n: "n < 2 ^ 64"
    and salt: "length salt = SALT_LEN"
  obtains msg s' r' where "encrypt hash keyed (Some salt) s buf = Ok (msg, s')"
    "decrypt hash keyed m s' msg = Ok (Some buf, m, r')"
  by (rule encrypt_decrypts [OF b in_step_own [OF i, of "ob_send_seq s + 1"] n salt, of buf m])
    (rule that, assumption+)

lemma encrypt_shape:
  assumes b: "blake3_lengths hash keyed" and ok: "encrypt hash keyed (Some salt) s buf = Ok (msg, s')"
    and salt: "length salt = SALT_LEN"
  shows "length msg = SALT_LEN + TAG_LEN + 8 + length buf" "take SALT_LEN msg = salt"
proof -
  let ?s = "s\<lparr>ob_send_seq := ob_send_seq s + 1\<rparr>" and ?plain = "be_bytes 8 (ob_send_seq s) @ buf"
  obtain body where x: "xor_in_place hash ?s ?plain salt = Ok body" "length body = length ?plain"
    using xor_in_place_involution [OF b] by blast
  with ok have msg: "msg = salt @ body @ frame_tag keyed ?s body"
    by (auto simp: encrypt_def Let_def obfuscator_tag_Ok [OF b])
  show "length msg = SALT_LEN + TAG_LEN + 8 + length buf" "take SALT_LEN msg = salt"
    using x(2) salt length_frame_tag [OF b] by (simp_all add: msg)
qed

lemma obfuscator_short_test: "decrypt_too_short_returns_none hash keyed m"
  by (simp add: decrypt_too_short_returns_none_def decrypt_def decrypt_outcome_short Let_def)

lemma obfuscator_roundtrip_tests:
  assumes b: "blake3_lengths hash keyed" and salt: "length salt = SALT_LEN"
  shows "obfuscation_roundtrip hash keyed salt m"
    and "in_step n ob ob \<Longrightarrow> n < 2 ^ 64 \<Longrightarrow> roundtrip_empty_and_tiny hash keyed salt ob m len"
proof -
  show "roundtrip_empty_and_tiny hash keyed salt ob m len" if i: "in_step n ob ob" and n: "n < 2 ^ 64"
    by (rule own_message [OF b i n salt, of "map of_nat [0..<len]" m])
      (simp add: roundtrip_empty_and_tiny_def Let_def)
  let ?ob = "obfuscator_new hash (lit ''super-secret-key'')" and ?p = "map of_nat [0..<128] :: bytes"
  obtain msg s' r' where e: "encrypt hash keyed (Some salt) ?ob ?p = Ok (msg, s')"
    and d: "decrypt hash keyed m s' msg = Ok (Some ?p, m, r')"
    by (rule own_message [OF b in_step_new _ salt]) simp
  from encrypt_shape(1) [OF b e salt] have "length msg \<noteq> length (replicate 128 0 :: bytes)"
    by (simp add: code_consts)
  then have "msg \<noteq> replicate 128 0" by blast
  with e d show "obfuscation_roundtrip hash keyed salt m"
    by (simp add: obfuscation_roundtrip_def Let_def del: upt_rec_numeral)
qed

lemma two_messages:
  assumes b: "blake3_lengths hash keyed" and salt: "length salt1 = SALT_LEN" "length salt2 = SALT_LEN"
  obtains a b s1 s2 r1 r2 where
    "encrypt hash keyed (Some salt1) (obfuscator_new hash key) p = Ok (a, s1)"
    "encrypt hash keyed (Some salt2) s1 q = Ok (b, s2)"
    "decrypt hash keyed m s2 a = Ok (Some p, m, r1)" "decrypt hash keyed m r1 b = Ok (Some q, m, r2)"
    "unwraps (decrypt hash keyed m r2 a) (\<lambda>(z, m, ob). z = None)"
    "take SALT_LEN a = salt1" "take SALT_LEN b = salt2"
proof -
  let ?s0 = "obfuscator_new hash key"
  let ?s1 = "?s0\<lparr>ob_send_seq := ob_send_seq ?s0 + 1\<rparr>"
  let ?s2 = "?s1\<lparr>ob_send_seq := ob_send_seq ?s1 + 1\<rparr>"
  have i: "in_step 0 ?s0 ?s2"
    by (rule in_step_own [OF in_step_own [OF in_step_new]])
  obtain a r1 where a: "encrypt hash keyed (Some salt1) ?s0 p = Ok (a, ?s1)"
    "decrypt_outcome hash keyed m ?s2 a = Ok (OutcomeOk p, m, r1)"
    "decrypt hash keyed m ?s2 a = Ok (Some p, m, r1)" "in_step (Suc 0) ?s1 r1"
    by (rule encrypt_decrypts [OF b i _ salt(1), of p m]) simp
  obtain b' r2 where b': "encrypt hash keyed (Some salt2) ?s1 q = Ok (b', ?s2)"
    "decrypt_outcome hash keyed m r1 b' = Ok (OutcomeOk q, m, r2)"
    "decrypt hash keyed m r1 b' = Ok (Some q, m, r2)"
    by (rule encrypt_decrypts [OF b a(4) _ salt(2), of q m]) simp
  have "decrypt_all hash keyed m r1 [b'] = Ok ([OutcomeOk q], m, r2)" using b'(2) by simp
  from delivered_then_replay [OF b _ a(2) this] i
  have "unwraps (decrypt hash keyed m r2 a) (\<lambda>(z, m, ob). z = None)"
    by (simp add: decrypt_def in_step_def)
  with a b' encrypt_shape(2) [OF b a(1) salt(1)] encrypt_shape(2) [OF b b'(1) salt(2)] show thesis
    by (intro that)
qed

lemma obfuscator_replay_tests:
  assumes b: "blake3_lengths hash keyed" and salt: "length salt1 = SALT_LEN" "length salt2 = SALT_LEN"
  shows "replayed_packet_rejected hash keyed salt1 salt2 m"
    and "salt1 \<noteq> salt2 \<Longrightarrow> same_key_different_salts_still_decrypt hash keyed salt1 salt2 m"
proof -
  show "replayed_packet_rejected hash keyed salt1 salt2 m"
    by (rule two_messages [OF b salt, of "lit ''k''" "lit ''hello''" "lit ''hello''" m])
      (simp add: replayed_packet_rejected_def Let_def)
  show "same_key_different_salts_still_decrypt hash keyed salt1 salt2 m" if "salt1 \<noteq> salt2"
    by (rule two_messages [OF b salt, of "lit ''shared''" "[1, 2, 3, 4]" "[1, 2, 3, 4]" m])
      (use that in \<open>auto simp: same_key_different_salts_still_decrypt_def Let_def\<close>)
qed

lemma obfuscator_fuzz_test:
  assumes b: "blake3_lengths hash keyed" and "in_step n ob ob" and "n < 2 ^ 64" and "length salt = SALT_LEN"
  shows "fuzz_obfuscation_step hash keyed salt ob m seed len"
proof (rule own_message [OF assms, of "fuzz_payload seed len" m])
  fix msg s' r'
  assume 1: "encrypt hash keyed (Some salt) ob (fuzz_payload seed len) = Ok (msg, s')"
    and 2: "decrypt hash keyed m s' msg = Ok (Some (fuzz_payload seed len), m, r')"
  have any: "\<exists>x m' r''. decrypt hash keyed m r buf = Ok (x, m', r'')" for m r buf
    by (rule decrypt_total [OF b, of m r buf]) blast
  have "unwraps (decrypt hash keyed m r buf) ok" if "\<And>x m' r''. ok (x, m', r'')" for m r buf ok
    using any [of m r buf] that by auto
  with 1 2 show ?thesis
    by (simp add: fuzz_obfuscation_step_def Let_def split_beta)
qed

subsection \<open>The congestion controller\<close>

definition window_is_rate_by_rtt :: bool where
  "window_is_rate_by_rtt \<longleftrightarrow>
     window_for 8000000 (100 * 1000000) = 100000 \<and> window_for 20000000 (50 * 1000000) = 125000"

definition window_never_below_minimum :: bool where
  "window_never_below_minimum \<longleftrightarrow> window_for 1 (1 * 1000000) = MIN_WINDOW_BYTES"

definition window_capped_at_maximum :: bool where
  "window_capped_at_maximum \<longleftrightarrow>
     window_for 10000000000 (1 * 1000000000) = MAX_WINDOW_BYTES \<and> window_for 8000000 (100 * 1000000) = 100000"

definition controller_ignores_loss :: bool where
  "controller_ignores_loss \<longleftrightarrow>
     (let c = brutal_new 8000000 1200; before = controller_window c; c = on_congestion_event c
      in controller_window c = before)"

lemma congestion_tests:
  window_is_rate_by_rtt window_never_below_minimum window_capped_at_maximum controller_ignores_loss
  by (simp_all add: window_is_rate_by_rtt_def window_never_below_minimum_def window_capped_at_maximum_def
      controller_ignores_loss_def window_for_def clamp_def code_consts on_congestion_event_def Let_def)

subsection \<open>The nonce cache\<close>

text \<open>\<open>now i\<close> is the clock at the \<open>i\<close>th call.\<close>

definition nonce_cache_rejects_duplicates :: "(nat \<Rightarrow> nat) \<Rightarrow> bool" where
  "nonce_cache_rejects_duplicates now \<longleftrightarrow>
     (let c = nonce_cache_new 8; (a1, c) = nonce_insert (now 0) c (lit ''nonce-1'');
          (a2, c) = nonce_insert (now 1) c (lit ''nonce-1''); (a3, c) = nonce_insert (now 2) c (lit ''nonce-2'')
      in a1 \<and> \<not> a2 \<and> a3)"

definition nonce_cache_evicts_oldest_not_everything :: "(nat \<Rightarrow> nat) \<Rightarrow> bool" where
  "nonce_cache_evicts_oldest_not_everything now \<longleftrightarrow>
     (let c = nonce_cache_new 4;
          (a, c) = run_guard cache_step c
            [(now 0, lit ''nonce-0''), (now 1, lit ''nonce-1''), (now 2, lit ''nonce-2''), (now 3, lit ''nonce-3'')];
          (a4, c) = nonce_insert (now 4) c (lit ''nonce-4''); (a5, c) = nonce_insert (now 5) c (lit ''nonce-1'');
          (a6, c) = nonce_insert (now 6) c (lit ''nonce-3''); (a7, c) = nonce_insert (now 7) c (lit ''nonce-0'');
          (a8, c) = nonce_insert (now 8) c (lit ''nonce-5'')
      in list_all id a \<and> a4 \<and> \<not> a5 \<and> \<not> a6 \<and> a7 \<and> a8 \<and>
         fcard (nc_set c) = length (nc_order c) \<and> length (nc_order c) \<le> 4)"

definition nonce_cache_ttl_expires :: "(nat \<Rightarrow> nat) \<Rightarrow> bool" where
  "nonce_cache_ttl_expires now \<longleftrightarrow>
     (let c = nonce_cache_new 8; (a1, c) = nonce_insert (now 0) c (lit ''ttl-nonce'');
          c = c\<lparr>nc_order := (nc_order c)[0 := (fst (nc_order c ! 0), now 1 - REPLAY_TTL - seconds 1)]\<rparr>;
          (a2, c) = nonce_insert (now 2) c (lit ''other''); (a3, c) = nonce_insert (now 3) c (lit ''ttl-nonce'')
      in a1 \<and> a2 \<and> a3)"

text \<open>Every call within the lifetime of the first entry.\<close>

definition prompt :: "(nat \<Rightarrow> nat) \<Rightarrow> bool" where
  "prompt now \<longleftrightarrow> (\<forall>i < 9. \<forall>j < 9. now i - now j < REPLAY_TTL)"

lemma nonce_texts:
  "lit ''nonce-1'' \<noteq> lit ''nonce-2''" "lit ''nonce-0'' \<noteq> lit ''nonce-1''"
  by (simp_all add: lit_def)

lemma nonce_cache_tests:
  assumes "prompt now"
  shows "nonce_cache_rejects_duplicates now" "nonce_cache_evicts_oldest_not_everything now"
proof -
  have t: "now i - now j < REPLAY_TTL" if "i < 9" "j < 9" for i j
    using assms that by (simp add: prompt_def)
  show "nonce_cache_rejects_duplicates now"
    by (simp add: nonce_cache_rejects_duplicates_def Let_def nonce_cache_new_def nonce_insert_def
        evict_expired_def t lit_def)
  show "nonce_cache_evicts_oldest_not_everything now"
    by (simp add: nonce_cache_evicts_oldest_not_everything_def Let_def nonce_cache_new_def nonce_insert_def
        evict_expired_def t lit_def run_guard.simps(2) cache_step_def fcard_finsert_if)
qed

lemma nonce_cache_ttl_test:
  assumes "seconds 601 \<le> now 1" "now 1 \<le> now 2" "now 2 \<le> now 3" "now 3 - now 2 < REPLAY_TTL"
  shows "nonce_cache_ttl_expires now"
  using assms
  by (simp add: nonce_cache_ttl_expires_def Let_def nonce_cache_new_def nonce_insert_def evict_expired_def
      lit_def code_consts seconds_def)

subsection \<open>Metrics\<close>

definition snapshot_reflects_increments :: bool where
  "snapshot_reflects_increments \<longleftrightarrow>
     (let m = metrics_new; m = m\<lparr>mt_auth_ok := mt_auth_ok m + 2\<rparr>;
          m = m\<lparr>mt_udp_sessions_rejected := mt_udp_sessions_rejected m + 1\<rparr>; s = snapshot m
      in ms_auth_ok s = 2 \<and> ms_udp_sessions_rejected s = 1 \<and> ms_streams_opened s = 0)"

definition prometheus_render_contains_keys :: bool where
  "prometheus_render_contains_keys \<longleftrightarrow>
     (let m = metrics_new; m = m\<lparr>mt_auth_ok := mt_auth_ok m + 1\<rparr>; text = render_prometheus m
      in sublist (lit ''hydr_auth_ok_total 1'') text \<and> sublist (lit ''hydr_udp_sessions_current 0'') text \<and>
         sublist (lit ''# TYPE hydr_auth_ok_total counter'') text)"

lemma sublist_more: "sublist s a \<Longrightarrow> sublist s (a @ b)" "sublist s b \<Longrightarrow> sublist s (a @ b)"
  by (simp_all add: sublist_append)

lemma sublist_lines:
  "sublist (name @ lit '' '' @ show_word v) (counter out name help v)"
  "sublist (name @ lit '' '' @ show_word v) (gauge out name help v)"
  "sublist (lit ''# TYPE '' @ name @ lit '' counter'') (counter out name help v)"
proof -
  have last: "sublist (name @ lit '' '' @ show_word v) (a @ name @ lit '' '' @ show_word v @ [10])" for a
    using sublist_appendI [of "name @ lit '' '' @ show_word v" a "[10]"] by (simp only: append_assoc)
  show "sublist (name @ lit '' '' @ show_word v) (counter out name help v)"
    "sublist (name @ lit '' '' @ show_word v) (gauge out name help v)"
    unfolding counter_def gauge_def
    using last [of "out @ lit ''# HELP '' @ name @ lit '' '' @ help @ [10] @ lit ''# TYPE '' @ name @ lit '' counter'' @ [10]"]
      last [of "out @ lit ''# HELP '' @ name @ lit '' '' @ help @ [10] @ lit ''# TYPE '' @ name @ lit '' gauge'' @ [10]"]
    by (simp_all only: append_assoc)
  show "sublist (lit ''# TYPE '' @ name @ lit '' counter'') (counter out name help v)"
    unfolding counter_def
    using sublist_appendI [of "lit ''# TYPE '' @ name @ lit '' counter''"
        "out @ lit ''# HELP '' @ name @ lit '' '' @ help @ [10]" "[10] @ name @ lit '' '' @ show_word v @ [10]"]
    by (simp only: append_assoc)
qed

lemma sublist_earlier:
  "sublist s out \<Longrightarrow> sublist s (counter out name help v)" "sublist s out \<Longrightarrow> sublist s (gauge out name help v)"
  unfolding counter_def gauge_def by (erule sublist_more(1))+

lemma metrics_tests: snapshot_reflects_increments prometheus_render_contains_keys
proof -
  show snapshot_reflects_increments
    by (simp add: snapshot_reflects_increments_def snapshot_def metrics_new_def)
  have line: "lit ''hydr_auth_ok_total 1'' = lit ''hydr_auth_ok_total'' @ lit '' '' @ show_word (1 :: u64)"
    "lit ''hydr_udp_sessions_current 0'' = lit ''hydr_udp_sessions_current'' @ lit '' '' @ show_word (0 :: u64)"
    "lit ''# TYPE hydr_auth_ok_total counter'' = lit ''# TYPE '' @ lit ''hydr_auth_ok_total'' @ lit '' counter''"
    by code_simp+
  let ?m = "metrics_new\<lparr>mt_auth_ok := 1\<rparr>"
  have "ms_auth_ok (snapshot ?m) = 1" "ms_udp_sessions_current (snapshot ?m) = 0"
    by (simp_all add: snapshot_def metrics_new_def)
  then have "sublist (lit ''hydr_auth_ok_total'' @ lit '' '' @ show_word (1 :: u64)) (render_prometheus ?m)"
    "sublist (lit ''hydr_udp_sessions_current'' @ lit '' '' @ show_word (0 :: u64)) (render_prometheus ?m)"
    "sublist (lit ''# TYPE '' @ lit ''hydr_auth_ok_total'' @ lit '' counter'') (render_prometheus ?m)"
    unfolding render_prometheus_def Let_def by (metis sublist_lines sublist_earlier)+
  then show prometheus_render_contains_keys
    unfolding prometheus_render_contains_keys_def Let_def line by (simp add: metrics_new_def)
qed

subsection \<open>Fingerprints and the stored identity\<close>

text \<open>\<open>to_uppercase\<close> on ASCII text, and \<open>join\<close>.\<close>

definition to_uppercase :: "rstring \<Rightarrow> rstring" where
  "to_uppercase s = map (\<lambda>c. if 0x61 \<le> c \<and> c \<le> 0x7A then c - 0x20 else c) s"

fun join_with :: "rstring \<Rightarrow> rstring list \<Rightarrow> rstring" where
  "join_with sep [] = []"
| "join_with sep [x] = x"
| "join_with sep (x # y # xs) = x @ sep @ join_with sep (y # xs)"

definition fingerprint_parse_roundtrip :: bool where
  "fingerprint_parse_roundtrip \<longleftrightarrow>
     (let fp = map of_nat [0..<32]; hex = fingerprint_hex fp
      in length hex = 64 \<and> parse_fingerprint hex = Some fp \<and> parse_fingerprint (to_uppercase hex) = Some fp)"

definition fingerprint_parse_accepts_colons :: bool where
  "fingerprint_parse_accepts_colons \<longleftrightarrow>
     (let fp = map (\<lambda>i. of_nat (i * 7)) [0..<32]; hex = fingerprint_hex fp;
          colonized = join_with (lit '':'') (chunks 2 hex)
      in parse_fingerprint colonized = Some fp)"

definition fingerprint_parse_rejects_garbage :: bool where
  "fingerprint_parse_rejects_garbage \<longleftrightarrow>
     parse_fingerprint [] = None \<and> parse_fingerprint (lit ''zz'') = None \<and>
     parse_fingerprint (concat (replicate 63 (lit ''a''))) = None \<and>
     parse_fingerprint (concat (replicate 64 (lit ''g''))) = None"

lemma fingerprint_tests:
  fingerprint_parse_roundtrip fingerprint_parse_accepts_colons fingerprint_parse_rejects_garbage
  by code_simp+

text \<open>The test on a fresh directory: two starts with the same paths, and one with half of them.\<close>

definition load_or_generate_persists_and_keeps_fingerprint ::
  "(bytes \<Rightarrow> bytes) \<Rightarrow> (bytes \<Rightarrow> rstring) \<Rightarrow> (rstring \<Rightarrow> rstring + bytes) \<Rightarrow> (rstring \<Rightarrow> rstring + bytes) \<Rightarrow>
   generated_cert \<Rightarrow> generated_cert \<Rightarrow> rstring \<Rightarrow> bool" where
  "load_or_generate_persists_and_keeps_fingerprint sha256 base64 read_cert read_key cert1 cert2 dir \<longleftrightarrow>
     (let cp = dir @ lit ''/cert.pem''; kp = dir @ lit ''/key.pem'';
          load = (\<lambda>cert. load_or_generate base64 read_cert read_key (Inr cert) (\<lambda>p. None));
          (g1, files) = load cert1 (Some cp) (Some kp) (\<lambda>p. None);
          (g2, files') = load cert2 (Some cp) (Some kp) files;
          (g3, files'') = load cert2 (Some cp) None files'
      in case (g1, g2, g3) of
           (Inr g1, Inr g2, Inl e) \<Rightarrow>
             files cp \<noteq> None \<and> files kp \<noteq> None \<and>
             cert_fingerprint sha256 (gc_cert g1) = cert_fingerprint sha256 (gc_cert g2)
         | _ \<Rightarrow> False)"

lemma extension_in_directory:
  "with_extension (lit ''tmp'') (dir @ lit ''/cert.pem'') = dir @ lit ''/cert.tmp''"
  "with_extension (lit ''tmp'') (dir @ lit ''/key.pem'') = dir @ lit ''/key.tmp''"
  by (simp_all add: with_extension_def lit_def Let_def)

lemma identity_test:
  assumes "reads_pem read_cert base64 (lit ''CERTIFICATE'')" and "reads_pem read_key base64 (lit ''PRIVATE KEY'')"
  shows "load_or_generate_persists_and_keeps_fingerprint sha256 base64 read_cert read_key cert1 cert2 dir"
proof -
  have "dir @ lit ''/cert.pem'' \<noteq> dir @ lit ''/key.pem''" "dir @ lit ''/key.tmp'' \<noteq> dir @ lit ''/cert.pem''"
    "dir @ lit ''/cert.tmp'' \<noteq> dir @ lit ''/cert.pem''" "dir @ lit ''/key.tmp'' \<noteq> dir @ lit ''/key.pem''"
    "dir @ lit ''/cert.tmp'' \<noteq> dir @ lit ''/key.pem''" by (simp_all add: lit_def)
  with reads_pem_text [OF assms(1)] reads_pem_text [OF assms(2)] show ?thesis
    by (simp add: load_or_generate_persists_and_keeps_fingerprint_def load_or_generate_def write_pem_def
        extension_in_directory Let_def)
qed

end
