(* ===== verification/Digest_Tests.thy ===== *)
theory Digest_Tests
  imports Component_Tests
begin

section \<open>Unit tests that rest on different digests\<close>

text \<open>
  The tests of \<open>message.rs\<close> and \<open>obfuscation.rs\<close> (\<open>src/crates/hydr-core/src\<close>) which pass because BLAKE3
  gives two particular inputs different digests. That difference is the hypothesis of their lemmas.
\<close>

definition auth_proof_verifies_with_correct_password_only :: "derive_key_fn \<Rightarrow> keyed_hash_fn \<Rightarrow> bool" where
  "auth_proof_verifies_with_correct_password_only derive keyed =
     (let nonce = replicate NONCE_LEN 7;
          good = compute_auth_proof derive keyed (lit ''pw'') nonce;
          bad = compute_auth_proof derive keyed (lit ''other'') nonce
      in good \<noteq> bad \<and> ct_eq good good \<and> \<not> ct_eq good bad)"

lemma auth_proof_test:
  assumes "keyed (derive_key derive (lit ''pw'')) (replicate NONCE_LEN 7) \<noteq>
      keyed (derive_key derive (lit ''other'')) (replicate NONCE_LEN 7)"
  shows "auth_proof_verifies_with_correct_password_only derive keyed"
  using assms by (simp add: auth_proof_verifies_with_correct_password_only_def Let_def compute_auth_proof_def ct_eq_iff)

definition wrong_key_fails :: "hash_fn \<Rightarrow> keyed_hash_fn \<Rightarrow> bytes \<Rightarrow> metrics \<Rightarrow> bool" where
  "wrong_key_fails hash keyed salt m =
     (let a = obfuscator_new hash (lit ''key-a''); b = obfuscator_new hash (lit ''key-b'');
          payload = lit ''hello''
      in unwraps (encrypt hash keyed (Some salt) a payload) (\<lambda>(payload, a).
         unwraps (decrypt hash keyed m b payload) (\<lambda>(r, _). r = None)))"

definition tampered_ciphertext_rejected :: "hash_fn \<Rightarrow> keyed_hash_fn \<Rightarrow> bytes \<Rightarrow> metrics \<Rightarrow> bool" where
  "tampered_ciphertext_rejected hash keyed salt m =
     (let ob = obfuscator_new hash (lit ''key''); payload = lit ''trusted-data''
      in unwraps (encrypt hash keyed (Some salt) ob payload) (\<lambda>(payload, ob).
           let idx = SALT_LEN; payload = payload[idx := payload ! idx XOR 0xFF]
           in unwraps (decrypt hash keyed m ob payload) (\<lambda>(r, _). r = None)))"

definition encrypted_has_salt_prefix_and_differs :: "hash_fn \<Rightarrow> keyed_hash_fn \<Rightarrow> bytes \<Rightarrow> bool" where
  "encrypted_has_salt_prefix_and_differs hash keyed salt =
     (let ob = obfuscator_new hash (lit ''key''); payload = lit ''sensitive''
      in unwraps (encrypt hash keyed (Some salt) ob payload) (\<lambda>(out, ob).
           SALT_LEN + TAG_LEN + 8 \<le> length out \<and>
           unwraps (slice_range out SALT_LEN (length out - TAG_LEN)) (\<lambda>s. s \<noteq> payload) \<and> out \<noteq> payload))"

text \<open>The parts of a message.\<close>

lemma encrypt_parts:
  assumes "blake3_lengths hash keyed"
  obtains body where
    "encrypt hash keyed (Some salt) ob payload =
       Ok (salt @ body @ frame_tag keyed ob body, ob\<lparr>ob_send_seq := ob_send_seq ob + 1\<rparr>)"
    "length body = 8 + length payload"
proof -
  let ?ob = "ob\<lparr>ob_send_seq := ob_send_seq ob + 1\<rparr>"
  obtain body where "xor_in_place hash ?ob (be_bytes 8 (ob_send_seq ob) @ payload) salt = Ok body"
    "length body = length (be_bytes 8 (ob_send_seq ob) @ payload)"
    using xor_in_place_involution [OF assms] by blast
  with that show thesis
    by (simp add: encrypt_def obfuscator_tag_Ok [OF assms] frame_tag_def)
qed

lemma decrypt_bad_tag:
  assumes b: "blake3_lengths hash keyed" and "length salt = SALT_LEN" "length tag = TAG_LEN" "8 \<le> length body"
    and "frame_tag keyed ob body \<noteq> tag"
  shows "unwraps (decrypt hash keyed m ob (salt @ body @ tag)) (\<lambda>(r, _). r = None)"
proof -
  from xor_in_place_involution [OF b, of ob body salt] obtain plain where
    "xor_in_place hash ob body salt = Ok plain" by blast
  from decrypt_outcome_parts [OF b assms(2-4) this, of m] assms(5) show ?thesis
    by (simp add: decrypt_def judge_def)
qed

lemma wrong_key_test:
  assumes b: "blake3_lengths hash keyed" and "length salt = SALT_LEN"
    and "\<And>body. take TAG_LEN (keyed (hash (lit ''key-a'')) body) \<noteq> take TAG_LEN (keyed (hash (lit ''key-b'')) body)"
  shows "wrong_key_fails hash keyed salt m"
proof -
  let ?a = "obfuscator_new hash (lit ''key-a'')" and ?b = "obfuscator_new hash (lit ''key-b'')"
  obtain body where enc: "encrypt hash keyed (Some salt) ?a (lit ''hello'') =
      Ok (salt @ body @ frame_tag keyed ?a body, ?a\<lparr>ob_send_seq := ob_send_seq ?a + 1\<rparr>)"
    and len: "length body = 8 + length (lit ''hello'')" by (rule encrypt_parts [OF b])
  have "frame_tag keyed ?b body \<noteq> frame_tag keyed ?a body"
    using assms(3) [of body] by (simp add: frame_tag_def obfuscator_new_def)
  from decrypt_bad_tag [OF b assms(2) length_frame_tag [OF b] _ this] len enc show ?thesis
    by (simp add: wrong_key_fails_def Let_def)
qed

lemma tampered_test:
  assumes b: "blake3_lengths hash keyed" and salt: "length salt = SALT_LEN"
    and "\<And>c cs. take TAG_LEN (keyed (hash (lit ''key'')) ((c XOR 0xFF) # cs)) \<noteq> take TAG_LEN (keyed (hash (lit ''key'')) (c # cs))"
  shows "tampered_ciphertext_rejected hash keyed salt m"
proof -
  let ?ob = "obfuscator_new hash (lit ''key'')" and ?p = "lit ''trusted-data''"
  obtain body where enc: "encrypt hash keyed (Some salt) ?ob ?p =
      Ok (salt @ body @ frame_tag keyed ?ob body, ?ob\<lparr>ob_send_seq := ob_send_seq ?ob + 1\<rparr>)"
    and len: "length body = 8 + length ?p" by (rule encrypt_parts [OF b])
  then obtain c cs where body: "body = c # cs" by (cases body) auto
  let ?ob' = "?ob\<lparr>ob_send_seq := ob_send_seq ?ob + 1\<rparr>" and ?body = "(c XOR 0xFF) # cs"
  have "frame_tag keyed ?ob' ?body \<noteq> frame_tag keyed ?ob body"
    using assms(3) by (simp add: frame_tag_def obfuscator_new_def body)
  note bad = decrypt_bad_tag [OF b salt length_frame_tag [OF b] _ this]
  have "(salt @ body @ frame_tag keyed ?ob body)[SALT_LEN := (salt @ body @ frame_tag keyed ?ob body) ! SALT_LEN XOR 0xFF] =
      salt @ ?body @ frame_tag keyed ?ob body"
    using salt by (simp add: body nth_append list_update_append)
  with bad [of m] len enc show ?thesis
    by (simp add: tampered_ciphertext_rejected_def Let_def body)
qed

lemma salt_prefix_test:
  assumes b: "blake3_lengths hash keyed" and salt: "length salt = SALT_LEN"
  shows "encrypted_has_salt_prefix_and_differs hash keyed salt"
proof -
  let ?ob = "obfuscator_new hash (lit ''key'')" and ?p = "lit ''sensitive''"
  obtain body where enc: "encrypt hash keyed (Some salt) ?ob ?p =
      Ok (salt @ body @ frame_tag keyed ?ob body, ?ob\<lparr>ob_send_seq := ob_send_seq ?ob + 1\<rparr>)"
    and len: "length body = 8 + length ?p" by (rule encrypt_parts [OF b])
  have "slice_range (salt @ body @ frame_tag keyed ?ob body) SALT_LEN
      (length (salt @ body @ frame_tag keyed ?ob body) - TAG_LEN) = Ok body"
    using salt length_frame_tag [OF b, of ?ob body] by (simp add: slice_range_def)
  moreover have "body \<noteq> ?p"
  proof
    assume "body = ?p"
    from arg_cong [OF this, of length] len show False by simp
  qed
  moreover have "salt @ body @ frame_tag keyed ?ob body \<noteq> ?p"
  proof
    assume "salt @ body @ frame_tag keyed ?ob body = ?p"
    from arg_cong [OF this, of length] len show False by simp
  qed
  ultimately show ?thesis
    using enc len salt length_frame_tag [OF b, of ?ob body]
    by (simp add: encrypted_has_salt_prefix_and_differs_def Let_def)
qed

end
