(* ===== verification/Spec2Isabelle.thy ===== *)
theory Spec2Isabelle
  imports Address_Text Client_Reconnect Settings Listeners Quic_Events Wire_Types Ws_Serving Ws_Backpressure
    Ws_Progress Ws_Capture Udp_Path Message_Tests Digest_Tests
begin

text \<open>
  Verification development for hydr, a proxy that carries TCP streams and UDP datagrams through a
  tunnel over QUIC or WebSocket. All paths below are under \<open>src/crates\<close>.

  \<^bold>\<open>The program and its theories.\<close> A client accepts SOCKS5 connections, opens one tunnel to a server and
  a stream in it per connection; the server connects to the targets, or passes everything on to a
  next server.

  \<^item> \<open>Hydr_Prelude\<close>: machine integers, byte strings, \<open>Error\<close> (\<open>hydr-core/src/error.rs\<close>), results in
    which a panic is a value, checked slicing, decimal formatting. \<open>Codec\<close>: the contracts of an encoder
    and decoder as locales (\<open>whole_codec\<close>, extended by \<open>prefix_codec\<close>), interpreted for every message.
    \<open>Guards\<close>: the contracts of a stateful yes-or-no check (replay filter, rate limiter, nonce cache) and
    of its refinement by an ideal one, interpreted for those components and for the login.
  \<^item> \<open>Varint\<close>, \<open>Wire_Reader\<close>, \<open>Utf8\<close>, \<open>Address\<close>, \<open>Messages\<close>, \<open>Frames\<close>: the wire format of
    \<open>hydr-core/src/varint.rs\<close>, \<open>address.rs\<close>, \<open>message.rs\<close> and \<open>frame.rs\<close>, with round trips in front of any
    further bytes, absence of panics, and the limits;
    \<open>Address_Text\<close>: an address as text; \<open>Wire_Types\<close>: what the decoders return is
    well-formed, so a hop passes on what it understood.
  \<^item> \<open>Metrics\<close>: \<open>hydr-core/src/metrics.rs\<close> and the answer of \<open>hydr-server/src/metrics_endpoint.rs\<close>, read
    back by a scraper. \<open>Obfuscation\<close>: \<open>hydr-core/src/obfuscation.rs\<close>, the replay filter as a refinement
    of one that remembers everything. \<open>Congestion\<close>: \<open>hydr-cc/src/lib.rs\<close> as a state machine.
  \<^item> \<open>Byte_Stream\<close> is the library's bidirectional stream; \<open>Quic_Transport\<close> models
    \<open>hydr-transport/src/quic.rs\<close> (length-prefixed messages, the two handshakes, opening, accepting and
    answering streams), \<open>Ws_Tunnel\<close>, \<open>Ws_Credit\<close> and \<open>Ws_Stream\<close> \<open>hydr-transport/src/ws.rs\<close> (the
    connection loop and every frame handler; the credit window of a stream; the tasks its bytes pass), \<open>Tunnel\<close> and \<open>Quic_Events\<close>
    \<open>hydr-transport/src/lib.rs\<close> (the common face of both transports; the \<open>select!\<close> of \<open>next_event\<close>),
    \<open>Tls_Pin\<close> \<open>hydr-transport/src/tls.rs\<close> (fingerprints, pinning, the identity on disk), \<open>Dialing\<close> the
    \<open>connect_with_tls\<close> functions. \<open>Ws_Pair\<close> joins the loops of both ends of a WebSocket connection, \<open>Ws_Masked\<close> adds their
    writers with queues and wires of bounded size, the obfuscation and somebody who sends recorded messages
    again, and refines \<open>Ws_Pair\<close>; \<open>Ws_Progress\<close> has what the ends agree on and when they get on;
    \<open>Ws_Backpressure\<close> has the queues of commands too, and the flow control of the streams, and shows the jam.
  \<^item> \<open>Nonce_Cache\<close>, \<open>Rate_Limiter\<close>, \<open>Server_Auth\<close>: the first half of \<open>hydr-server/src/lib.rs\<close>, up to
    \<open>validate\<close> and the tunnel permits; \<open>Udp_Manager\<close>: \<open>hydr-server/src/udp.rs\<close>; \<open>Server_Tunnels\<close>: the
    rest of \<open>lib.rs\<close> for one connection, from accepting it to relaying its streams and datagrams, and the
    start of a QUIC listener with the reload of its certificate; \<open>Server_Run\<close>: the whole server, both
    accept loops and the tasks of all their connections interleaved over one state; \<open>Listeners\<close>: how the
    listeners of both programs are built and bound.
  \<^item> \<open>Socks5\<close>, \<open>Udp_Relay\<close>, \<open>Client\<close>, \<open>Client_Reconnect\<close>: \<open>hydr-client/src/socks5.rs\<close>, \<open>udp_relay.rs\<close> and
    \<open>lib.rs\<close>, the last in two parts: one SOCKS5 connection, and the tasks that share and replace the
    tunnel. \<open>Settings\<close>: \<open>cli.rs\<close> and \<open>main.rs\<close> of both programs.
  \<^item> Compositions of client and server: \<open>Ws_Login\<close> (the WebSocket handshake),
    \<open>Ws_Capture\<close> (recorded and reflected messages on other connections), \<open>Ws_Serving\<close> (the connections of \<open>Ws_Masked\<close> with the
    tasks of the server that answer, through a chain of servers), \<open>Udp_Path\<close> (a packet and its answer), and the end of this theory (a connection over QUIC).
  \<^item> \<open>Core_Tests\<close>, \<open>Message_Tests\<close>, \<open>Component_Tests\<close>, \<open>Digest_Tests\<close>: the unit tests of the repository, run on the model. A
    test is a boolean definition, and that it passes a lemma; where it draws random bytes, hashes, reads
    the clock or starts threads, the lemma covers all of them.

  \<^bold>\<open>How the code is modelled.\<close> A struct is a record with prefixed fields, an enum a datatype, a method a
  function of the same name from the state to the result and the new state. \<open>u8\<close> to \<open>u128\<close> are words;
  \<open>usize\<close> values are \<open>nat\<close> with their overflow written out where the code adds them. A \<open>Result\<close> is
  \<open>failure + 'a\<close>, where the failure is an error of the code or a panic. Atomics and mutex-protected
  fields are passed as state; where tasks interleave (\<open>flow_step\<close>, \<open>udp_step\<close>, \<open>relay_step\<close>,
  \<open>client_act\<close>, \<open>tunnels_step\<close>, \<open>live_step\<close>, \<open>serve_events\<close>, \<open>pair_step\<close>, \<open>masked_step\<close>, \<open>conn_step\<close>) a step is one action of one task between two points where
  another task can run, and the theorems hold for every sequence of steps. Time is a natural number of
  nanoseconds or seconds, given to each call.

  \<^bold>\<open>Parameters.\<close> Code of libraries is an argument: BLAKE3 (\<open>derive_key_fn\<close>, \<open>keyed_hash_fn\<close>, \<open>hash_fn\<close>),
  SHA-256, the random generator, Base64 and the PEM reader, quinn, tungstenite and rustls (the record
  \<open>network\<close>, the streams of \<open>Byte_Stream\<close>), the YAML parser, the file system, sockets and name lookup.
  What a theorem needs of them is a hypothesis that restates their documentation: the length of a
  digest, that the PEM reader reads files in the strict form of RFC 7468, that a TLS connection is only made to a server
  whose certificate the verifier accepts (\<open>certs_checked\<close>).

  \<^bold>\<open>What the lemmas show.\<close>
  \<^item> Authentication: \<open>validate\<close> with its bounded, expiring nonce cache authenticates exactly the requests a
    checker with the full recent history would; a captured request is refused as long as its nonce is
    remembered and accepted afterwards; no address has more than 30 connections through in a minute; all
    this also for the whole server, whatever its listeners and connections do in between; and neither
    transport enforces the verdict, which is a defect. The log of verdicts of \<open>Server_Run\<close> is a history
    variable, the only part of its state that is not in the code.
  \<^item> Wire format: every message and frame decodes to itself and to nothing else, no received bytes make
    a decoder or the connection loop panic, and everything decoded is well-formed.
  \<^item> Tunnels: the two ends of a handshake and of opening a stream agree; open tunnels and free permits
    add up; a session of the multiplexer is only registered for an approved request; the bytes of a
    stream arrive unchanged among the frames of the others; its memory is bounded by its window,
    and it never stalls while credits find room and the other direction is open.
  \<^item> Connections end to end, for the targets the client reads correctly (IPv4 addresses and domains of
    less than 64 bytes, \<open>common_format\<close>) and without a SOCKS5 login: over either transport, and over WebSocket
    among any other streams and through a chain of servers, the application gets the success reply exactly
    when the last server reached the target it asked for. In every interleaving of its two loops and
    writers, and, with obfuscation, whatever is sent again on the same connection and in the same direction,
    the ends of a WebSocket connection agree on requests and replies, and every waiting opener can still
    be answered unless both ends are jammed. The proof is a simulation (\<open>Ws_Masked\<close>): masking, counters,
    replay windows and bounds do not show; and a measure of what is on the way, which in every state but
    the jam some action brings down without jamming the ends (\<open>Ws_Progress\<close>).
  \<^item> UDP: the first packet of an association and its answers pass both programs unchanged (again for IPv4 and
    short domains); counters, caps and table agree in every reachable state; whatever becomes of a datagram,
    sending failures included, no other session is touched;
    and a client's relay answers only the first sender of an association.
  \<^item> Client: nothing happens before the SOCKS5 login; a client with a fingerprint only gets a tunnel over
    QUIC or \<open>wss://\<close> to the pinned server, and every fingerprint the server announces can be pinned; the
    identity on disk survives a restart, temporary files included; reconnections are deduplicated, and all
    openers can always come to an end.
  \<^item> Defects: several theorems are counterexamples that the model's faithful definitions force, such as
    the unenforced login, unlimited guesses over one connection, silent connections that outlive their
    timeout, recorded sessions that are served again on a new connection, two ends of a connection waiting for each other's sockets, streams lost to a datagram, the reconnection stuck behind a receiver, SOCKS5
    addresses misread, the shared next-hop connection, and unchecked allocation.

  \<^bold>\<open>Bounds.\<close> Buffers are at most \<open>isize_max\<close> bytes, as Rust's are; varint fields are below \<open>2 ^ 62\<close>. No
  definition needs fuel: loops recurse on a list or have a measure. Memory that can be allocated is the
  argument \<open>mem\<close> of \<open>read_message\<close>. Runs of \<open>Ws_Masked\<close> have less than \<open>2 ^ 60\<close> actions, so that
  neither stream numbers nor the counters of the obfuscators come round. A wire of \<open>Ws_Masked\<close> and of
  \<open>Ws_Backpressure\<close> takes any fixed number of messages; the queues have the 256 places of the code. Generations of the client's tunnel are natural numbers.

  \<^bold>\<open>Not modelled.\<close> \<open>copy_bidirectional\<close>, logging and command line parsing; the signature checks that only
  call rustls, and what rustls, rcgen and quinn make of a certificate, which are parameters; the
  delegating \<open>poll\<close> functions of \<open>QuicStream\<close> and \<open>DuplexIo\<close>;
  the optional protobuf module \<open>hydr-core/src/proto.rs\<close>, whose code is generated; the order of memory
  accesses weaker than sequential consistency; the timing of \<open>ct_eq\<close>; the queues of events and of data between a connection and its application, which are taken to be
  emptied; the permissions of the files \<open>write_pem\<close> makes; links and other spellings of a path; the integration tests, which drive
  the real libraries over sockets, and two unit tests that only assert that BLAKE3 digests differ. The chain of
  servers in \<open>Ws_Serving\<close> keeps its next hops while a stream is opened; what happens when another tunnel
  replaces them is in \<open>Server_Tunnels\<close>.
\<close>

section \<open>From the application to the target\<close>

lemma common_format_wf: "common_format a \<Longrightarrow> wf_address a"
  by (cases a rule: common_format.cases) auto

text \<open>
  (C5) The whole way of a connection over QUIC: an application asks the client's SOCKS5 port for a
  target, the client opens a stream, the server connects. If the server reaches exactly that target, the
  application gets the success reply, both sides relay, and the first byte relayed is the first byte of
  the payload; if not, the application gets the failure reply and neither side relays. This is so for a
  target that the client reads correctly, an IPv4 address or a domain of less than 64 bytes
  (\<open>common_format\<close>): an IPv6 address or a domain of more than 64 bytes gets no reply at all, and one of 64 bytes is
  misread (see the findings). No SOCKS5 login is configured, the server has no next hop, no connection
  breaks, the messages fit into memory, and the texts of errors have at most 1000 bytes.
\<close>

theorem proxied_connect_end_to_end:
  assumes "bi_recv app = [5, of_nat (length methods)] @ methods @ rfc1928_request CMD_CONNECT a @ payload"
    and "METHOD_NO_AUTH \<in> set methods" and "length methods \<le> 32" and "common_format a"
    and "bi_write_error app = None"
    and "sc_next_hop (sv_config self) = None"
    and "length (encode_open_stream [] \<lparr>os_address = a\<rparr>) \<le> mem" and "mem < 2 ^ 62" and "2 ^ 10 \<le> mem"
    and "\<And>e. tcp a = Tcp_error e \<Longrightarrow> length e \<le> 1000"
    and "bi_write_error c = None" and "bi_sent c = []" and "bi_write_error s = None" and "bi_sent s = []"
    and "bi_recv s = bi_sent (snd (quic_open_stream mem a c))"
    and "quic_accept_stream mem s = (Ok target, s')"
    and "handle_stream open_downstream tcp quic_ack self target s' = (relays, s'')"
    and "bi_recv c = bi_sent s''"
    and "handle_conn (quic_open_stream mem) udp None password c app = ((session, c'), app')"
  shows "relays = Ok (tcp a = Tcp_connected) \<and> bi_recv app' = payload \<and>
    (if tcp a = Tcp_connected
     then session = Ok (Relay_session a) \<and> bi_sent app' = bi_sent app @ [5, 0] @ socks_reply 0x00
     else session \<in> range Inl \<and> bi_sent app' = bi_sent app @ [5, 0] @ socks_reply 0x04)"
proof -
  note opened = stream_open_end_to_end
    [OF assms(6) common_format_wf [OF assms(4)] assms(7-10,11-14) assms(15-18)]
  note conn = handle_conn_connect [where connect = "quic_open_stream mem" and c = c, OF assms(1-5)]
  obtain c1 where c1: "quic_open_stream mem a c = (tcp_answer (tcp a), c1)"
    using opened by (cases "quic_open_stream mem a c") simp
  show ?thesis
  proof (cases "tcp a")
    case Tcp_connected
    with c1 have "quic_open_stream mem a c = (Ok (), c1)" by (simp add: tcp_answer_def)
    from conn(1) [OF this] Tcp_connected opened assms(19) show ?thesis by auto
  next
    case (Tcp_error e)
    with c1 obtain x where "quic_open_stream mem a c = (Fail x, c1)" by (simp add: tcp_answer_def)
    from conn(2) [OF this] Tcp_error opened assms(19) show ?thesis by auto
  next
    case Tcp_timeout
    with c1 obtain x where "quic_open_stream mem a c = (Fail x, c1)" by (simp add: tcp_answer_def)
    from conn(2) [OF this] Tcp_timeout opened assms(19) show ?thesis by auto
  qed
qed

theorem proxied_connect_end_to_end_witness:
  "\<exists>c app c' app'.
     handle_conn (quic_open_stream 2000) (\<lambda>c s. ((Crash, c), s)) None None c app =
       ((Ok (Relay_session (Ip (V4 9) 80)), c'), app') \<and> bi_recv app' = [7]"
proof -
  let ?self = "server_new sample_config :: (nat, nat) server"
  let ?a = "Ip (V4 9) 80"
  let ?open = "encode_open_stream [] \<lparr>os_address = ?a\<rparr>"
  let ?ack = "encode_open_stream_ack [] \<lparr>oa_status = STATUS_OK, oa_error_code = ERR_NONE, oa_message = []\<rparr>"
  let ?app = "\<lparr>bi_recv = [5, of_nat (length [0 :: u8])] @ [0] @ rfc1928_request CMD_CONNECT ?a @ [7],
    bi_read_error = [], bi_sent = [], bi_write_error = None\<rparr>"
  let ?s = "\<lparr>bi_recv = framed ?open, bi_read_error = [], bi_sent = [], bi_write_error = None\<rparr>"
  let ?c = "\<lparr>bi_recv = framed ?ack, bi_read_error = [], bi_sent = [], bi_write_error = None\<rparr>"
  obtain session c' app' where conn: "handle_conn (quic_open_stream 2000) (\<lambda>c s. ((Crash, c), s)) None None ?c ?app =
      ((session, c'), app')"
    by (metis surj_pair)
  have h: "handle_stream (\<lambda>h a. Crash) (\<lambda>a. Tcp_connected) quic_ack ?self ?a (?s\<lparr>bi_recv := []\<rparr>) =
      (Ok True, ?s\<lparr>bi_recv := [], bi_sent := framed ?ack\<rparr>)"
    by (simp add: handle_stream_def connect_peer_def server_new_def sample_config_def Let_def quic_ack_def
        write_len_prefixed_run)
  have acc: "quic_accept_stream 2000 ?s = (Ok ?a, ?s\<lparr>bi_recv := []\<rparr>)" by code_simp
  have len: "length ?open \<le> 2000" by code_simp
  have "Ok True = Ok ((\<lambda>a. Tcp_connected) ?a = Tcp_connected) \<and> bi_recv app' = [7] \<and>
    (if (\<lambda>a. Tcp_connected) ?a = Tcp_connected
     then session = Ok (Relay_session ?a) \<and> bi_sent app' = bi_sent ?app @ [5, 0] @ socks_reply 0x00
     else session \<in> range Inl \<and> bi_sent app' = bi_sent ?app @ [5, 0] @ socks_reply 0x04)"
    by (rule proxied_connect_end_to_end [where methods = "[0]", OF _ _ _ _ _ _ len _ _ _ _ _ _ _ _ acc h _ conn])
      (simp_all add: METHOD_NO_AUTH_def server_new_def sample_config_def Let_def quic_open_stream_sends)
  with conn show ?thesis by auto
qed

end
